(* ===== verification/Firmware_Prelude.thy ===== *)
theory Firmware_Prelude
  imports Main "HOL-Library.Word"
begin

text \<open>
  Shared vocabulary of the firmware development: the machine types the C++ code uses, the
  collections of rewrite rules the component theories feed, reachability of step relations,
  the generic contracts (an inductive invariant, a functional refinement) and the list and
  option lemmas that more than one component needs.
\<close>

section \<open>Machine types and collections\<close>

type_synonym u8 = "8 word"
type_synonym u16 = "16 word"
type_synonym u32 = "32 word"
type_synonym u64 = "64 word"

text \<open>
  Durations and time points. \<open>std::chrono::milliseconds\<close> counts milliseconds, the steady
  clock counts nanoseconds; the components use mathematical integers for both.
\<close>

type_synonym msec = int
type_synonym nsec = int

definition ns_of_ms :: "msec \<Rightarrow> nsec" where
  "ns_of_ms d = d * 1000000"

lemma ns_of_ms_pos [simp]: "0 < ns_of_ms d \<longleftrightarrow> 0 < d"
  by (simp add: ns_of_ms_def)

lemma ns_of_ms_le [simp]: "ns_of_ms a \<le> ns_of_ms b \<longleftrightarrow> a \<le> b"
  by (simp add: ns_of_ms_def)

text \<open>
  What the code really computes with: both representations are signed 64-bit, and a result outside
  them is undefined behaviour (\<open>None\<close>). A sum of a time point and milliseconds first converts the
  duration to nanoseconds, then adds.
\<close>

definition int64 :: "int \<Rightarrow> bool" where
  "int64 z \<longleftrightarrow> - (2 ^ 63) \<le> z \<and> z < 2 ^ 63"

definition checked64 :: "int \<Rightarrow> int option" where
  "checked64 z = (if int64 z then Some z else None)"

definition clock_add :: "nsec \<Rightarrow> msec \<Rightarrow> nsec option" where
  "clock_add now d =
     (case checked64 (ns_of_ms d) of
        None \<Rightarrow> None
      | Some n \<Rightarrow> checked64 (now + n))"

lemma clock_add_eq:
  "0 \<le> now \<Longrightarrow> 0 \<le> d \<Longrightarrow> clock_add now d = (if now + ns_of_ms d < 2 ^ 63 then Some (now + ns_of_ms d) else None)"
  by (auto simp: clock_add_def checked64_def int64_def ns_of_ms_def)

text \<open>\<open>static_cast<int>\<close> of a 64-bit count: the low 32 bits, read as two's complement.\<close>

definition int_cast :: "int \<Rightarrow> int" where
  "int_cast z = sint (word_of_int z :: 32 word)"

lemma int_cast_eq: "int_cast z = signed_take_bit 31 z"
  by (simp add: int_cast_def sint_sbintrunc' [symmetric] signed_of_int)

lemma int_cast_small: "- (2 ^ 31) \<le> z \<Longrightarrow> z < 2 ^ 31 \<Longrightarrow> int_cast z = z"
  unfolding int_cast_eq by (intro signed_take_bit_int_eq_self) auto

lemma int_cast_wrap:
  assumes "2 ^ 31 \<le> z" "z < 2 ^ 32"
  shows "int_cast z = z - 2 ^ 32"
proof -
  have "z div 2 ^ 31 = 1" using assms by (simp add: div_pos_geq div_pos_pos_trivial)
  then have "bit z 31" by (simp add: bit_iff_odd)
  moreover have "take_bit 32 z = z" using assms by (intro take_bit_int_eq_self) auto
  ultimately show ?thesis using signed_take_bit_eq_take_bit_minus [of 31 z] by (simp add: int_cast_eq)
qed

lemma int_cast_low: "int_cast z = (let low = z mod 2 ^ 32 in if low < 2 ^ 31 then low else low - 2 ^ 32)"
proof -
  have "word_of_int z = (word_of_int (z mod 2 ^ 32) :: 32 word)" by (simp add: word_of_int_eq_iff take_bit_eq_mod)
  then have "int_cast z = int_cast (z mod 2 ^ 32)" by (simp add: int_cast_def)
  moreover have "0 \<le> z mod 2 ^ 32" "z mod 2 ^ 32 < 2 ^ 32" by simp_all
  then have "int_cast (z mod 2 ^ 32) = (if z mod 2 ^ 32 < 2 ^ 31 then z mod 2 ^ 32 else z mod 2 ^ 32 - 2 ^ 32)"
    by (cases "z mod 2 ^ 32 < 2 ^ 31") (simp_all only: if_True if_False, rule int_cast_small, linarith+, rule int_cast_wrap, linarith+)
  ultimately show ?thesis unfolding Let_def by (rule trans)
qed

text \<open>\<open>data()\<close> of a \<open>std::string\<close>: its characters as bytes.\<close>

definition string_bytes :: "string \<Rightarrow> u8 list" where
  "string_bytes text = map of_char text"

lemma length_string_bytes [simp]: "length (string_bytes text) = length text"
  by (simp add: string_bytes_def)

lemma unat_of_char: "unat (of_char c :: u8) = of_char c"
proof -
  have "(of_char c :: u8) = of_nat (of_char c)" by (simp add: of_nat_of_char)
  then show ?thesis by (simp only: unat_of_nat) (simp add: take_bit_nat_eq_self)
qed

lemma string_bytes_inj: "string_bytes a = string_bytes b \<longleftrightarrow> a = b"
proof -
  have "inj (of_char :: char \<Rightarrow> u8)"
    by (rule injI) (metis unat_of_char char_of_char)
  then show ?thesis by (simp add: string_bytes_def inj_map_eq_map)
qed

named_theorems op_defs
  \<comment> \<open>definitions of the operations of the components\<close>

named_theorems inv_defs
  \<comment> \<open>definitions of the well-formedness predicates\<close>

section \<open>Reachable states and inductive invariants\<close>

inductive reaches :: "('s \<Rightarrow> bool) \<Rightarrow> ('s \<Rightarrow> 's \<Rightarrow> bool) \<Rightarrow> 's \<Rightarrow> bool" for init step where
  reaches_init: "init s \<Longrightarrow> reaches init step s"
| reaches_step: "reaches init step s \<Longrightarrow> step s t \<Longrightarrow> reaches init step t"

text \<open>
  The contract of a component that runs as a step relation: what every operation keeps.
\<close>

locale inductive_invariant =
  fixes init :: "'s \<Rightarrow> bool"
    and step :: "'s \<Rightarrow> 's \<Rightarrow> bool"
    and inv :: "'s \<Rightarrow> bool"
  assumes inv_init: "init s \<Longrightarrow> inv s"
    and inv_step: "step s t \<Longrightarrow> inv s \<Longrightarrow> inv t"
begin

lemma reaches_inv: "reaches init step s \<Longrightarrow> inv s"
  by (induction rule: reaches.induct) (auto intro: inv_init inv_step)

lemma steps_inv: "step\<^sup>*\<^sup>* s t \<Longrightarrow> inv s \<Longrightarrow> inv t"
  by (induction rule: rtranclp_induct) (auto intro: inv_step)

end

text \<open>
  Refinement of an abstract machine: every step of the program is, through \<open>abs\<close>, a step of the
  machine or leaves its state alone.
\<close>

locale simulation = inductive_invariant init step inv
  for init :: "'s \<Rightarrow> bool" and step :: "'s \<Rightarrow> 's \<Rightarrow> bool" and inv :: "'s \<Rightarrow> bool" +
  fixes abs :: "'s \<Rightarrow> 'a"
    and ainit :: "'a \<Rightarrow> bool"
    and astep :: "'a \<Rightarrow> 'a \<Rightarrow> bool"
  assumes sim_init: "init s \<Longrightarrow> ainit (abs s)"
    and sim_step: "step s t \<Longrightarrow> inv s \<Longrightarrow> abs t = abs s \<or> astep (abs s) (abs t)"
begin

lemma reaches_abs: "reaches init step s \<Longrightarrow> reaches ainit astep (abs s)"
proof (induction rule: reaches.induct)
  case (reaches_init s)
  then show ?case by (blast intro: reaches.reaches_init sim_init)
next
  case (reaches_step s t)
  from sim_step [OF reaches_step(2) reaches_inv [OF reaches_step(1)]] reaches_step(3)
  show ?case by (metis reaches.reaches_step)
qed

lemma steps_abs:
  assumes "step\<^sup>*\<^sup>* s t" "inv s"
  shows "astep\<^sup>*\<^sup>* (abs s) (abs t)"
  using assms(1)
proof (induction rule: rtranclp_induct)
  case (step t u)
  from sim_step [OF step(2) steps_inv [OF step(1) assms(2)]] step(3)
  show ?case by (metis rtranclp.rtrancl_into_rtrancl)
qed simp

end

section \<open>Lists keyed by an identifier\<close>

lemma filter_neq_self: "(\<And>x. x \<in> set xs \<Longrightarrow> f x \<noteq> k) \<Longrightarrow> filter (\<lambda>x. f x \<noteq> k) xs = xs"
  by (simp add: filter_id_conv)

lemma distinct_key_eq:
  assumes "distinct (map f xs)" "x \<in> set xs" "y \<in> set xs" "f x = f y"
  shows "x = y"
  using assms by (meson distinct_map inj_onD)

lemma find_key_Some:
  assumes "find (\<lambda>x. f x = k) xs = Some x"
  shows "x \<in> set xs \<and> f x = k"
  using assms by (auto simp: find_Some_iff)

lemma find_key_None: "find (\<lambda>x. f x = k) xs = None \<longleftrightarrow> k \<notin> f ` set xs"
  by (auto simp: find_None_iff)

lemma find_key_distinct:
  assumes "distinct (map f xs)" "x \<in> set xs"
  shows "find (\<lambda>y. f y = f x) xs = Some x"
proof (cases "find (\<lambda>y. f y = f x) xs")
  case None
  with assms(2) show ?thesis by (auto simp: find_None_iff)
next
  case (Some y)
  with find_key_Some [OF Some] assms show ?thesis by (auto dest: distinct_key_eq)
qed

section \<open>Decimal numerals\<close>

text \<open>\<open>std::to_string\<close> and stream output of unsigned and signed integers.\<close>

definition digit_char :: "nat \<Rightarrow> char" where
  "digit_char d = char_of (48 + d)"

fun show_nat :: "nat \<Rightarrow> string" where
  "show_nat n = (if n < 10 then [digit_char n] else show_nat (n div 10) @ [digit_char (n mod 10)])"

declare show_nat.simps [simp del]

definition show_int :: "int \<Rightarrow> string" where
  "show_int z = (if z < 0 then CHR ''-'' # show_nat (nat (- z)) else show_nat (nat z))"

text \<open>\<open>setw\<close> and \<open>setfill\<close>: pad on the left up to a width.\<close>

definition pad_left :: "nat \<Rightarrow> char \<Rightarrow> string \<Rightarrow> string" where
  "pad_left w c s = replicate (w - length s) c @ s"

lemma show_nat_nonempty [simp]: "show_nat n \<noteq> []"
  by (subst show_nat.simps) simp

lemma length_pad_left: "length (pad_left w c s) = max w (length s)"
  by (simp add: pad_left_def)

lemma length_show_nat_bound:
  assumes "n < 10 ^ k" "0 < k"
  shows "length (show_nat n) \<le> k"
  using assms
proof (induction n arbitrary: k rule: show_nat.induct)
  case (1 n)
  show ?case
  proof (cases "n < 10")
    case True
    with 1(3) show ?thesis by (simp add: show_nat.simps [of n])
  next
    case False
    with 1(2) have "1 < k" by (cases k; cases "k - 1") auto
    with 1(2) have "n div 10 < 10 ^ (k - 1)" by (cases k) auto
    with 1(1) False \<open>1 < k\<close> have "length (show_nat (n div 10)) \<le> k - 1" by simp
    with False \<open>1 < k\<close> show ?thesis by (simp add: show_nat.simps [of n])
  qed
qed

end
