(* ===== verification/Bounded_Queue.thy ===== *)
theory Bounded_Queue
  imports Firmware_Prelude
begin

text \<open>
  \<open>framework/queue\<close>: the bounded FIFO \<open>Queue<T>\<close> with two condition variables and two
  shutdown modes. Every operation runs under one mutex, so an operation is a function on the
  queue's fields; it returns the error code, the new fields and the notifications it issues,
  in program order. A blocking operation is a function to \<open>option\<close>: \<open>None\<close> says that the
  wait predicate is false, so the caller stays in \<open>condition_variable::wait\<close>. The second half
  runs any number of threads over one queue, with the wait sets of the two condition
  variables explicit, and shows that no wake-up is lost and that items come out in the order
  they went in.
\<close>

section \<open>Data\<close>

datatype QueueError = Queue_SUCCESS | QUEUE_FULL | QUEUE_SHUTDOWN | QUEUE_TIMEOUT

datatype QueueShutdownMode = IMMEDIATE | DRAIN

datatype QueueState = Queue_RUNNING | Queue_DRAINING | Queue_SHUTDOWN

record 'a Queue =
  items :: "'a list"
  capacity :: nat
  queue_state :: QueueState
  valid :: bool

text \<open>The two condition variables and the notifications an operation can issue on them.\<close>

datatype CondVar = Not_empty | Not_full

datatype Notify = Notify_one CondVar | Notify_all CondVar

section \<open>Operations\<close>

definition Queue_new :: "nat \<Rightarrow> 'a Queue" where
  "Queue_new cap =
     \<lparr>items = [], capacity = cap,
      queue_state = (if cap > 0 then Queue_RUNNING else Queue_SHUTDOWN),
      valid = (cap > 0)\<rparr>"

definition Queue_Push :: "'a \<Rightarrow> 'a Queue \<Rightarrow> QueueError \<times> 'a Queue \<times> Notify list" where
  "Queue_Push item q =
     (if queue_state q \<noteq> Queue_RUNNING then (QUEUE_SHUTDOWN, q, [])
      else if length (items q) \<ge> capacity q then (QUEUE_FULL, q, [])
      else (Queue_SUCCESS, q\<lparr>items := items q @ [item]\<rparr>, [Notify_one Not_empty]))"

text \<open>The predicate \<open>PushFor\<close> waits for.\<close>

definition push_ready :: "'a Queue \<Rightarrow> bool" where
  "push_ready q \<longleftrightarrow> queue_state q \<noteq> Queue_RUNNING \<or> length (items q) < capacity q"

text \<open>
  \<open>wait_for\<close> returns the value of the predicate once it holds or the timeout has passed;
  \<open>expired\<close> says whether the timeout has passed at the moment the predicate is evaluated.
\<close>

definition Queue_PushFor ::
  "bool \<Rightarrow> 'a \<Rightarrow> 'a Queue \<Rightarrow> (QueueError \<times> 'a Queue \<times> Notify list) option" where
  "Queue_PushFor expired item q =
     (if push_ready q then
        (if queue_state q \<noteq> Queue_RUNNING then Some (QUEUE_SHUTDOWN, q, [])
         else Some (Queue_SUCCESS, q\<lparr>items := items q @ [item]\<rparr>, [Notify_one Not_empty]))
      else if expired then Some (QUEUE_TIMEOUT, q, [])
      else None)"

text \<open>The predicate \<open>Pop\<close> and \<open>PopFor\<close> wait for.\<close>

definition pop_ready :: "'a Queue \<Rightarrow> bool" where
  "pop_ready q \<longleftrightarrow> items q \<noteq> [] \<or> queue_state q \<noteq> Queue_RUNNING"

text \<open>What \<open>Pop\<close> and \<open>PopFor\<close> do once the wait is over; the item goes to the out-parameter.\<close>

definition pop_body :: "'a Queue \<Rightarrow> QueueError \<times> 'a option \<times> 'a Queue \<times> Notify list" where
  "pop_body q =
     (case items q of
        [] \<Rightarrow> (QUEUE_SHUTDOWN, None, q, [])
      | x # xs \<Rightarrow>
          (if queue_state q = Queue_DRAINING \<and> xs = []
           then (Queue_SUCCESS, Some x, q\<lparr>items := xs, queue_state := Queue_SHUTDOWN\<rparr>,
                 [Notify_one Not_full, Notify_all Not_empty, Notify_all Not_full])
           else (Queue_SUCCESS, Some x, q\<lparr>items := xs\<rparr>, [Notify_one Not_full])))"

definition Queue_Pop ::
  "'a Queue \<Rightarrow> (QueueError \<times> 'a option \<times> 'a Queue \<times> Notify list) option" where
  "Queue_Pop q = (if pop_ready q then Some (pop_body q) else None)"

definition Queue_PopFor ::
  "bool \<Rightarrow> 'a Queue \<Rightarrow> (QueueError \<times> 'a option \<times> 'a Queue \<times> Notify list) option" where
  "Queue_PopFor expired q =
     (if pop_ready q then Some (pop_body q)
      else if expired then Some (QUEUE_TIMEOUT, None, q, [])
      else None)"

definition Queue_Shutdown ::
  "QueueShutdownMode \<Rightarrow> 'a Queue \<Rightarrow> QueueError \<times> 'a Queue \<times> Notify list" where
  "Queue_Shutdown mode q =
     (if queue_state q = Queue_SHUTDOWN then (QUEUE_SHUTDOWN, q, [])
      else if mode = IMMEDIATE
      then (Queue_SUCCESS, q\<lparr>items := [], queue_state := Queue_SHUTDOWN\<rparr>,
            [Notify_all Not_empty, Notify_all Not_full])
      else (Queue_SUCCESS,
            q\<lparr>queue_state := (if items q = [] then Queue_SHUTDOWN else Queue_DRAINING)\<rparr>,
            [Notify_all Not_empty, Notify_all Not_full]))"

definition Queue_IsShutdown :: "'a Queue \<Rightarrow> bool" where
  "Queue_IsShutdown q \<longleftrightarrow> queue_state q = Queue_SHUTDOWN"

definition Queue_IsValid :: "'a Queue \<Rightarrow> bool" where
  "Queue_IsValid q = valid q"

definition Queue_Size :: "'a Queue \<Rightarrow> nat" where
  "Queue_Size q = length (items q)"

definition Queue_Capacity :: "'a Queue \<Rightarrow> nat" where
  "Queue_Capacity q = capacity q"

lemmas queue_op_defs = Queue_Push_def Queue_PushFor_def push_ready_def pop_ready_def
  pop_body_def Queue_Pop_def Queue_PopFor_def Queue_Shutdown_def

section \<open>Well-formed queues\<close>

definition queue_inv :: "'a Queue \<Rightarrow> bool" where
  "queue_inv q \<longleftrightarrow>
     length (items q) \<le> capacity q \<and>
     (valid q \<longleftrightarrow> capacity q > 0) \<and>
     (queue_state q = Queue_DRAINING \<longrightarrow> items q \<noteq> []) \<and>
     (queue_state q = Queue_SHUTDOWN \<longrightarrow> items q = []) \<and>
     (capacity q = 0 \<longrightarrow> queue_state q = Queue_SHUTDOWN)"

declare queue_inv_def [inv_defs]

section \<open>Threads over one queue\<close>

datatype 'a Call = Call_Push 'a | Call_PushFor 'a | Call_Pop | Call_PopFor
  | Call_Shutdown QueueShutdownMode

text \<open>
  What a thread is doing: outside the queue, asleep in the wait set of its call's condition
  variable, or awake again (notified, timed out or spuriously) and about to re-acquire the
  mutex; the flag says whether its timeout has passed.
\<close>

datatype 'a Phase = Outside | Asleep "'a Call" | Awake "'a Call" bool

fun waits_on :: "'a Call \<Rightarrow> CondVar" where
  "waits_on (Call_Push x) = Not_full"
| "waits_on (Call_PushFor x) = Not_full"
| "waits_on Call_Pop = Not_empty"
| "waits_on Call_PopFor = Not_empty"
| "waits_on (Call_Shutdown m) = Not_empty"

fun timed :: "'a Call \<Rightarrow> bool" where
  "timed (Call_PushFor x) = True"
| "timed Call_PopFor = True"
| "timed c = False"

text \<open>One evaluation of a call's critical section: \<open>None\<close> when it goes (back) to sleep.\<close>

fun run_call ::
  "'a Call \<Rightarrow> bool \<Rightarrow> 'a Queue \<Rightarrow> (QueueError \<times> 'a option \<times> 'a Queue \<times> Notify list) option"
where
  "run_call (Call_Push x) b q = (case Queue_Push x q of (e, q', ns) \<Rightarrow> Some (e, None, q', ns))"
| "run_call (Call_PushFor x) b q =
     (case Queue_PushFor b x q of None \<Rightarrow> None | Some (e, q', ns) \<Rightarrow> Some (e, None, q', ns))"
| "run_call Call_Pop b q = Queue_Pop q"
| "run_call Call_PopFor b q = Queue_PopFor b q"
| "run_call (Call_Shutdown m) b q =
     (case Queue_Shutdown m q of (e, q', ns) \<Rightarrow> Some (e, None, q', ns))"

text \<open>
  The system: the queue, every thread's phase, and three histories that no thread reads:
  the items accepted, the items handed out and the items an immediate shutdown threw away.
\<close>

record 'a QueueSys =
  shared :: "'a Queue"
  phase :: "nat \<Rightarrow> 'a Phase"
  accepted :: "'a list"
  delivered :: "'a list"
  discarded :: "'a list"

definition asleep_on :: "CondVar \<Rightarrow> (nat \<Rightarrow> 'a Phase) \<Rightarrow> nat set" where
  "asleep_on cv ph = {t. \<exists>c. ph t = Asleep c \<and> waits_on c = cv}"

definition awake_on :: "CondVar \<Rightarrow> (nat \<Rightarrow> 'a Phase) \<Rightarrow> nat set" where
  "awake_on cv ph = {t. \<exists>c b. ph t = Awake c b \<and> waits_on c = cv}"

fun wake :: "'a Phase \<Rightarrow> bool \<Rightarrow> 'a Phase" where
  "wake (Asleep c) b = Awake c b"
| "wake p b = p"

inductive notify :: "Notify \<Rightarrow> (nat \<Rightarrow> 'a Phase) \<Rightarrow> (nat \<Rightarrow> 'a Phase) \<Rightarrow> bool" where
  one_some: "t \<in> asleep_on cv ph \<Longrightarrow> notify (Notify_one cv) ph (ph(t := wake (ph t) False))"
| one_none: "asleep_on cv ph = {} \<Longrightarrow> notify (Notify_one cv) ph ph"
| all: "notify (Notify_all cv) ph
          (\<lambda>t. if t \<in> asleep_on cv ph then wake (ph t) False else ph t)"

inductive notifies :: "Notify list \<Rightarrow> (nat \<Rightarrow> 'a Phase) \<Rightarrow> (nat \<Rightarrow> 'a Phase) \<Rightarrow> bool" where
  notifies_Nil: "notifies [] ph ph"
| notifies_Cons: "notify n ph ph' \<Longrightarrow> notifies ns ph' ph'' \<Longrightarrow> notifies (n # ns) ph ph''"

text \<open>The histories after a call returned \<open>e\<close> (and \<open>r\<close> in the out-parameter) on queue \<open>q\<close>.\<close>

definition record_call ::
  "'a Call \<Rightarrow> 'a Queue \<Rightarrow> QueueError \<Rightarrow> 'a option \<Rightarrow> 'a QueueSys \<Rightarrow> 'a QueueSys" where
  "record_call c q e r s =
     (if e \<noteq> Queue_SUCCESS then s
      else (case c of
              Call_Push x \<Rightarrow> s\<lparr>accepted := accepted s @ [x]\<rparr>
            | Call_PushFor x \<Rightarrow> s\<lparr>accepted := accepted s @ [x]\<rparr>
            | Call_Shutdown m \<Rightarrow> (if m = IMMEDIATE then s\<lparr>discarded := items q\<rparr> else s)
            | _ \<Rightarrow> (case r of None \<Rightarrow> s | Some x \<Rightarrow> s\<lparr>delivered := delivered s @ [x]\<rparr>)))"

text \<open>
  One step: a thread outside the queue or awake in a call evaluates the critical section and
  returns or (re-)enters the wait set; or a sleeping thread wakes without a notification
  (spuriously, or, in a timed call, because its timeout passed).
\<close>

definition entering :: "'a Phase \<Rightarrow> 'a Call \<Rightarrow> bool \<Rightarrow> bool" where
  "entering p c b \<longleftrightarrow> p = Outside \<and> (b \<longrightarrow> timed c) \<or> p = Awake c b"

inductive queue_step :: "'a QueueSys \<Rightarrow> 'a QueueSys \<Rightarrow> bool" where
  returns: "entering (phase s t) c b \<Longrightarrow> run_call c b (shared s) = Some (e, r, q', ns) \<Longrightarrow>
     notifies ns ((phase s)(t := Outside)) ph' \<Longrightarrow>
     queue_step s ((record_call c (shared s) e r s)\<lparr>shared := q', phase := ph'\<rparr>)"
| blocks: "entering (phase s t) c b \<Longrightarrow> run_call c b (shared s) = None \<Longrightarrow>
     queue_step s (s\<lparr>phase := (phase s)(t := Asleep c)\<rparr>)"
| wakes: "phase s t = Asleep c \<Longrightarrow> (b \<longrightarrow> timed c) \<Longrightarrow>
     queue_step s (s\<lparr>phase := (phase s)(t := Awake c b)\<rparr>)"

definition queue_sys_init :: "'a QueueSys \<Rightarrow> bool" where
  "queue_sys_init s \<longleftrightarrow>
     (\<exists>cap. shared s = Queue_new cap) \<and> phase s = (\<lambda>_. Outside) \<and>
     accepted s = [] \<and> delivered s = [] \<and> discarded s = []"

text \<open>The call a thread is in, and the calls that can block at all.\<close>

fun call_of :: "'a Phase \<Rightarrow> 'a Call option" where
  "call_of Outside = None"
| "call_of (Asleep c) = Some c"
| "call_of (Awake c b) = Some c"

fun blocking :: "'a Call \<Rightarrow> bool" where
  "blocking (Call_Push x) = False"
| "blocking (Call_Shutdown m) = False"
| "blocking c = True"

text \<open>
  Accounting of wake-ups: as long as somebody sleeps on \<open>cv\<close>, at least \<open>n\<close> threads that wait
  for the same predicate are awake. With \<open>n\<close> the number of items (or of free slots) this is
  what \<open>notify_one\<close> per push (or pop) has to maintain.
\<close>

definition covered :: "CondVar \<Rightarrow> nat \<Rightarrow> (nat \<Rightarrow> 'a Phase) \<Rightarrow> bool" where
  "covered cv n ph \<longleftrightarrow> (asleep_on cv ph \<noteq> {} \<longrightarrow> n \<le> card (awake_on cv ph))"

definition phases_ok :: "(nat \<Rightarrow> 'a Phase) \<Rightarrow> bool" where
  "phases_ok ph \<longleftrightarrow>
     finite {t. ph t \<noteq> Outside} \<and> (\<forall>t c. call_of (ph t) = Some c \<longrightarrow> blocking c)"

definition nobody_asleep :: "(nat \<Rightarrow> 'a Phase) \<Rightarrow> bool" where
  "nobody_asleep ph \<longleftrightarrow> (\<forall>cv. asleep_on cv ph = {})"

definition wakeup_inv :: "'a Queue \<Rightarrow> (nat \<Rightarrow> 'a Phase) \<Rightarrow> bool" where
  "wakeup_inv q ph \<longleftrightarrow>
     queue_inv q \<and> phases_ok ph \<and>
     (queue_state q \<noteq> Queue_RUNNING \<longrightarrow> nobody_asleep ph) \<and>
     covered Not_empty (length (items q)) ph \<and>
     covered Not_full (capacity q - length (items q)) ph"

definition history_inv :: "'a QueueSys \<Rightarrow> bool" where
  "history_inv s \<longleftrightarrow>
     accepted s = delivered s @ items (shared s) @ discarded s \<and>
     (discarded s \<noteq> [] \<longrightarrow> queue_state (shared s) = Queue_SHUTDOWN)"

definition queue_sys_inv :: "'a QueueSys \<Rightarrow> bool" where
  "queue_sys_inv s \<longleftrightarrow> wakeup_inv (shared s) (phase s) \<and> history_inv s"

section \<open>The operations keep the queue well formed\<close>

lemma queue_inv_new [simp]: "queue_inv (Queue_new cap)"
  by (simp add: queue_inv_def Queue_new_def)

lemma queue_inv_run_call:
  assumes "queue_inv q" "run_call c b q = Some (e, r, q', ns)"
  shows "queue_inv q'"
  using assms
  by (cases c) (auto simp: queue_op_defs queue_inv_def split: if_splits list.splits)

lemma run_call_capacity:
  assumes "run_call c b q = Some (e, r, q', ns)"
  shows "capacity q' = capacity q"
  using assms by (cases c) (auto simp: queue_op_defs split: if_splits list.splits)

lemma run_call_blocks:
  assumes "run_call c b q = None"
  shows "blocking c \<and> queue_state q = Queue_RUNNING \<and>
    (waits_on c = Not_empty \<longrightarrow> items q = []) \<and>
    (waits_on c = Not_full \<longrightarrow> capacity q \<le> length (items q))"
  using assms by (cases c) (auto simp: queue_op_defs split: if_splits list.splits)

section \<open>Wait sets\<close>

lemma asleep_on_update [simp]:
  "asleep_on cv (ph(t := Outside)) = asleep_on cv ph - {t}"
  "asleep_on cv (ph(t := Awake c b)) = asleep_on cv ph - {t}"
  "asleep_on cv (ph(t := Asleep c)) =
     (if waits_on c = cv then insert t (asleep_on cv ph) else asleep_on cv ph - {t})"
  by (auto simp: asleep_on_def)

lemma awake_on_update [simp]:
  "awake_on cv (ph(t := Outside)) = awake_on cv ph - {t}"
  "awake_on cv (ph(t := Asleep c)) = awake_on cv ph - {t}"
  "awake_on cv (ph(t := Awake c b)) =
     (if waits_on c = cv then insert t (awake_on cv ph) else awake_on cv ph - {t})"
  by (auto simp: awake_on_def)

lemma phases_ok_finite [intro]:
  assumes "phases_ok ph"
  shows "finite (asleep_on cv ph)" "finite (awake_on cv ph)"
  using assms
  by (auto simp: phases_ok_def asleep_on_def awake_on_def elim!: rev_finite_subset)

lemma phases_ok_update:
  assumes "phases_ok ph" "\<And>c. call_of p = Some c \<Longrightarrow> blocking c"
  shows "phases_ok (ph(t := p))"
proof -
  have "{u. (ph(t := p)) u \<noteq> Outside} \<subseteq> insert t {u. ph u \<noteq> Outside}" by auto
  moreover have "finite (insert t {u. ph u \<noteq> Outside})"
    using assms(1) by (simp add: phases_ok_def)
  ultimately have "finite {u. (ph(t := p)) u \<noteq> Outside}" by (rule finite_subset)
  with assms show ?thesis by (auto simp: phases_ok_def)
qed

lemma notify_call_of: "notify n ph ph' \<Longrightarrow> call_of (ph' t) = call_of (ph t)"
  by (induction rule: notify.induct) (auto simp: asleep_on_def)

lemma call_of_None [simp]: "call_of p = None \<longleftrightarrow> p = Outside"
  by (cases p) auto

lemma notify_phases_ok:
  assumes "notify n ph ph'" "phases_ok ph"
  shows "phases_ok ph'"
proof -
  have "{t. ph' t \<noteq> Outside} = {t. ph t \<noteq> Outside}"
    using notify_call_of [OF assms(1)] by (metis call_of_None)
  with assms(2) notify_call_of [OF assms(1)] show ?thesis
    by (simp add: phases_ok_def)
qed

lemma notify_other:
  assumes "notify n ph ph'" "n = Notify_one cv \<or> n = Notify_all cv" "cv' \<noteq> cv"
  shows "asleep_on cv' ph' = asleep_on cv' ph" "awake_on cv' ph' = awake_on cv' ph"
  using assms by (auto elim!: notify.cases simp: asleep_on_def awake_on_def split: if_splits)

lemma notify_asleep_mono: "notify n ph ph' \<Longrightarrow> asleep_on cv ph' \<subseteq> asleep_on cv ph"
  by (induction rule: notify.induct) (auto simp: asleep_on_def split: if_splits)

lemma notify_all_empty: "notify (Notify_all cv) ph ph' \<Longrightarrow> asleep_on cv ph' = {}"
  by (auto elim!: notify.cases simp: asleep_on_def split: if_splits)

section \<open>Accounting of wake-ups\<close>

lemma covered_zero [simp]: "covered cv 0 ph"
  by (simp add: covered_def)

lemma covered_nobody: "nobody_asleep ph \<Longrightarrow> covered cv n ph"
  by (simp add: covered_def nobody_asleep_def)

lemma covered_leave:
  assumes "covered cv n ph" "phases_ok ph"
  shows "covered cv (n - 1) (ph(t := Outside))"
  using assms by (auto simp: covered_def card_Diff_singleton_if)

lemma not_in_wait_sets:
  assumes "\<And>c. call_of (ph t) = Some c \<Longrightarrow> waits_on c \<noteq> cv"
  shows "t \<notin> asleep_on cv ph" "t \<notin> awake_on cv ph"
  using assms by (auto simp: asleep_on_def awake_on_def)

lemma covered_leave_other:
  assumes "covered cv n ph" "\<And>c. call_of (ph t) = Some c \<Longrightarrow> waits_on c \<noteq> cv"
  shows "covered cv n (ph(t := Outside))"
  using assms(1) not_in_wait_sets [OF assms(2)] by (simp add: covered_def)

lemma covered_notify_one:
  assumes "covered cv n ph" "notify (Notify_one cv) ph ph'" "phases_ok ph"
  shows "covered cv (Suc n) ph'"
  using assms(2)
proof (cases rule: notify.cases)
  case (one_some t)
  then obtain c where c: "ph t = Asleep c" "waits_on c = cv" by (auto simp: asleep_on_def)
  have "t \<notin> awake_on cv ph" using c by (simp add: awake_on_def)
  with assms one_some c show ?thesis
    by (auto simp: covered_def card_insert_if phases_ok_finite)
next
  case one_none
  then show ?thesis by (simp add: covered_def)
qed

lemma covered_notify_other:
  assumes "covered cv' n ph" "notify (Notify_one cv) ph ph'" "cv' \<noteq> cv"
  shows "covered cv' n ph'"
  using assms notify_other [OF assms(2)] by (simp add: covered_def)


lemma nobody_asleep_mono:
  assumes "nobody_asleep ph" "notify n ph ph'"
  shows "nobody_asleep ph'"
  using assms notify_asleep_mono [OF assms(2)] by (auto simp: nobody_asleep_def)

lemma notifies_phases_ok: "notifies ns ph ph' \<Longrightarrow> phases_ok ph \<Longrightarrow> phases_ok ph'"
  by (induction rule: notifies.induct) (auto intro: notify_phases_ok)

lemma notifies_nobody: "notifies ns ph ph' \<Longrightarrow> nobody_asleep ph \<Longrightarrow> nobody_asleep ph'"
  by (induction rule: notifies.induct) (auto intro: nobody_asleep_mono)

inductive_cases notifies_NilE [elim!]: "notifies [] ph ph'"
inductive_cases notifies_ConsE [elim!]: "notifies (n # ns) ph ph'"

lemma notifies_all_nobody:
  assumes "notifies [Notify_all Not_empty, Notify_all Not_full] ph ph'"
  shows "nobody_asleep ph'"
proof -
  from assms obtain ph1 where 1: "notify (Notify_all Not_empty) ph ph1"
    and 2: "notify (Notify_all Not_full) ph1 ph'"
    by auto
  have "asleep_on cv ph' = {}" for cv
    using notify_all_empty [OF 1] notify_all_empty [OF 2] notify_asleep_mono [OF 2]
    by (cases cv) auto
  then show ?thesis by (simp add: nobody_asleep_def)
qed

text \<open>A thread inside a call is in a blocking call.\<close>

lemma entering_call:
  assumes "entering (ph t) c b" "phases_ok ph"
  shows "ph t = Outside \<or> (call_of (ph t) = Some c \<and> blocking c)"
  using assms by (auto simp: entering_def phases_ok_def dest: spec [of _ t])

lemma nobody_leave: "nobody_asleep ph \<Longrightarrow> nobody_asleep (ph(t := Outside))"
  by (simp add: nobody_asleep_def)

lemma wakeup_push:
  assumes inv: "wakeup_inv q ph" and run: "queue_state q = Queue_RUNNING"
    and room: "length (items q) < capacity q"
    and cv: "\<And>c. call_of (ph t) = Some c \<Longrightarrow> waits_on c = Not_full"
    and n: "notifies [Notify_one Not_empty] (ph(t := Outside)) ph'"
  shows "wakeup_inv (q\<lparr>items := items q @ [x]\<rparr>) ph'"
proof -
  let ?ph = "ph(t := Outside)"
  from n have n: "notify (Notify_one Not_empty) ?ph ph'" by auto
  from inv have ok: "phases_ok ph" and q: "queue_inv q"
    and e: "covered Not_empty (length (items q)) ph"
    and f: "covered Not_full (capacity q - length (items q)) ph"
    by (auto simp: wakeup_inv_def)
  have ok': "phases_ok ?ph" using ok by (rule phases_ok_update) simp
  have "covered Not_empty (length (items q)) ?ph"
    using e by (rule covered_leave_other) (use cv in auto)
  then have 1: "covered Not_empty (Suc (length (items q))) ph'"
    using n ok' by (rule covered_notify_one)
  have "covered Not_full (capacity q - length (items q) - 1) ?ph"
    using f ok by (rule covered_leave)
  then have 2: "covered Not_full (capacity q - Suc (length (items q))) ph'"
    using n by (auto intro: covered_notify_other)
  show ?thesis
    using 1 2 q run room notify_phases_ok [OF n ok'] by (simp add: wakeup_inv_def queue_inv_def)
qed

lemma wakeup_pop_running:
  assumes inv: "wakeup_inv q ph" and run: "queue_state q = Queue_RUNNING"
    and it: "items q = x # xs"
    and cv: "\<And>c. call_of (ph t) = Some c \<Longrightarrow> waits_on c = Not_empty"
    and n: "notifies [Notify_one Not_full] (ph(t := Outside)) ph'"
  shows "wakeup_inv (q\<lparr>items := xs\<rparr>) ph'"
proof -
  let ?ph = "ph(t := Outside)"
  from n have n: "notify (Notify_one Not_full) ?ph ph'" by auto
  from inv have ok: "phases_ok ph" and q: "queue_inv q"
    and e: "covered Not_empty (length (items q)) ph"
    and f: "covered Not_full (capacity q - length (items q)) ph"
    by (auto simp: wakeup_inv_def)
  have ok': "phases_ok ?ph" using ok by (rule phases_ok_update) simp
  have "covered Not_full (capacity q - length (items q)) ?ph"
    using f by (rule covered_leave_other) (use cv in auto)
  then have "covered Not_full (Suc (capacity q - length (items q))) ph'"
    using n ok' by (rule covered_notify_one)
  moreover have "Suc (capacity q - length (items q)) = capacity q - length xs"
    using q it by (auto simp: queue_inv_def)
  ultimately have 1: "covered Not_full (capacity q - length xs) ph'" by simp
  have "covered Not_empty (length (items q) - 1) ?ph"
    using e ok by (rule covered_leave)
  then have 2: "covered Not_empty (length xs) ph'"
    using n it by (auto intro: covered_notify_other)
  show ?thesis
    using 1 2 q run it notify_phases_ok [OF n ok'] by (simp add: wakeup_inv_def queue_inv_def)
qed

text \<open>Outside the \<open>RUNNING\<close> state nobody sleeps, so every accounting condition is free.\<close>

lemma wakeup_stopped:
  assumes "wakeup_inv q ph" "nobody_asleep (ph(t := Outside))"
    "notifies ns (ph(t := Outside)) ph'" "queue_inv q'"
  shows "wakeup_inv q' ph'"
proof -
  have ok: "phases_ok (ph(t := Outside))"
    using assms(1) by (auto simp: wakeup_inv_def intro: phases_ok_update)
  show ?thesis
    using assms notifies_phases_ok [OF assms(3) ok] notifies_nobody [OF assms(3,2)]
    by (simp add: wakeup_inv_def covered_nobody)
qed

lemma wakeup_shutdown:
  assumes "wakeup_inv q ph" "queue_inv q'"
    "notifies [Notify_all Not_empty, Notify_all Not_full] (ph(t := Outside)) ph'"
  shows "wakeup_inv q' ph'"
proof -
  have ok: "phases_ok (ph(t := Outside))"
    using assms(1) by (auto simp: wakeup_inv_def intro: phases_ok_update)
  show ?thesis
    using assms notifies_phases_ok [OF assms(3) ok] notifies_all_nobody [OF assms(3)]
    by (simp add: wakeup_inv_def covered_nobody)
qed

text \<open>A call that returns without touching the queue: nothing is notified.\<close>

lemma wakeup_unchanged:
  assumes inv: "wakeup_inv q ph"
    and e: "call_of (ph t) = None \<or> items q = [] \<or> queue_state q \<noteq> Queue_RUNNING \<or>
      (\<forall>c. call_of (ph t) = Some c \<longrightarrow> waits_on c \<noteq> Not_empty)"
    and f: "call_of (ph t) = None \<or> capacity q \<le> length (items q) \<or>
      queue_state q \<noteq> Queue_RUNNING \<or>
      (\<forall>c. call_of (ph t) = Some c \<longrightarrow> waits_on c \<noteq> Not_full)"
  shows "wakeup_inv q (ph(t := Outside))"
proof -
  have st: "queue_state q \<noteq> Queue_RUNNING \<Longrightarrow> nobody_asleep (ph(t := Outside))"
    using inv by (auto simp: wakeup_inv_def intro: nobody_leave)
  have "covered Not_empty (length (items q)) (ph(t := Outside))"
    using e inv st by (auto simp: wakeup_inv_def intro: covered_nobody covered_leave_other)
  moreover have "covered Not_full (capacity q - length (items q)) (ph(t := Outside))"
    using f inv st by (auto simp: wakeup_inv_def intro: covered_nobody covered_leave_other)
  ultimately show ?thesis
    using inv st by (auto simp: wakeup_inv_def intro: phases_ok_update)
qed


lemma wakeup_returns_push:
  assumes inv: "wakeup_inv q ph" and ent: "entering (ph t) c b"
    and c: "c = Call_Push x \<or> c = Call_PushFor x"
    and run: "run_call c b q = Some (e, r, q', ns)"
    and n: "notifies ns (ph(t := Outside)) ph'"
  shows "wakeup_inv q' ph'"
proof -
  have cv: "\<And>c'. call_of (ph t) = Some c' \<Longrightarrow> waits_on c' = Not_full"
    using entering_call [where ph = ph and t = t, OF ent] inv c by (auto simp: wakeup_inv_def)
  consider
      (ok) "queue_state q = Queue_RUNNING" "length (items q) < capacity q"
        "q' = q\<lparr>items := items q @ [x]\<rparr>" "ns = [Notify_one Not_empty]"
    | (none) "q' = q" "ns = []"
        "queue_state q \<noteq> Queue_RUNNING \<or> capacity q \<le> length (items q)"
    using run c by (auto simp: queue_op_defs split: if_splits)
  then show ?thesis
  proof cases
    case ok
    with wakeup_push [OF inv ok(1,2) cv] n show ?thesis by auto
  next
    case none
    with n have "ph' = ph(t := Outside)" by auto
    with none cv show ?thesis by (auto intro!: wakeup_unchanged [OF inv])
  qed
qed

lemma wakeup_returns_pop:
  assumes inv: "wakeup_inv q ph" and ent: "entering (ph t) c b"
    and c: "c = Call_Pop \<or> c = Call_PopFor"
    and run: "run_call c b q = Some (e, r, q', ns)"
    and n: "notifies ns (ph(t := Outside)) ph'"
  shows "wakeup_inv q' ph'"
proof -
  have cv: "\<And>c'. call_of (ph t) = Some c' \<Longrightarrow> waits_on c' = Not_empty"
    using entering_call [where ph = ph and t = t, OF ent] inv c by (auto simp: wakeup_inv_def)
  have q': "queue_inv q'" using inv queue_inv_run_call [OF _ run] by (simp add: wakeup_inv_def)
  consider
      (stopped) "queue_state q \<noteq> Queue_RUNNING"
    | (take) y ys where "queue_state q = Queue_RUNNING" "items q = y # ys"
        "q' = q\<lparr>items := ys\<rparr>" "ns = [Notify_one Not_full]"
    | (timeout) "items q = []" "q' = q" "ns = []"
    using run c
    by (cases "queue_state q = Queue_RUNNING"; cases "items q")
      (auto simp: queue_op_defs split: if_splits)
  then show ?thesis
  proof cases
    case stopped
    with inv have "nobody_asleep (ph(t := Outside))"
      by (auto simp: wakeup_inv_def intro: nobody_leave)
    then show ?thesis using inv n q' by (blast intro: wakeup_stopped)
  next
    case take
    with wakeup_pop_running [OF inv take(1,2) cv] n show ?thesis by auto
  next
    case timeout
    with n have "ph' = ph(t := Outside)" by auto
    with timeout cv show ?thesis by (auto intro!: wakeup_unchanged [OF inv])
  qed
qed

lemma wakeup_returns_shutdown:
  assumes inv: "wakeup_inv q ph" and ent: "entering (ph t) (Call_Shutdown m) b"
    and run: "run_call (Call_Shutdown m) b q = Some (e, r, q', ns)"
    and n: "notifies ns (ph(t := Outside)) ph'"
  shows "wakeup_inv q' ph'"
proof -
  have out: "call_of (ph t) = None"
    using entering_call [where ph = ph and t = t, OF ent] inv by (auto simp: wakeup_inv_def)
  have q': "queue_inv q'" using inv queue_inv_run_call [OF _ run] by (simp add: wakeup_inv_def)
  consider "q' = q" "ns = []" | "ns = [Notify_all Not_empty, Notify_all Not_full]"
    using run by (auto simp: queue_op_defs split: if_splits)
  then show ?thesis
  proof cases
    case 1
    with n have "ph' = ph(t := Outside)" by auto
    with 1 out show ?thesis by (auto intro!: wakeup_unchanged [OF inv])
  next
    case 2
    with n show ?thesis using wakeup_shutdown [OF inv q'] by simp
  qed
qed

lemma wakeup_blocks:
  assumes inv: "wakeup_inv q ph" and ent: "entering (ph t) c b"
    and run: "run_call c b q = None"
  shows "wakeup_inv q (ph(t := Asleep c))"
proof -
  note blk = run_call_blocks [OF run]
  from inv have ok: "phases_ok ph" by (simp add: wakeup_inv_def)
  have same: "cv \<noteq> waits_on c \<Longrightarrow> covered cv n (ph(t := Asleep c)) = covered cv n ph" for cv n
    using entering_call [where ph = ph and t = t, OF ent ok] not_in_wait_sets [of ph t cv]
    by (auto simp: covered_def)
  have "covered Not_empty (length (items q)) (ph(t := Asleep c))"
    using inv blk same [of Not_empty] by (cases "waits_on c") (auto simp: wakeup_inv_def)
  moreover have "covered Not_full (capacity q - length (items q)) (ph(t := Asleep c))"
    using inv blk same [of Not_full] by (cases "waits_on c") (auto simp: wakeup_inv_def)
  moreover have "phases_ok (ph(t := Asleep c))"
    using ok blk by (auto intro: phases_ok_update)
  ultimately show ?thesis using inv blk by (simp add: wakeup_inv_def)
qed

lemma covered_wakes:
  assumes "covered cv n ph" "ph t = Asleep c" "phases_ok ph"
  shows "covered cv n (ph(t := Awake c b))"
proof (cases "waits_on c = cv")
  case True
  then show ?thesis
    using assms phases_ok_finite [OF assms(3)] by (auto simp: covered_def card_insert_if)
next
  case False
  then have "t \<notin> awake_on cv ph" using assms(2) by (intro not_in_wait_sets(2)) auto
  with False assms(1) show ?thesis by (auto simp: covered_def)
qed

lemma wakeup_wakes:
  assumes inv: "wakeup_inv q ph" and "ph t = Asleep c"
  shows "wakeup_inv q (ph(t := Awake c b))"
proof -
  from inv have ok: "phases_ok ph" by (simp add: wakeup_inv_def)
  with assms(2) have "blocking c" by (auto simp: phases_ok_def dest: spec [of _ t])
  with ok have "phases_ok (ph(t := Awake c b))" by (auto intro: phases_ok_update)
  moreover have "nobody_asleep ph \<Longrightarrow> nobody_asleep (ph(t := Awake c b))"
    by (simp add: nobody_asleep_def)
  ultimately show ?thesis
    using inv covered_wakes [OF _ assms(2) ok] by (simp add: wakeup_inv_def)
qed

lemma wakeup_returns:
  assumes "wakeup_inv q ph" "entering (ph t) c b" "run_call c b q = Some (e, r, q', ns)"
    "notifies ns (ph(t := Outside)) ph'"
  shows "wakeup_inv q' ph'"
  using assms
  by (cases c) (blast intro: wakeup_returns_push wakeup_returns_pop wakeup_returns_shutdown)+

section \<open>Histories\<close>

lemma history_returns:
  assumes "history_inv s" "queue_inv (shared s)"
    and "run_call c b (shared s) = Some (e, r, q', ns)"
  shows "history_inv ((record_call c (shared s) e r s)\<lparr>shared := q', phase := ph'\<rparr>)"
  using assms
  by (cases c)
    (auto simp: queue_op_defs history_inv_def record_call_def queue_inv_def
      split: if_splits list.splits)

lemma record_call_frame [simp]:
  "shared (record_call c q e r s) = shared s" "phase (record_call c q e r s) = phase s"
  by (auto simp: record_call_def split: Call.splits option.splits)

lemma queue_sys_inv_step: "queue_step s s' \<Longrightarrow> queue_sys_inv s \<Longrightarrow> queue_sys_inv s'"
proof (induction rule: queue_step.induct)
  case (returns s t c b e r q' ns ph')
  then have inv: "wakeup_inv (shared s) (phase s)" "history_inv s" "queue_inv (shared s)"
    by (auto simp: queue_sys_inv_def wakeup_inv_def)
  show ?case
    using wakeup_returns [OF inv(1) returns(1-3)] history_returns [OF inv(2,3) returns(2)]
    by (simp add: queue_sys_inv_def)
next
  case (blocks s t c b)
  then show ?case
    using wakeup_blocks [where ph = "phase s" and t = t, OF _ blocks(1,2)] by (simp add: queue_sys_inv_def history_inv_def)
next
  case (wakes s t c b)
  then show ?case
    using wakeup_wakes [where ph = "phase s" and t = t, OF _ wakes(1)] by (simp add: queue_sys_inv_def history_inv_def)
qed

lemma wakeup_inv_new: "wakeup_inv (Queue_new cap) (\<lambda>_. Outside)"
  by (simp add: wakeup_inv_def phases_ok_def nobody_asleep_def asleep_on_def covered_def)

lemma items_new [simp]: "items (Queue_new cap) = []"
  by (simp add: Queue_new_def)

lemma queue_sys_inv_init: "queue_sys_init s \<Longrightarrow> queue_sys_inv s"
  using wakeup_inv_new by (auto simp: queue_sys_init_def queue_sys_inv_def history_inv_def)

interpretation queue_sys: inductive_invariant queue_sys_init queue_step queue_sys_inv
  by unfold_locales (rule queue_sys_inv_init, assumption, rule queue_sys_inv_step)


section \<open>Draining\<close>

text \<open>
  A consumer that pops \<open>n\<close> times: the items it gets, or \<open>None\<close> as soon as a pop would block
  or reports anything but success.
\<close>

fun pop_many :: "nat \<Rightarrow> 'a Queue \<Rightarrow> ('a list \<times> 'a Queue) option" where
  "pop_many 0 q = Some ([], q)"
| "pop_many (Suc n) q =
     (case Queue_Pop q of
        Some (Queue_SUCCESS, Some x, q', ns) \<Rightarrow>
          (case pop_many n q' of None \<Rightarrow> None | Some (xs, q'') \<Rightarrow> Some (x # xs, q''))
      | _ \<Rightarrow> None)"

lemma pop_many_draining:
  assumes "queue_state q = Queue_DRAINING" "items q \<noteq> []"
  shows "pop_many (length (items q)) q =
    Some (items q, q\<lparr>items := [], queue_state := Queue_SHUTDOWN\<rparr>)"
  using assms
proof (induction "items q" arbitrary: q)
  case Nil
  then show ?case by simp
next
  case (Cons x xs)
  show ?case
  proof (cases "xs = []")
    case True
    with Cons(2,3) show ?thesis by (simp add: queue_op_defs flip: Cons(2))
  next
    case False
    have "pop_many (length xs) (q\<lparr>items := xs\<rparr>) =
      Some (xs, q\<lparr>items := [], queue_state := Queue_SHUTDOWN\<rparr>)"
      using Cons(1) [of "q\<lparr>items := xs\<rparr>"] Cons(3) False by simp
    with Cons(2,3) False show ?thesis by (simp add: queue_op_defs flip: Cons(2))
  qed
qed


section \<open>Properties\<close>

definition available :: "CondVar \<Rightarrow> 'a Queue \<Rightarrow> nat" where
  "available cv q = (case cv of Not_empty \<Rightarrow> length (items q)
     | Not_full \<Rightarrow> capacity q - length (items q))"

text \<open>
  A concrete run, used by the witnesses: threads 0 and 1 call \<open>Pop\<close> on an empty queue of
  capacity 2 and go to sleep, thread 2 pushes the item 7 and wakes thread 0.
\<close>

definition queue_example_start :: "nat QueueSys" where
  "queue_example_start = \<lparr>shared = Queue_new 2, phase = (\<lambda>_. Outside), accepted = [],
     delivered = [], discarded = []\<rparr>"

definition queue_example :: "nat QueueSys" where
  "queue_example = \<lparr>shared = (Queue_new 2)\<lparr>items := [7]\<rparr>,
     phase = (\<lambda>_. Outside)(0 := Awake Call_Pop False, 1 := Asleep Call_Pop),
     accepted = [7], delivered = [], discarded = []\<rparr>"

lemma queue_example_reaches: "reaches queue_sys_init queue_step queue_example"
proof -
  let ?s0 = "queue_example_start"
  let ?s1 = "?s0\<lparr>phase := (phase ?s0)(0 := Asleep Call_Pop)\<rparr>"
  let ?s2 = "?s1\<lparr>phase := (phase ?s1)(1 := Asleep Call_Pop)\<rparr>"
  have 0: "reaches queue_sys_init queue_step ?s0"
    by (rule reaches_init) (auto simp: queue_sys_init_def queue_example_start_def)
  have "queue_step ?s0 ?s1"
    by (rule queue_step.blocks [where b = False])
      (auto simp: entering_def queue_example_start_def queue_op_defs Queue_new_def)
  with 0 have 1: "reaches queue_sys_init queue_step ?s1" by (rule reaches_step)
  have "queue_step ?s1 ?s2"
    by (rule queue_step.blocks [where b = False])
      (auto simp: entering_def queue_example_start_def queue_op_defs Queue_new_def)
  with 1 have 2: "reaches queue_sys_init queue_step ?s2" by (rule reaches_step)
  have ent: "entering (phase ?s2 2) (Call_Push 7) False"
    by (simp add: entering_def queue_example_start_def)
  have run: "run_call (Call_Push 7) False (shared ?s2) =
      Some (Queue_SUCCESS, None, (Queue_new 2)\<lparr>items := [7]\<rparr>, [Notify_one Not_empty])"
    by (simp add: queue_example_start_def queue_op_defs Queue_new_def)
  have "notify (Notify_one Not_empty) ((phase ?s2)(2 := Outside))
      (((phase ?s2)(2 := Outside))(0 := wake (((phase ?s2)(2 := Outside)) 0) False))"
    by (rule notify.one_some) (simp add: asleep_on_def queue_example_start_def)
  moreover have "((phase ?s2)(2 := Outside))(0 := wake (((phase ?s2)(2 := Outside)) 0) False) =
      phase queue_example"
    by (auto simp: queue_example_start_def queue_example_def fun_eq_iff)
  ultimately have n: "notifies [Notify_one Not_empty] ((phase ?s2)(2 := Outside)) (phase queue_example)"
    by (auto intro: notifies.intros)
  have "queue_step ?s2 queue_example"
    using queue_step.returns [OF ent run n]
    by (simp add: queue_example_start_def queue_example_def record_call_def)
  with 2 show ?thesis by (rule reaches_step)
qed

lemma queue_example_sets:
  "asleep_on Not_empty (phase queue_example) = {1}" "awake_on Not_empty (phase queue_example) = {0}"
  by (auto simp: queue_example_def asleep_on_def awake_on_def)

text \<open>C2: No wake-up is lost. In every interleaving of \<open>Push\<close>, \<open>PushFor\<close>, \<open>Pop\<close>, \<open>PopFor\<close> and
  \<open>Shutdown\<close> calls by any number of threads, with spurious wake-ups and timeouts, a thread
  sleeps on a condition variable only while the queue is running, and then at least as many
  threads of its kind are already awake as there are items (or free slots) to take: one
  \<open>notify_one\<close> per push and per pop and \<open>notify_all\<close> at shutdown are enough.\<close>

theorem queue_no_lost_wakeup:
  assumes "reaches queue_sys_init queue_step s" "t \<in> asleep_on cv (phase s)"
  shows "queue_state (shared s) = Queue_RUNNING \<and>
    available cv (shared s) \<le> card (awake_on cv (phase s))"
proof -
  have "wakeup_inv (shared s) (phase s)"
    using queue_sys.reaches_inv [OF assms(1)] by (simp add: queue_sys_inv_def)
  with assms(2) show ?thesis
    by (auto simp: wakeup_inv_def nobody_asleep_def covered_def available_def
        split: CondVar.splits)
qed

theorem queue_no_lost_wakeup_witness:
  "queue_state (shared queue_example) = Queue_RUNNING \<and>
    available Not_empty (shared queue_example) \<le> card (awake_on Not_empty (phase queue_example)) \<and>
    available Not_empty (shared queue_example) = 1"
proof -
  have "1 \<in> asleep_on Not_empty (phase queue_example)" by (simp add: queue_example_sets)
  from queue_no_lost_wakeup [OF queue_example_reaches this]
  show ?thesis by (simp add: available_def) (simp add: queue_example_def)
qed

lemma notifies_Outside: "notifies ns ph ph' \<Longrightarrow> ph u = Outside \<Longrightarrow> ph' u = Outside"
proof (induction rule: notifies.induct)
  case (notifies_Cons n ph ph' ns ph'')
  then show ?case using notify_call_of [of n ph ph' u] by simp
qed simp

lemma notify_total: "\<exists>ph'. notify n ph ph'"
proof (cases n)
  case (Notify_one cv)
  then show ?thesis by (cases "asleep_on cv ph = {}") (auto intro: notify.intros)
qed (auto intro: notify.intros)

lemma notifies_total: "\<exists>ph'. notifies ns ph ph'"
proof (induction ns arbitrary: ph)
  case (Cons n ns)
  obtain ph1 where "notify n ph ph1" using notify_total by blast
  with Cons show ?case by (blast intro: notifies.intros)
qed (auto intro: notifies.intros)

lemma awake_consumer_delivers:
  assumes u: "phase s u = Awake c b" "c = Call_Pop \<or> c = Call_PopFor"
    and it: "items (shared s) = x # xs"
  shows "\<exists>s'. queue_step s s' \<and> phase s' u = Outside \<and> delivered s' = delivered s @ [x]"
proof -
  have "\<exists>q' ns. run_call c b (shared s) = Some (Queue_SUCCESS, Some x, q', ns)"
    using u(2) it by (auto simp: queue_op_defs)
  then obtain q' ns where run: "run_call c b (shared s) = Some (Queue_SUCCESS, Some x, q', ns)"
    by blast
  obtain ph' where n: "notifies ns ((phase s)(u := Outside)) ph'" using notifies_total by blast
  have "entering (phase s u) c b" using u(1) by (simp add: entering_def)
  from queue_step.returns [OF this run n] have
    "queue_step s ((record_call c (shared s) Queue_SUCCESS (Some x) s)\<lparr>shared := q', phase := ph'\<rparr>)" .
  moreover have "ph' u = Outside" using notifies_Outside [OF n] by simp
  ultimately show ?thesis using u(2) by (force simp: record_call_def)
qed

lemma awake_consumer_call:
  assumes "phases_ok ph" "u \<in> awake_on Not_empty ph"
  shows "\<exists>c b. ph u = Awake c b \<and> (c = Call_Pop \<or> c = Call_PopFor)"
proof -
  from assms(2) obtain c b where u: "ph u = Awake c b" "waits_on c = Not_empty"
    by (auto simp: awake_on_def)
  with assms(1) have "blocking c" by (auto simp: phases_ok_def dest: spec [of _ u])
  with u show ?thesis by (cases c) auto
qed

text \<open>No item is stranded. Whenever a consumer sleeps although the queue holds an item,
  some other consumer inside \<open>Pop\<close> or \<open>PopFor\<close> is awake, and its next step returns the oldest
  item to its caller.\<close>

theorem queue_item_not_stranded:
  assumes "reaches queue_sys_init queue_step s" "asleep_on Not_empty (phase s) \<noteq> {}"
    "items (shared s) = x # xs"
  shows "\<exists>u s'. u \<in> awake_on Not_empty (phase s) \<and> queue_step s s' \<and>
    phase s' u = Outside \<and> delivered s' = delivered s @ [x]"
proof -
  have inv: "wakeup_inv (shared s) (phase s)"
    using queue_sys.reaches_inv [OF assms(1)] by (simp add: queue_sys_inv_def)
  with assms(2,3) have "0 < card (awake_on Not_empty (phase s))"
    by (auto simp: wakeup_inv_def covered_def)
  then obtain u where u: "u \<in> awake_on Not_empty (phase s)" by (auto simp: card_gt_0_iff)
  have "phases_ok (phase s)" using inv by (simp add: wakeup_inv_def)
  from awake_consumer_call [OF this u] obtain c b
    where "phase s u = Awake c b" "c = Call_Pop \<or> c = Call_PopFor" by blast
  from awake_consumer_delivers [OF this assms(3)] u show ?thesis by blast
qed

theorem queue_item_not_stranded_witness:
  "\<exists>u s'. u \<in> awake_on Not_empty (phase queue_example) \<and> queue_step queue_example s' \<and>
    phase s' u = Outside \<and> delivered s' = [7]"
  using queue_item_not_stranded [OF queue_example_reaches, of 7 "[]"]
  by (simp add: queue_example_sets) (simp add: queue_example_def)

text \<open>First in, first out, and nothing lost or duplicated. In every reachable state the
  accepted items are exactly the delivered ones, followed by the ones still queued, followed
  by the ones an immediate shutdown discarded, all in the order of acceptance; nothing is
  discarded unless the queue is shut down, and the queue never exceeds its capacity.\<close>

theorem queue_fifo:
  assumes "reaches queue_sys_init queue_step s"
  shows "accepted s = delivered s @ items (shared s) @ discarded s \<and>
    (discarded s \<noteq> [] \<longrightarrow> Queue_IsShutdown (shared s)) \<and>
    Queue_Size (shared s) \<le> Queue_Capacity (shared s)"
  using queue_sys.reaches_inv [OF assms]
  by (simp add: queue_sys_inv_def history_inv_def wakeup_inv_def queue_inv_def
      Queue_IsShutdown_def Queue_Size_def Queue_Capacity_def)

theorem queue_fifo_witness:
  "accepted queue_example = delivered queue_example @ items (shared queue_example) @
      discarded queue_example \<and> accepted queue_example = [7]"
  using queue_fifo [OF queue_example_reaches] by (simp add: queue_example_def)

text \<open>A draining shutdown of a running queue refuses every further \<open>Push\<close>, hands out exactly
  the queued items in order to whoever pops, never blocking, and ends shut down with every
  later \<open>Pop\<close> reporting \<open>QUEUE_SHUTDOWN\<close>.\<close>

theorem queue_drain_complete:
  assumes "queue_state q = Queue_RUNNING"
  shows "\<exists>q1 q2. fst (snd (Queue_Shutdown DRAIN q)) = q1 \<and>
    fst (Queue_Push y q1) = QUEUE_SHUTDOWN \<and>
    pop_many (length (items q)) q1 = Some (items q, q2) \<and>
    Queue_IsShutdown q2 \<and> Queue_Pop q2 = Some (QUEUE_SHUTDOWN, None, q2, [])"
proof (cases "items q = []")
  case True
  with assms show ?thesis by (auto simp: queue_op_defs Queue_IsShutdown_def)
next
  case False
  then show ?thesis
    using assms pop_many_draining [of "q\<lparr>queue_state := Queue_DRAINING\<rparr>"]
    by (simp add: Queue_Shutdown_def Queue_Push_def Queue_Pop_def pop_ready_def pop_body_def
        Queue_IsShutdown_def)
qed

theorem queue_drain_complete_witness:
  "\<exists>q1 q2. fst (snd (Queue_Shutdown DRAIN ((Queue_new 3)\<lparr>items := [4, 5 :: nat]\<rparr>))) = q1 \<and>
    fst (Queue_Push 6 q1) = QUEUE_SHUTDOWN \<and> pop_many 2 q1 = Some ([4, 5], q2) \<and>
    Queue_IsShutdown q2 \<and> Queue_Pop q2 = Some (QUEUE_SHUTDOWN, None, q2, [])"
  using queue_drain_complete [of "(Queue_new 3)\<lparr>items := [4, 5 :: nat]\<rparr>" 6]
  by (simp add: Queue_new_def numeral_2_eq_2)

end
