(* ===== verification/Queue_Spec.thy ===== *)
theory Queue_Spec
  imports Bounded_Queue
begin

text \<open>
  What \<open>Queue<T>\<close> promises its users, as an abstract bounded buffer with atomic operations, and
  the proof that the queue of \<open>Bounded_Queue\<close>, with its mutex, its wait sets, spurious wake-ups and
  timeouts, is linearizable: the calls, in the order in which they leave their critical
  sections (each between its invocation and its return), with the results their callers see,
  are a run of the buffer.
\<close>

section \<open>The abstract buffer\<close>

text \<open>A buffer accepts items, or only hands out the rest (at least one), or is closed and empty.\<close>

datatype 'a Buffer = Open "'a list" | Closing 'a "'a list" | Closed

definition buffer_new :: "nat \<Rightarrow> 'a Buffer" where
  "buffer_new cap = (if cap = 0 then Closed else Open [])"

fun closing :: "'a list \<Rightarrow> 'a Buffer" where
  "closing [] = Closed"
| "closing (x # xs) = Closing x xs"

fun contents :: "'a Buffer \<Rightarrow> 'a list" where
  "contents (Open xs) = xs"
| "contents (Closing x xs) = x # xs"
| "contents Closed = []"

inductive buffer_op ::
  "nat \<Rightarrow> 'a Call \<Rightarrow> 'a Buffer \<Rightarrow> QueueError \<Rightarrow> 'a option \<Rightarrow> 'a Buffer \<Rightarrow> bool" for cap where
  put: "c \<in> {Call_Push x, Call_PushFor x} \<Longrightarrow> length xs < cap \<Longrightarrow>
    buffer_op cap c (Open xs) Queue_SUCCESS None (Open (xs @ [x]))"
| put_full: "length xs = cap \<Longrightarrow> buffer_op cap (Call_Push x) (Open xs) QUEUE_FULL None (Open xs)"
| put_timeout: "length xs = cap \<Longrightarrow> buffer_op cap (Call_PushFor x) (Open xs) QUEUE_TIMEOUT None (Open xs)"
| put_late: "c \<in> {Call_Push x, Call_PushFor x} \<Longrightarrow> (\<forall>xs. a \<noteq> Open xs) \<Longrightarrow>
    buffer_op cap c a QUEUE_SHUTDOWN None a"
| take: "c \<in> {Call_Pop, Call_PopFor} \<Longrightarrow> buffer_op cap c (Open (x # xs)) Queue_SUCCESS (Some x) (Open xs)"
| take_rest: "c \<in> {Call_Pop, Call_PopFor} \<Longrightarrow>
    buffer_op cap c (Closing x xs) Queue_SUCCESS (Some x) (closing xs)"
| take_timeout: "buffer_op cap Call_PopFor (Open []) QUEUE_TIMEOUT None (Open [])"
| take_late: "c \<in> {Call_Pop, Call_PopFor} \<Longrightarrow> buffer_op cap c Closed QUEUE_SHUTDOWN None Closed"
| close_now: "a \<noteq> Closed \<Longrightarrow> buffer_op cap (Call_Shutdown IMMEDIATE) a Queue_SUCCESS None Closed"
| close_drain: "a \<noteq> Closed \<Longrightarrow> buffer_op cap (Call_Shutdown DRAIN) a Queue_SUCCESS None (closing (contents a))"
| close_again: "buffer_op cap (Call_Shutdown m) Closed QUEUE_SHUTDOWN None Closed"

type_synonym 'a Completed = "'a Call \<times> QueueError \<times> 'a option"

inductive buffer_run :: "nat \<Rightarrow> 'a Completed list \<Rightarrow> 'a Buffer \<Rightarrow> bool" for cap where
  run_Nil: "buffer_run cap [] (buffer_new cap)"
| run_snoc: "buffer_run cap tr a \<Longrightarrow> buffer_op cap c a e r a' \<Longrightarrow> buffer_run cap (tr @ [(c, e, r)]) a'"

section \<open>The queue\<close>

text \<open>Runs of the threads over a queue, with the calls that have returned and their results.\<close>

inductive queue_trace :: "'a QueueSys \<Rightarrow> 'a Completed list \<Rightarrow> 'a QueueSys \<Rightarrow> bool" for s0 where
  trace_Nil: "queue_trace s0 [] s0"
| trace_returns: "queue_trace s0 tr s \<Longrightarrow> entering (phase s t) c b \<Longrightarrow>
    run_call c b (shared s) = Some (e, r, q', ns) \<Longrightarrow> notifies ns ((phase s)(t := Outside)) ph' \<Longrightarrow>
    queue_trace s0 (tr @ [(c, e, r)]) ((record_call c (shared s) e r s)\<lparr>shared := q', phase := ph'\<rparr>)"
| trace_blocks: "queue_trace s0 tr s \<Longrightarrow> entering (phase s t) c b \<Longrightarrow> run_call c b (shared s) = None \<Longrightarrow>
    queue_trace s0 tr (s\<lparr>phase := (phase s)(t := Asleep c)\<rparr>)"
| trace_wakes: "queue_trace s0 tr s \<Longrightarrow> phase s t = Asleep c \<Longrightarrow> (b \<longrightarrow> timed c) \<Longrightarrow>
    queue_trace s0 tr (s\<lparr>phase := (phase s)(t := Awake c b)\<rparr>)"

text \<open>Traces and steps are the same runs.\<close>

lemma trace_steps: "queue_trace s0 tr s \<Longrightarrow> queue_step\<^sup>*\<^sup>* s0 s"
  by (induction rule: queue_trace.induct) (auto intro: rtranclp.rtrancl_into_rtrancl queue_step.intros)

lemma steps_trace: "queue_step\<^sup>*\<^sup>* s0 s \<Longrightarrow> \<exists>tr. queue_trace s0 tr s"
proof (induction rule: rtranclp_induct)
  case (step s s')
  then show ?case by (auto elim!: queue_step.cases intro: queue_trace.intros)
qed (blast intro: trace_Nil)

text \<open>The buffer a queue stands for.\<close>

definition buffer_of :: "'a Queue \<Rightarrow> 'a Buffer" where
  "buffer_of q = (case queue_state q of Queue_RUNNING \<Rightarrow> Open (items q)
     | Queue_DRAINING \<Rightarrow> closing (items q) | Queue_SHUTDOWN \<Rightarrow> Closed)"

lemma buffer_of_new [simp]: "buffer_of (Queue_new cap) = buffer_new cap"
  by (simp add: buffer_of_def Queue_new_def buffer_new_def)

inductive_simps buffer_call_simps:
  "buffer_op cap (Call_Push x) a e r a'" "buffer_op cap (Call_PushFor x) a e r a'"
  "buffer_op cap Call_Pop a e r a'" "buffer_op cap Call_PopFor a e r a'" "buffer_op cap (Call_Shutdown m) a e r a'"

lemma closing_neq [simp]: "closing xs \<noteq> Open ys" "closing xs = Closed \<longleftrightarrow> xs = []" "contents (closing xs) = xs"
  by (cases xs; simp)+

lemma run_call_refines:
  assumes "queue_inv q" "run_call c b q = Some (e, r, q', ns)"
  shows "buffer_op (capacity q) c (buffer_of q) e r (buffer_of q')"
proof (cases c)
  case (Call_Shutdown m)
  then show ?thesis using assms
    by (cases m) (auto simp: queue_op_defs buffer_call_simps buffer_of_def queue_inv_def
        split: if_splits list.splits QueueState.splits)
qed (use assms in \<open>auto simp: queue_op_defs buffer_call_simps buffer_of_def queue_inv_def
    split: if_splits list.splits QueueState.splits\<close>)

lemma trace_inv:
  assumes "queue_trace s0 tr s" "queue_sys_init s0"
  shows "queue_sys_inv s"
  using queue_sys.steps_inv [OF trace_steps [OF assms(1)] queue_sys_inv_init [OF assms(2)]] .

lemma trace_refines:
  assumes "queue_trace s0 tr s" "queue_sys_init s0" "shared s0 = Queue_new cap"
  shows "capacity (shared s) = cap \<and> buffer_run cap tr (buffer_of (shared s))"
  using assms(1)
proof (induction rule: queue_trace.induct)
  case trace_Nil
  then show ?case using assms(3) by (simp add: run_Nil) (simp add: Queue_new_def)
next
  case (trace_returns tr s t c b e r q' ns ph')
  have "queue_inv (shared s)"
    using trace_inv [OF trace_returns(1) assms(2)] by (simp add: queue_sys_inv_def wakeup_inv_def)
  from run_call_refines [OF this trace_returns(3)] trace_returns(5) run_call_capacity [OF trace_returns(3)]
  show ?case by (auto intro: run_snoc)
qed simp_all

section \<open>Properties\<close>

text \<open>C3: The queue is linearizable with respect to the abstract bounded buffer: whatever the threads,
  the scheduler, the timeouts and the spurious wake-ups do, the calls that have returned, in the
  order of their critical sections and with the results their callers got, are a run of the
  buffer from its initial state, which ends in the buffer the queue stands for; and every run of
  the threads is such a sequence of calls.\<close>

theorem queue_linearizable:
  assumes "queue_sys_init s0" "shared s0 = Queue_new cap" "queue_step\<^sup>*\<^sup>* s0 s"
  shows "(\<exists>tr. queue_trace s0 tr s) \<and> (\<forall>tr. queue_trace s0 tr s \<longrightarrow> buffer_run cap tr (buffer_of (shared s))) \<and>
    contents (buffer_of (shared s)) = items (shared s)"
proof -
  have "queue_inv (shared s)"
    using queue_sys.steps_inv [OF assms(3) queue_sys_inv_init [OF assms(1)]]
    by (simp add: queue_sys_inv_def wakeup_inv_def)
  then have "contents (buffer_of (shared s)) = items (shared s)"
    by (auto simp: buffer_of_def queue_inv_def split: QueueState.splits)
  with steps_trace [OF assms(3)] trace_refines [OF _ assms(1,2)] show ?thesis by blast
qed

lemma queue_example_trace:
  "\<exists>s. queue_trace queue_example_start [(Call_Push 7, Queue_SUCCESS, None)] s \<and> shared s = (Queue_new 2)\<lparr>items := [7]\<rparr>"
proof -
  have e: "entering (phase queue_example_start 0) (Call_Push 7) False"
    "run_call (Call_Push 7) False (shared queue_example_start) =
      Some (Queue_SUCCESS, None, (Queue_new 2)\<lparr>items := [7]\<rparr>, [Notify_one Not_empty])"
    by (simp_all add: entering_def queue_example_start_def queue_op_defs Queue_new_def)
  obtain ph' where "notifies [Notify_one Not_empty] ((phase queue_example_start)(0 := Outside)) ph'"
    using notifies_total by blast
  from trace_returns [OF trace_Nil e this] show ?thesis by force
qed

theorem queue_linearizable_witness:
  "\<exists>s. queue_step\<^sup>*\<^sup>* queue_example_start s \<and> buffer_run 2 [(Call_Push 7, Queue_SUCCESS, None)] (buffer_of (shared s)) \<and>
     buffer_of (shared s) = Open [7]"
proof -
  obtain s where s: "queue_trace queue_example_start [(Call_Push 7, Queue_SUCCESS, None)] s"
    "shared s = (Queue_new 2)\<lparr>items := [7]\<rparr>"
    using queue_example_trace by blast
  have "queue_sys_init queue_example_start" "shared queue_example_start = Queue_new 2"
    by (auto simp: queue_sys_init_def queue_example_start_def)
  from queue_linearizable [OF this trace_steps [OF s(1)]] s(1) trace_steps [OF s(1)] s(2)
  show ?thesis by (intro exI [of _ s]) (simp add: buffer_of_def Queue_new_def)
qed

end
