(* ===== verification/Logger.thy ===== *)
theory Logger
  imports Firmware_Prelude
begin

text \<open>
  \<open>framework/logger\<close>: the process-wide logger. Its fields are guarded by one mutex, so each
  method is a function on them; what it writes is appended to the console, one entry per
  \<open>Log\<close> call, in call order. The local date (\<open>localtime_r\<close> and \<open>put_time\<close>), the count of
  milliseconds since the epoch and the kernel thread id come from the platform and are
  arguments.
\<close>

section \<open>Data\<close>

datatype LoggerError = Logger_SUCCESS | ALREADY_INITIALIZED | NOT_INITIALIZED
  | Logger_INVALID_ARGUMENT

datatype LogLevel = DEBUG | INFO | WARN | ERROR

fun level_int :: "LogLevel \<Rightarrow> int" where
  "level_int DEBUG = 0"
| "level_int INFO = 1"
| "level_int WARN = 2"
| "level_int ERROR = 3"

instantiation LogLevel :: linorder
begin

definition less_eq_LogLevel :: "LogLevel \<Rightarrow> LogLevel \<Rightarrow> bool" where
  "a \<le> b \<longleftrightarrow> level_int a \<le> level_int b"

definition less_LogLevel :: "LogLevel \<Rightarrow> LogLevel \<Rightarrow> bool" where
  "a < b \<longleftrightarrow> level_int a < level_int b"

instance
proof
  fix a b c :: LogLevel
  show "a < b \<longleftrightarrow> a \<le> b \<and> \<not> b \<le> a" by (auto simp: less_eq_LogLevel_def less_LogLevel_def)
  show "a \<le> a" by (simp add: less_eq_LogLevel_def)
  show "a \<le> b \<Longrightarrow> b \<le> c \<Longrightarrow> a \<le> c" by (simp add: less_eq_LogLevel_def)
  show "a \<le> b \<Longrightarrow> b \<le> a \<Longrightarrow> a = b"
    by (cases a; cases b) (auto simp: less_eq_LogLevel_def)
  show "a \<le> b \<or> b \<le> a" by (auto simp: less_eq_LogLevel_def)
qed

end

datatype LogOutput = STDOUT | STDERR

record LoggerConfig =
  min_level :: LogLevel
  log_output :: LogOutput
  show_timestamp :: bool
  show_thread_id :: bool

text \<open>The in-class initialisers of \<open>LoggerConfig\<close>.\<close>

definition default_config :: LoggerConfig where
  "default_config = \<lparr>min_level = DEBUG, log_output = STDOUT, show_timestamp = True,
     show_thread_id = True\<rparr>"

record Logger =
  initialized :: bool
  log_config :: LoggerConfig
  console :: "(LogOutput \<times> string) list"

text \<open>What the platform supplies to one \<open>Log\<close> call.\<close>

record LogEnv =
  local_date :: string
  epoch_millis :: nat
  thread_id :: nat

section \<open>Operations\<close>

definition FormatTimestamp :: "LogEnv \<Rightarrow> string" where
  "FormatTimestamp env =
     local_date env @ ''.'' @ pad_left 3 (CHR ''0'') (show_nat (epoch_millis env mod 1000))"

definition Logger_new :: Logger where
  "Logger_new = \<lparr>initialized = False, log_config = default_config, console = []\<rparr>"

definition Logger_Initialize_with :: "LoggerConfig \<Rightarrow> Logger \<Rightarrow> LoggerError \<times> Logger" where
  "Logger_Initialize_with cfg l =
     (if initialized l then (ALREADY_INITIALIZED, l)
      else (Logger_SUCCESS, l\<lparr>log_config := cfg, initialized := True\<rparr>))"

definition Logger_Initialize :: "Logger \<Rightarrow> LoggerError \<times> Logger" where
  "Logger_Initialize l = Logger_Initialize_with default_config l"

fun LevelToString :: "LogLevel \<Rightarrow> string" where
  "LevelToString DEBUG = ''DEBUG''"
| "LevelToString INFO = ''INFO''"
| "LevelToString WARN = ''WARN''"
| "LevelToString ERROR = ''ERROR''"

definition log_line :: "LoggerConfig \<Rightarrow> LogEnv \<Rightarrow> LogLevel \<Rightarrow> string \<Rightarrow> string" where
  "log_line cfg env level message =
     (if show_timestamp cfg then ''['' @ FormatTimestamp env @ ''] '' else '''') @
     ''['' @ LevelToString level @ '']'' @
     (if show_thread_id cfg then ''[tid='' @ show_nat (thread_id env) @ '']'' else '''') @
     '' '' @ message @ [CHR 0x0A]"

definition Logger_Log ::
  "LogEnv \<Rightarrow> LogLevel \<Rightarrow> string \<Rightarrow> Logger \<Rightarrow> LoggerError \<times> Logger" where
  "Logger_Log env level message l =
     (if \<not> initialized l then (NOT_INITIALIZED, l)
      else if level_int level < level_int (min_level (log_config l)) then (Logger_SUCCESS, l)
      else (Logger_SUCCESS,
            l\<lparr>console := console l @
               [(log_output (log_config l), log_line (log_config l) env level message)]\<rparr>))"

definition Logger_Debug :: "LogEnv \<Rightarrow> string \<Rightarrow> Logger \<Rightarrow> LoggerError \<times> Logger" where
  "Logger_Debug env message l = Logger_Log env DEBUG message l"

definition Logger_Info :: "LogEnv \<Rightarrow> string \<Rightarrow> Logger \<Rightarrow> LoggerError \<times> Logger" where
  "Logger_Info env message l = Logger_Log env INFO message l"

definition Logger_Warn :: "LogEnv \<Rightarrow> string \<Rightarrow> Logger \<Rightarrow> LoggerError \<times> Logger" where
  "Logger_Warn env message l = Logger_Log env WARN message l"

definition Logger_Error :: "LogEnv \<Rightarrow> string \<Rightarrow> Logger \<Rightarrow> LoggerError \<times> Logger" where
  "Logger_Error env message l = Logger_Log env ERROR message l"

definition Logger_SetMinLevel :: "LogLevel \<Rightarrow> Logger \<Rightarrow> Logger" where
  "Logger_SetMinLevel level l = l\<lparr>log_config := (log_config l)\<lparr>min_level := level\<rparr>\<rparr>"

definition Logger_GetMinLevel :: "Logger \<Rightarrow> LogLevel" where
  "Logger_GetMinLevel l = min_level (log_config l)"

definition Logger_IsInitialized :: "Logger \<Rightarrow> bool" where
  "Logger_IsInitialized l = initialized l"

definition Logger_Shutdown :: "Logger \<Rightarrow> Logger" where
  "Logger_Shutdown l = l\<lparr>initialized := False\<rparr>"

lemmas logger_op_defs = Logger_Initialize_with_def Logger_Initialize_def Logger_Log_def
  Logger_Debug_def Logger_Info_def Logger_Warn_def Logger_Error_def Logger_Shutdown_def

text \<open>A sequence of \<open>Log\<close> calls, in the order they take the mutex.\<close>

fun log_all :: "(LogEnv \<times> LogLevel \<times> string) list \<Rightarrow> Logger \<Rightarrow> Logger" where
  "log_all [] l = l"
| "log_all ((env, level, message) # ms) l = log_all ms (snd (Logger_Log env level message l))"

section \<open>Frame facts\<close>

lemma log_initialized [simp]:
  "initialized (snd (Logger_Log env level message l)) = initialized l"
  by (simp add: Logger_Log_def)

lemma log_log_config [simp]:
  "log_config (snd (Logger_Log env level message l)) = log_config l"
  by (simp add: Logger_Log_def)

lemma log_levels_initialized [simp]:
  "initialized (snd (Logger_Debug env message l)) = initialized l"
  "initialized (snd (Logger_Info env message l)) = initialized l"
  "initialized (snd (Logger_Warn env message l)) = initialized l"
  "initialized (snd (Logger_Error env message l)) = initialized l"
  by (simp_all add: logger_op_defs)

lemma log_uninitialized [simp]: "\<not> initialized l \<Longrightarrow> snd (Logger_Log env level message l) = l"
  by (simp add: Logger_Log_def)

lemma log_all_console:
  assumes "initialized l"
  shows "log_all ms l =
    l\<lparr>console := console l @
        map (\<lambda>(env, level, message).
              (log_output (log_config l), log_line (log_config l) env level message))
          (filter (\<lambda>(env, level, message). min_level (log_config l) \<le> level) ms)\<rparr>"
  using assms
proof (induction ms arbitrary: l)
  case (Cons m ms)
  obtain env level message where m: "m = (env, level, message)" by (cases m)
  show ?case
    using Cons.prems by (simp add: m Cons.IH Logger_Log_def less_eq_LogLevel_def)
qed simp

lemma log_all_uninitialized: "\<not> initialized l \<Longrightarrow> log_all ms l = l"
  by (induction ms arbitrary: l) auto

lemma format_timestamp_length:
  "length (FormatTimestamp env) = length (local_date env) + 4"
proof -
  have "length (show_nat (epoch_millis env mod 1000)) \<le> 3"
    by (rule length_show_nat_bound) simp_all
  then show ?thesis by (simp add: FormatTimestamp_def length_pad_left)
qed

section \<open>Properties\<close>


end
