(* ===== verification/Signal_Handler.thy ===== *)
theory Signal_Handler
  imports Firmware_Prelude
begin

text \<open>
  \<open>framework/signal\<close>: cooperative shutdown on SIGINT and SIGTERM. The process keeps one
  disposition per signal and the static flag \<open>shutdown_requested\<close>; \<open>sigaction(2)\<close> may fail, so
  each call takes the outcome the kernel gives it. A signal that arrives runs the disposition
  installed at that moment.
\<close>

section \<open>Data\<close>

datatype Signal = SIGINT | SIGTERM

text \<open>A disposition: the default, the firmware's callback, or a handler of somebody else.\<close>

datatype Disposition = SIG_DFL | SignalCallback | Other_handler nat

record Process =
  disposition :: "Signal \<Rightarrow> Disposition"
  sig_flag :: int

datatype HandlerState = NOT_INSTALLED | INSTALLED

record SignalHandler =
  handler_state :: HandlerState
  old_sigint :: Disposition
  old_sigterm :: Disposition

section \<open>Operations\<close>

text \<open>\<open>sigaction(sig, act, old)\<close>: on success the new disposition is in place.\<close>

definition sigaction :: "bool \<Rightarrow> Signal \<Rightarrow> Disposition \<Rightarrow> Process \<Rightarrow> Process" where
  "sigaction ok sig d p = (if ok then p\<lparr>disposition := (disposition p)(sig := d)\<rparr> else p)"

definition SignalHandler_new :: SignalHandler where
  "SignalHandler_new = \<lparr>handler_state = NOT_INSTALLED, old_sigint = SIG_DFL, old_sigterm = SIG_DFL\<rparr>"

text \<open>Delivery of a signal; only the firmware's own callback touches the flag.\<close>

definition deliver :: "Signal \<Rightarrow> Process \<Rightarrow> Process" where
  "deliver sig p = (if disposition p sig = SignalCallback then p\<lparr>sig_flag := 1\<rparr> else p)"

text \<open>The three outcomes are those of the two installations and of the roll-back.\<close>

definition SignalHandler_Initialize ::
  "bool \<times> bool \<times> bool \<Rightarrow> SignalHandler \<Rightarrow> Process \<Rightarrow> bool \<times> SignalHandler \<times> Process" where
  "SignalHandler_Initialize oks h p =
     (case oks of (ok_int, ok_term, ok_back) \<Rightarrow>
      if handler_state h = INSTALLED then (False, h, p)
      else
        let p0 = p\<lparr>sig_flag := 0\<rparr> in
        if \<not> ok_int then (False, h, p0)
        else
          let h1 = h\<lparr>old_sigint := disposition p0 SIGINT\<rparr>;
              p1 = sigaction True SIGINT SignalCallback p0 in
          if \<not> ok_term then (False, h1, sigaction ok_back SIGINT (old_sigint h1) p1)
          else
            let h2 = h1\<lparr>old_sigterm := disposition p1 SIGTERM\<rparr>;
                p2 = sigaction True SIGTERM SignalCallback p1 in
            (True, h2\<lparr>handler_state := INSTALLED\<rparr>, p2))"

definition SignalHandler_IsShutdownRequested :: "Process \<Rightarrow> bool" where
  "SignalHandler_IsShutdownRequested p \<longleftrightarrow> sig_flag p \<noteq> 0"

definition SignalHandler_IsInstalled :: "SignalHandler \<Rightarrow> bool" where
  "SignalHandler_IsInstalled h \<longleftrightarrow> handler_state h = INSTALLED"

definition SignalHandler_Shutdown ::
  "bool \<times> bool \<Rightarrow> SignalHandler \<Rightarrow> Process \<Rightarrow> SignalHandler \<times> Process" where
  "SignalHandler_Shutdown oks h p =
     (if handler_state h \<noteq> INSTALLED then (h, p)
      else
        let p1 = sigaction (fst oks) SIGINT (old_sigint h) p;
            p2 = sigaction (snd oks) SIGTERM (old_sigterm h) p1
        in (h\<lparr>handler_state := NOT_INSTALLED\<rparr>, p2\<lparr>sig_flag := 0\<rparr>))"

definition SignalHandler_destroy ::
  "bool \<times> bool \<Rightarrow> SignalHandler \<Rightarrow> Process \<Rightarrow> SignalHandler \<times> Process" where
  "SignalHandler_destroy oks h p =
     (if handler_state h = INSTALLED then SignalHandler_Shutdown oks h p else (h, p))"

lemmas signal_op_defs = SignalHandler_Initialize_def SignalHandler_Shutdown_def sigaction_def

section \<open>Facts\<close>

lemma initialize_success:
  assumes "SignalHandler_Initialize oks h p = (True, h', p')"
  shows "handler_state h \<noteq> INSTALLED \<and> handler_state h' = INSTALLED \<and> sig_flag p' = 0 \<and>
    disposition p' = (\<lambda>_. SignalCallback) \<and>
    old_sigint h' = disposition p SIGINT \<and> old_sigterm h' = disposition p SIGTERM"
proof -
  have "(disposition p)(SIGINT := SignalCallback, SIGTERM := SignalCallback) = (\<lambda>_. SignalCallback)"
    by (rule ext) (metis (full_types) Signal.exhaust fun_upd_apply)
  with assms show ?thesis
    by (auto simp: signal_op_defs Let_def split: prod.splits if_splits)
qed

lemma initialize_failure_handler:
  assumes "SignalHandler_Initialize oks h p = (False, h', p')"
  shows "handler_state h' = handler_state h"
  using assms by (auto simp: signal_op_defs Let_def split: prod.splits if_splits)

lemma initialize_failure_disposition:
  assumes "SignalHandler_Initialize (a, b, True) h p = (False, h', p')"
  shows "disposition p' = disposition p"
  using assms by (auto simp: signal_op_defs Let_def fun_eq_iff split: if_splits)

lemma deliver_flag_mono: "sig_flag p \<noteq> 0 \<Longrightarrow> sig_flag (deliver sig p) \<noteq> 0"
  by (simp add: deliver_def)

lemma deliver_disposition [simp]: "disposition (deliver sig p) = disposition p"
  by (simp add: deliver_def)

lemma fold_deliver:
  assumes "disposition p = (\<lambda>_. SignalCallback)"
  shows "disposition (fold deliver sigs p) = (\<lambda>_. SignalCallback) \<and>
    (sig_flag (fold deliver sigs p) \<noteq> 0 \<longleftrightarrow> sigs \<noteq> [] \<or> sig_flag p \<noteq> 0)"
  using assms by (induction sigs arbitrary: p) (auto simp: deliver_def)

lemma shutdown_restores:
  assumes "handler_state h = INSTALLED"
  shows "disposition (snd (SignalHandler_Shutdown (True, True) h p)) SIGINT = old_sigint h \<and>
    disposition (snd (SignalHandler_Shutdown (True, True) h p)) SIGTERM = old_sigterm h"
  using assms by (simp add: signal_op_defs Let_def)

lemma disposition_eqI:
  "d SIGINT = e SIGINT \<Longrightarrow> d SIGTERM = e SIGTERM \<Longrightarrow> d = (e :: Signal \<Rightarrow> Disposition)"
  by (rule ext) (metis (full_types) Signal.exhaust)

section \<open>Properties\<close>

text \<open>C31: Between a successful \<open>Initialize\<close> and \<open>Shutdown\<close>, a shutdown is reported as requested
  exactly when at least one SIGINT or SIGTERM has been delivered, whatever was delivered
  before; \<open>Shutdown\<close> then puts back the dispositions the process had before \<open>Initialize\<close> and
  clears the request, and a second \<open>Initialize\<close> in between is refused without effect.\<close>

theorem signal_session:
  assumes "SignalHandler_Initialize oks h p = (True, h1, p1)"
  shows "let p2 = fold deliver sigs p1;
             (h3, p3) = SignalHandler_Shutdown (True, True) h1 p2 in
    (SignalHandler_IsShutdownRequested p2 \<longleftrightarrow> sigs \<noteq> []) \<and>
    SignalHandler_Initialize oks' h1 p2 = (False, h1, p2) \<and>
    disposition p3 = disposition p \<and> \<not> SignalHandler_IsShutdownRequested p3 \<and>
    \<not> SignalHandler_IsInstalled h3"
proof -
  note s = initialize_success [OF assms]
  have f: "disposition (fold deliver sigs p1) = (\<lambda>_. SignalCallback)"
    "sig_flag (fold deliver sigs p1) \<noteq> 0 \<longleftrightarrow> sigs \<noteq> []"
    using fold_deliver [of p1 sigs] s by auto
  have "disposition (snd (SignalHandler_Shutdown (True, True) h1 (fold deliver sigs p1))) =
      disposition p"
    using shutdown_restores [of h1] s by (auto intro: disposition_eqI)
  with f s show ?thesis
    by (auto simp: SignalHandler_IsShutdownRequested_def SignalHandler_IsInstalled_def
        signal_op_defs Let_def split: prod.splits)
qed

definition signal_example :: "SignalHandler \<times> Process" where
  "signal_example = (SignalHandler_new,
     \<lparr>disposition = (\<lambda>_. SIG_DFL)(SIGTERM := Other_handler 3), sig_flag = 1\<rparr>)"

theorem signal_session_witness:
  "case SignalHandler_Initialize (True, True, True) (fst signal_example) (snd signal_example) of
    (ok, h1, p1) \<Rightarrow> ok \<and> SignalHandler_IsShutdownRequested (fold deliver [SIGTERM] p1) \<and>
      disposition (snd (SignalHandler_Shutdown (True, True) h1 (fold deliver [SIGTERM] p1))) =
        disposition (snd signal_example)"
proof -
  obtain h1 p1 where i: "SignalHandler_Initialize (True, True, True) (fst signal_example)
      (snd signal_example) = (True, h1, p1)"
    by (simp add: signal_example_def SignalHandler_new_def signal_op_defs Let_def)
  from signal_session [OF i, of "[SIGTERM]" "(True, True, True)"] i show ?thesis
    by (simp add: Let_def case_prod_beta)
qed

text \<open>A failed \<open>Initialize\<close> leaves no trace: whichever of the two installations the kernel
  refuses, the handler stays uninstalled and, the roll-back being accepted, both dispositions
  are what they were.\<close>

theorem signal_initialize_atomic:
  assumes "SignalHandler_Initialize (a, b, True) h p = (False, h', p')"
  shows "SignalHandler_IsInstalled h' = SignalHandler_IsInstalled h \<and>
    disposition p' = disposition p"
  using initialize_failure_handler [OF assms] initialize_failure_disposition [OF assms]
  by (simp add: SignalHandler_IsInstalled_def)

theorem signal_initialize_atomic_witness:
  "case SignalHandler_Initialize (True, False, True) (fst signal_example) (snd signal_example) of
    (ok, h', p') \<Rightarrow> \<not> ok \<and> \<not> SignalHandler_IsInstalled h' \<and>
      disposition p' = disposition (snd signal_example)"
proof -
  obtain h' p' where i: "SignalHandler_Initialize (True, False, True) (fst signal_example)
      (snd signal_example) = (False, h', p')"
    by (simp add: signal_example_def SignalHandler_new_def signal_op_defs Let_def)
  from signal_initialize_atomic [OF i] i show ?thesis
    by (simp add: signal_example_def SignalHandler_new_def SignalHandler_IsInstalled_def)
qed

end
