(* ===== verification/Firmware_App.thy ===== *)
theory Firmware_App
  imports Logger Signal_Handler
begin

text \<open>
  \<open>app\<close>: \<open>FirmwareApp\<close> and \<open>main\<close>. The application owns a signal handler, an atomic request
  flag and an atomic lifecycle state; it drives the process-wide logger and the process's
  signal dispositions, so an operation is a function on all of them. \<open>Run\<close> polls; what other
  threads and the kernel do between two polls is a script of events, and \<open>None\<close> says that the
  loop is still polling when the script ends.
\<close>

section \<open>Data\<close>

datatype AppState = UNINITIALIZED | INITIALIZED | RUNNING | SHUTDOWN

record FirmwareApp =
  signalHandler :: SignalHandler
  app_requested :: bool
  app_state :: AppState

record World =
  app :: FirmwareApp
  logger :: Logger
  process :: Process
  app_stderr :: "string list"

text \<open>What the platform supplies: the data of the log calls and the outcomes of \<open>sigaction\<close>.\<close>

record Platform =
  log_env :: "nat \<Rightarrow> LogEnv"
  install_ok :: "bool \<times> bool \<times> bool"
  restore_ok :: "bool \<times> bool"

section \<open>Operations\<close>

definition info :: "Platform \<Rightarrow> nat \<Rightarrow> string \<Rightarrow> World \<Rightarrow> World" where
  "info pf i msg w = w\<lparr>logger := snd (Logger_Info (log_env pf i) msg (logger w))\<rparr>"

definition set_state :: "AppState \<Rightarrow> World \<Rightarrow> World" where
  "set_state st w = w\<lparr>app := (app w)\<lparr>app_state := st\<rparr>\<rparr>"

fun StateToString :: "AppState \<Rightarrow> string" where
  "StateToString UNINITIALIZED = ''UNINITIALIZED''"
| "StateToString INITIALIZED = ''INITIALIZED''"
| "StateToString RUNNING = ''RUNNING''"
| "StateToString SHUTDOWN = ''SHUTDOWN''"

definition FirmwareApp_GetState :: "World \<Rightarrow> AppState" where
  "FirmwareApp_GetState w = app_state (app w)"

definition FirmwareApp_new :: FirmwareApp where
  "FirmwareApp_new = \<lparr>signalHandler = SignalHandler_new, app_requested = False,
     app_state = UNINITIALIZED\<rparr>"

definition FirmwareApp_Initialize :: "Platform \<Rightarrow> World \<Rightarrow> bool \<times> World" where
  "FirmwareApp_Initialize pf w =
     (if app_state (app w) \<noteq> UNINITIALIZED then (False, w)
      else case Logger_Initialize (logger w) of (e, l) \<Rightarrow>
        if e \<noteq> Logger_SUCCESS then (False, w\<lparr>logger := l\<rparr>)
        else
          let w1 = info pf 0 ''FirmwareApp: initializing'' (w\<lparr>logger := l\<rparr>) in
          case SignalHandler_Initialize (install_ok pf) (signalHandler (app w1)) (process w1) of
            (ok, h, p) \<Rightarrow>
              let w2 = w1\<lparr>app := (app w1)\<lparr>signalHandler := h\<rparr>, process := p\<rparr> in
              if \<not> ok then
                (False, w2\<lparr>logger := Logger_Shutdown (snd (Logger_Error (log_env pf 1)
                   ''FirmwareApp: SignalHandler initialization failed'' (logger w2)))\<rparr>)
              else (True, info pf 1 ''FirmwareApp: initialized'' (set_state INITIALIZED w2)))"

definition FirmwareApp_IsShutdownRequested :: "World \<Rightarrow> bool" where
  "FirmwareApp_IsShutdownRequested w \<longleftrightarrow>
     app_requested (app w) \<or> SignalHandler_IsShutdownRequested (process w)"

definition FirmwareApp_RequestShutdown :: "World \<Rightarrow> World" where
  "FirmwareApp_RequestShutdown w = w\<lparr>app := (app w)\<lparr>app_requested := True\<rparr>\<rparr>"

text \<open>\<open>previous = state.exchange(SHUTDOWN)\<close>, then the tear-down in reverse order.\<close>

definition FirmwareApp_Shutdown :: "Platform \<Rightarrow> World \<Rightarrow> World" where
  "FirmwareApp_Shutdown pf w =
     (let previous = app_state (app w); w0 = set_state SHUTDOWN w in
      if previous = SHUTDOWN then w0
      else if previous = UNINITIALIZED then w0
      else
        let w1 = info pf 0 ''FirmwareApp: shutting down'' w0;
            (h, p) = SignalHandler_Shutdown (restore_ok pf) (signalHandler (app w1)) (process w1);
            w2 = w1\<lparr>app := (app w1)\<lparr>signalHandler := h\<rparr>, process := p\<rparr>;
            w3 = info pf 1 ''FirmwareApp: shutdown complete'' w2
        in w3\<lparr>logger := Logger_Shutdown (logger w3)\<rparr>)"

text \<open>What can happen between two polls of the run loop.\<close>

datatype Event = Ev_signal Signal | Ev_request | Ev_shutdown

fun app_event :: "Platform \<Rightarrow> Event \<Rightarrow> World \<Rightarrow> World" where
  "app_event pf (Ev_signal sig) w = w\<lparr>process := deliver sig (process w)\<rparr>"
| "app_event pf Ev_request w = FirmwareApp_RequestShutdown w"
| "app_event pf Ev_shutdown w = FirmwareApp_Shutdown pf w"

fun run_loop :: "Platform \<Rightarrow> Event list list \<Rightarrow> World \<Rightarrow> World option" where
  "run_loop pf [] w = (if FirmwareApp_IsShutdownRequested w then Some w else None)"
| "run_loop pf (evs # script) w =
     (if FirmwareApp_IsShutdownRequested w then Some w
      else run_loop pf script (fold (app_event pf) evs w))"

text \<open>\<open>Run\<close> first loads the state and then, in a separate atomic access, stores \<open>RUNNING\<close>.\<close>

definition Run_check :: "World \<Rightarrow> bool" where
  "Run_check w \<longleftrightarrow> app_state (app w) = INITIALIZED"

definition Run_commit :: "Platform \<Rightarrow> World \<Rightarrow> World" where
  "Run_commit pf w = info pf 0 ''FirmwareApp: run loop entered'' (set_state RUNNING w)"

definition FirmwareApp_Run :: "Platform \<Rightarrow> Event list list \<Rightarrow> World \<Rightarrow> World option" where
  "FirmwareApp_Run pf script w =
     (if \<not> Run_check w then Some w
      else map_option (info pf 1 ''FirmwareApp: run loop exited'') (run_loop pf script (Run_commit pf w)))"

text \<open>The destructor: a running application is reported and left alone, a forgotten one is shut
  down; then the member \<open>signalHandler\<close> is destroyed.\<close>

definition FirmwareApp_destroy :: "Platform \<Rightarrow> World \<Rightarrow> World" where
  "FirmwareApp_destroy pf w =
     (let current = app_state (app w);
          w1 = (if current = RUNNING
                then w\<lparr>app_stderr := app_stderr w @
                  [''[FirmwareApp] FATAL: destructor called while state='' @ StateToString current @
                   ''. Run() must return before destruction.'']\<rparr>
                else if current \<noteq> SHUTDOWN then FirmwareApp_Shutdown pf w else w);
          (h, p) = SignalHandler_destroy (restore_ok pf) (signalHandler (app w1)) (process w1)
      in w1\<lparr>app := (app w1)\<lparr>signalHandler := h\<rparr>, process := p\<rparr>)"

datatype ExitCode = EXIT_SUCCESS | EXIT_FAILURE

definition main :: "Platform \<Rightarrow> Event list list \<Rightarrow> Logger \<Rightarrow> Process \<Rightarrow> (ExitCode \<times> World) option" where
  "main pf script l p =
     (let w = \<lparr>app = FirmwareApp_new, logger = l, process = p, app_stderr = []\<rparr> in
      case FirmwareApp_Initialize pf w of (ok, w1) \<Rightarrow>
        if \<not> ok then Some (EXIT_FAILURE, FirmwareApp_destroy pf w1)
        else case FirmwareApp_Run pf script w1 of
            None \<Rightarrow> None
          | Some w2 \<Rightarrow>
              Some (EXIT_SUCCESS, FirmwareApp_destroy pf (FirmwareApp_Shutdown pf w2)))"

lemmas app_op_defs = info_def set_state_def FirmwareApp_Initialize_def
  FirmwareApp_RequestShutdown_def FirmwareApp_Shutdown_def Run_check_def Run_commit_def

section \<open>Facts\<close>

lemma info_frame [simp]:
  "app (info pf i msg w) = app w" "process (info pf i msg w) = process w"
  "initialized (logger (info pf i msg w)) = initialized (logger w)"
  by (simp_all add: info_def)

lemma set_state_frame [simp]:
  "logger (set_state st w) = logger w" "process (set_state st w) = process w"
  "app_state (app (set_state st w)) = st"
  "signalHandler (app (set_state st w)) = signalHandler (app w)"
  "app_requested (app (set_state st w)) = app_requested (app w)"
  by (simp_all add: set_state_def)

lemma shutdown_state [simp]: "app_state (app (FirmwareApp_Shutdown pf w)) = SHUTDOWN"
  by (simp add: FirmwareApp_Shutdown_def Let_def case_prod_beta)

lemma shutdown_requested_frame [simp]:
  "app_requested (app (FirmwareApp_Shutdown pf w)) = app_requested (app w)"
  by (simp add: FirmwareApp_Shutdown_def Let_def case_prod_beta)

lemma shutdown_done: "app_state (app w) = SHUTDOWN \<Longrightarrow> FirmwareApp_Shutdown pf w = w"
  by (simp add: FirmwareApp_Shutdown_def set_state_def)

lemma shutdown_live:
  assumes "app_state (app w) = INITIALIZED \<or> app_state (app w) = RUNNING"
  shows "\<not> initialized (logger (FirmwareApp_Shutdown pf w))"
    and "process (FirmwareApp_Shutdown pf w) =
      snd (SignalHandler_Shutdown (restore_ok pf) (signalHandler (app w)) (process w))"
    and "signalHandler (app (FirmwareApp_Shutdown pf w)) =
      fst (SignalHandler_Shutdown (restore_ok pf) (signalHandler (app w)) (process w))"
  using assms by (auto simp: FirmwareApp_Shutdown_def Let_def case_prod_beta Logger_Shutdown_def)

text \<open>A world in which the application is up: what \<open>Initialize\<close> establishes.\<close>

definition app_up :: "Process \<Rightarrow> World \<Rightarrow> bool" where
  "app_up p0 w \<longleftrightarrow>
     handler_state (signalHandler (app w)) = INSTALLED \<and> initialized (logger w) \<and>
     disposition (process w) = (\<lambda>_. SignalCallback) \<and>
     old_sigint (signalHandler (app w)) = disposition p0 SIGINT \<and>
     old_sigterm (signalHandler (app w)) = disposition p0 SIGTERM"

lemma app_up_frame [simp]:
  "app_up p0 (info pf i msg w) = app_up p0 w" "app_up p0 (set_state st w) = app_up p0 w"
  by (simp_all add: app_up_def)

lemma initialize_up:
  assumes "FirmwareApp_Initialize pf w = (True, w')"
  shows "app_state (app w) = UNINITIALIZED \<and> app_state (app w') = INITIALIZED \<and>
    app_up (process w) w' \<and> sig_flag (process w') = 0 \<and>
    app_requested (app w') = app_requested (app w)"
  using assms
  by (auto simp: FirmwareApp_Initialize_def Let_def app_up_def logger_op_defs
      split: prod.splits if_splits dest!: initialize_success)

lemma initialize_fails:
  assumes "FirmwareApp_Initialize pf w = (False, w')" "app_state (app w) = UNINITIALIZED"
    "\<not> initialized (logger w)" "handler_state (signalHandler (app w)) = NOT_INSTALLED"
  shows "app_state (app w') = UNINITIALIZED \<and> \<not> initialized (logger w') \<and>
    handler_state (signalHandler (app w')) = NOT_INSTALLED"
  using assms
  by (auto simp: FirmwareApp_Initialize_def Let_def logger_op_defs info_def
      split: prod.splits if_splits dest!: initialize_failure_handler)

lemma shutdown_restores_process:
  assumes "app_up p0 w" "app_state (app w) = INITIALIZED \<or> app_state (app w) = RUNNING"
    "restore_ok pf = (True, True)"
  shows "disposition (process (FirmwareApp_Shutdown pf w)) = disposition p0"
  using assms shutdown_restores [of "signalHandler (app w)" "process w"]
  by (auto simp: shutdown_live(2) app_up_def intro: disposition_eqI)

section \<open>The run loop\<close>

definition request_event :: "Event \<Rightarrow> bool" where
  "request_event e \<longleftrightarrow> (case e of Ev_signal _ \<Rightarrow> True | Ev_request \<Rightarrow> True | Ev_shutdown \<Rightarrow> False)"

lemma events_up:
  assumes "app_up p0 w" "list_all request_event evs"
  shows "app_up p0 (fold (app_event pf) evs w) \<and>
    app_state (app (fold (app_event pf) evs w)) = app_state (app w) \<and>
    (FirmwareApp_IsShutdownRequested (fold (app_event pf) evs w) \<longleftrightarrow>
      evs \<noteq> [] \<or> FirmwareApp_IsShutdownRequested w)"
  using assms
proof (induction evs arbitrary: w)
  case (Cons e evs)
  have "app_up p0 (app_event pf e w) \<and> app_state (app (app_event pf e w)) = app_state (app w) \<and>
      FirmwareApp_IsShutdownRequested (app_event pf e w)"
    using Cons.prems
    by (cases e) (auto simp: app_up_def request_event_def FirmwareApp_IsShutdownRequested_def
        FirmwareApp_RequestShutdown_def SignalHandler_IsShutdownRequested_def deliver_def)
  with Cons.IH [of "app_event pf e w"] Cons.prems show ?case by auto
qed simp

lemma run_loop_returns:
  assumes "app_up p0 w" "list_all (list_all request_event) script"
  shows "(\<exists>w'. run_loop pf script w = Some w') \<longleftrightarrow>
    FirmwareApp_IsShutdownRequested w \<or> concat script \<noteq> []"
  using assms
proof (induction script arbitrary: w)
  case (Cons evs script)
  with events_up [of p0 w evs pf] Cons.IH [of "fold (app_event pf) evs w"]
  show ?case by (auto simp: Let_def)
qed simp

lemma run_loop_up:
  assumes "run_loop pf script w = Some w'" "app_up p0 w" "list_all (list_all request_event) script"
  shows "app_up p0 w' \<and> app_state (app w') = app_state (app w) \<and> FirmwareApp_IsShutdownRequested w'"
  using assms
proof (induction script arbitrary: w)
  case (Cons evs script)
  with events_up [of p0 w evs pf] show ?case by (auto split: if_splits)
qed (auto split: if_splits)

lemma run_up:
  assumes "FirmwareApp_Run pf script w = Some w'" "app_up p0 w"
    "app_state (app w) = INITIALIZED" "list_all (list_all request_event) script"
  shows "app_up p0 w' \<and> app_state (app w') = RUNNING"
proof -
  from assms(1,3) obtain w1 where r: "run_loop pf script (Run_commit pf w) = Some w1"
    and w': "w' = info pf 1 ''FirmwareApp: run loop exited'' w1"
    by (auto simp: FirmwareApp_Run_def Run_check_def)
  have up: "app_up p0 (Run_commit pf w)" using assms(2) by (simp add: Run_commit_def)
  from run_loop_up [OF r up assms(4)] w' show ?thesis by (simp add: Run_commit_def)
qed

lemma run_loop_stuck:
  assumes "\<not> FirmwareApp_IsShutdownRequested w"
  shows "run_loop pf (replicate n []) w = None"
  using assms by (induction n) auto


text \<open>Only the destructor of a running application complains on standard error.\<close>

lemma stderr_info [simp]: "app_stderr (info pf i msg w) = app_stderr w" "app_stderr (set_state st w) = app_stderr w"
  by (simp_all add: info_def set_state_def)

lemma stderr_initialize: "FirmwareApp_Initialize pf w = (ok, w') \<Longrightarrow> app_stderr w' = app_stderr w"
  by (auto simp: FirmwareApp_Initialize_def Let_def split: prod.splits if_splits)

lemma stderr_shutdown [simp]: "app_stderr (FirmwareApp_Shutdown pf w) = app_stderr w"
  by (simp add: FirmwareApp_Shutdown_def Let_def case_prod_beta)

lemma stderr_events: "app_stderr (fold (app_event pf) evs w) = app_stderr w"
proof (induction evs arbitrary: w)
  case (Cons e evs)
  have "app_stderr (app_event pf e w) = app_stderr w" by (cases e) (simp_all add: FirmwareApp_RequestShutdown_def)
  with Cons show ?case by simp
qed simp

lemma stderr_run_loop: "run_loop pf script w = Some w' \<Longrightarrow> app_stderr w' = app_stderr w"
  by (induction pf script w rule: run_loop.induct) (auto simp: stderr_events split: if_splits)

lemma stderr_run: "FirmwareApp_Run pf script w = Some w' \<Longrightarrow> app_stderr w' = app_stderr w"
  by (auto simp: FirmwareApp_Run_def Run_commit_def dest: stderr_run_loop split: if_splits)

section \<open>Properties\<close>

definition app_example :: "Platform \<times> Logger \<times> Process" where
  "app_example =
     (\<lparr>log_env = (\<lambda>_. \<lparr>local_date = ''2026-01-01 00:00:00'', epoch_millis = 7, thread_id = 1\<rparr>),
       install_ok = (True, True, True), restore_ok = (True, True)\<rparr>,
      Logger_new, \<lparr>disposition = (\<lambda>_. SIG_DFL), sig_flag = 0\<rparr>)"

lemma initialize_ok_iff:
  assumes "app_state (app w) = UNINITIALIZED" "\<not> initialized (logger w)"
    "handler_state (signalHandler (app w)) = NOT_INSTALLED"
  shows "fst (FirmwareApp_Initialize pf w) \<longleftrightarrow>
    fst (install_ok pf) \<and> fst (snd (install_ok pf))"
  using assms
  by (auto simp: FirmwareApp_Initialize_def Let_def logger_op_defs info_def signal_op_defs
      split: prod.splits if_splits)

lemma destroy_shut_down:
  assumes "app_state (app w) = SHUTDOWN" "handler_state (signalHandler (app w)) = NOT_INSTALLED"
  shows "FirmwareApp_destroy pf w = w"
  using assms by (simp add: FirmwareApp_destroy_def SignalHandler_destroy_def)

lemma destroy_uninitialized:
  assumes "app_state (app w) = UNINITIALIZED" "handler_state (signalHandler (app w)) = NOT_INSTALLED"
  shows "FirmwareApp_destroy pf w = set_state SHUTDOWN w"
  using assms
  by (simp add: FirmwareApp_destroy_def SignalHandler_destroy_def FirmwareApp_Shutdown_def
      set_state_def Let_def)

lemma shutdown_handler:
  assumes "app_up p0 w" "app_state (app w) = RUNNING"
  shows "handler_state (signalHandler (app (FirmwareApp_Shutdown pf w))) = NOT_INSTALLED"
  using assms by (simp add: shutdown_live SignalHandler_Shutdown_def app_up_def Let_def)

text \<open>C22: \<open>main\<close> end to end, on a platform whose \<open>sigaction\<close> calls succeed. It returns exactly when
  some SIGINT, SIGTERM or \<open>RequestShutdown\<close> arrives while the run loop polls, and then with
  success, the lifecycle in \<open>SHUTDOWN\<close>, the logger down, the signal dispositions the
  process started with back in place and no complaint of the destructor on standard error.\<close>

theorem main_runs_until_request:
  assumes "install_ok pf = (True, True, b)" "restore_ok pf = (True, True)"
    "\<not> initialized l" "list_all (list_all request_event) script"
  shows "(main pf script l p \<noteq> None \<longleftrightarrow> concat script \<noteq> []) \<and>
    (\<forall>c w. main pf script l p = Some (c, w) \<longrightarrow>
      c = EXIT_SUCCESS \<and> FirmwareApp_GetState w = SHUTDOWN \<and> \<not> initialized (logger w) \<and>
      disposition (process w) = disposition p \<and> app_stderr w = [])"
proof -
  let ?w = "\<lparr>app = FirmwareApp_new, logger = l, process = p, app_stderr = []\<rparr>"
  have "fst (FirmwareApp_Initialize pf ?w)"
    using assms by (subst initialize_ok_iff) (auto simp: FirmwareApp_new_def SignalHandler_new_def)
  then obtain w1 where i: "FirmwareApp_Initialize pf ?w = (True, w1)"
    by (metis (full_types) eq_fst_iff)
  note up = initialize_up [OF i]
  have c: "app_up p (Run_commit pf w1)" "\<not> FirmwareApp_IsShutdownRequested (Run_commit pf w1)"
    using up by (auto simp: Run_commit_def FirmwareApp_IsShutdownRequested_def
        SignalHandler_IsShutdownRequested_def FirmwareApp_new_def)
  have "(\<exists>w'. FirmwareApp_Run pf script w1 = Some w') \<longleftrightarrow> concat script \<noteq> []"
    using run_loop_returns [OF c(1) assms(4), of pf] c(2) up
    by (auto simp: FirmwareApp_Run_def Run_check_def)
  then have 1: "main pf script l p \<noteq> None \<longleftrightarrow> concat script \<noteq> []"
    by (auto simp: main_def i Let_def split: option.splits)
  have "c = EXIT_SUCCESS \<and> FirmwareApp_GetState w = SHUTDOWN \<and> \<not> initialized (logger w) \<and>
      disposition (process w) = disposition p \<and> app_stderr w = []" if m: "main pf script l p = Some (c, w)" for c w
  proof -
    from m obtain w2 where w2: "FirmwareApp_Run pf script w1 = Some w2"
      and w: "c = EXIT_SUCCESS" "w = FirmwareApp_destroy pf (FirmwareApp_Shutdown pf w2)"
      by (auto simp: main_def i Let_def split: option.splits)
    have r: "app_up p w2" "app_state (app w2) = RUNNING"
      using run_up [OF w2 _ _ assms(4), of p] up by auto
    have "FirmwareApp_destroy pf (FirmwareApp_Shutdown pf w2) = FirmwareApp_Shutdown pf w2"
      using r by (auto intro: destroy_shut_down shutdown_handler)
    with w r assms(2) show ?thesis
      by (simp add: shutdown_live(1) shutdown_restores_process FirmwareApp_GetState_def
          stderr_run [OF w2] stderr_initialize [OF i])
  qed
  with 1 show ?thesis by blast
qed

theorem main_runs_until_request_witness:
  "case app_example of (pf, l, p) \<Rightarrow>
    main pf [[], [Ev_signal SIGTERM]] l p \<noteq> None \<and> main pf [[], []] l p = None"
proof -
  obtain pf l p where e: "app_example = (pf, l, p)" by (cases app_example)
  then have h: "install_ok pf = (True, True, True)" "restore_ok pf = (True, True)"
    "\<not> initialized l"
    by (auto simp: app_example_def Logger_new_def)
  have "main pf [[], [Ev_signal SIGTERM]] l p \<noteq> None"
    using main_runs_until_request [OF h, of "[[], [Ev_signal SIGTERM]]" p]
    by (simp add: request_event_def)
  moreover have "main pf [[], []] l p = None"
    using main_runs_until_request [OF h, of "[[], []]" p] by (auto simp del: not_None_eq)
  ultimately show ?thesis by (simp add: e)
qed

text \<open>C37: The start-up roll-back. When the process starts with the logger down and an installation
  of a signal handler fails, \<open>main\<close> returns failure with the logger down again, the handler
  uninstalled and, the roll-back being accepted, the original dispositions.\<close>

theorem main_failure_rolls_back:
  assumes "install_ok pf = (a, b, True)" "\<not> (a \<and> b)" "\<not> initialized l"
  shows "\<exists>w. main pf script l p = Some (EXIT_FAILURE, w) \<and> \<not> initialized (logger w) \<and>
    handler_state (signalHandler (app w)) = NOT_INSTALLED \<and>
    disposition (process w) = disposition p"
proof -
  let ?w = "\<lparr>app = FirmwareApp_new, logger = l, process = p, app_stderr = []\<rparr>"
  have "\<not> fst (FirmwareApp_Initialize pf ?w)"
    using assms by (subst initialize_ok_iff) (auto simp: FirmwareApp_new_def SignalHandler_new_def)
  then obtain w1 where i: "FirmwareApp_Initialize pf ?w = (False, w1)"
    by (metis (full_types) eq_fst_iff)
  have f: "app_state (app w1) = UNINITIALIZED \<and> \<not> initialized (logger w1) \<and>
      handler_state (signalHandler (app w1)) = NOT_INSTALLED"
    using initialize_fails [OF i] assms(3) by (simp add: FirmwareApp_new_def SignalHandler_new_def)
  have "disposition (process w1) = disposition p"
    using i assms
    by (auto simp: FirmwareApp_Initialize_def Let_def info_def logger_op_defs
        split: prod.splits if_splits dest!: initialize_failure_disposition)
  with f destroy_uninitialized [of w1 pf] show ?thesis
    by (simp add: main_def i Let_def)
qed

theorem main_failure_rolls_back_witness:
  "case app_example of (pf, l, p) \<Rightarrow>
    \<exists>w. main (pf\<lparr>install_ok := (True, False, True)\<rparr>) [] l p = Some (EXIT_FAILURE, w) \<and>
      \<not> initialized (logger w) \<and> disposition (process w) = (\<lambda>_. SIG_DFL)"
proof -
  obtain pf l p where e: "app_example = (pf, l, p)" by (cases app_example)
  then have "\<not> initialized l" "disposition p = (\<lambda>_. SIG_DFL)"
    by (auto simp: app_example_def Logger_new_def)
  with main_failure_rolls_back [of "pf\<lparr>install_ok := (True, False, True)\<rparr>" True False l "[]" p]
  show ?thesis by (auto simp: e)
qed

text \<open>\<open>Shutdown\<close> on its own does not end \<open>Run\<close>. If another thread calls \<open>Shutdown\<close> while the loop
  polls and nobody called \<open>RequestShutdown\<close>, the pending SIGINT or SIGTERM is cleared together
  with the handlers, and the loop polls for ever unless a later request arrives.\<close>

theorem app_shutdown_strands_run:
  assumes "app_up p0 w" "app_state (app w) = RUNNING" "\<not> app_requested (app w)"
  shows "run_loop pf ((map Ev_signal sigs @ [Ev_shutdown]) # replicate n []) w =
    (if FirmwareApp_IsShutdownRequested w then Some w else None)"
proof -
  let ?w = "fold (app_event pf) (map Ev_signal sigs) w"
  have a: "app (fold (app_event pf) (map Ev_signal sigs) v) = app v" for v
    by (induction sigs arbitrary: v) auto
  have "app_up p0 ?w" "app_state (app ?w) = RUNNING"
    using events_up [OF assms(1), of "map Ev_signal sigs" pf] assms(2)
    by (auto simp: request_event_def list_all_iff)
  then have "sig_flag (process (FirmwareApp_Shutdown pf ?w)) = 0"
    by (simp add: shutdown_live(2) app_up_def SignalHandler_Shutdown_def Let_def)
  then have "\<not> FirmwareApp_IsShutdownRequested (FirmwareApp_Shutdown pf ?w)"
    using assms(3) a [of w]
    by (simp add: FirmwareApp_IsShutdownRequested_def SignalHandler_IsShutdownRequested_def)
  then show ?thesis by (simp add: run_loop_stuck)
qed

theorem app_shutdown_strands_run_witness:
  "\<exists>pf w. app_state (app w) = RUNNING \<and>
    run_loop pf [[Ev_signal SIGTERM, Ev_shutdown], [], []] w = None"
proof -
  obtain pf l p where e: "app_example = (pf, l, p)" by (cases app_example)
  let ?w = "\<lparr>app = \<lparr>signalHandler = \<lparr>handler_state = INSTALLED, old_sigint = SIG_DFL,
      old_sigterm = SIG_DFL\<rparr>, app_requested = False, app_state = RUNNING\<rparr>,
    logger = \<lparr>initialized = True, log_config = default_config, console = []\<rparr>,
    process = \<lparr>disposition = (\<lambda>_. SignalCallback), sig_flag = 0\<rparr>, app_stderr = []\<rparr>"
  have "app_up \<lparr>disposition = (\<lambda>_. SIG_DFL), sig_flag = 0\<rparr> ?w" by (simp add: app_up_def)
  from app_shutdown_strands_run [OF this, of pf "[SIGTERM]" 2]
  have "run_loop pf [[Ev_signal SIGTERM, Ev_shutdown], [], []] ?w = None"
    by (simp add: FirmwareApp_IsShutdownRequested_def SignalHandler_IsShutdownRequested_def
        numeral_2_eq_2)
  then show ?thesis by (intro exI [of _ pf] exI [of _ ?w]) simp
qed

end
