(* ===== verification/Thread_Manager.thy ===== *)
theory Thread_Manager
  imports Firmware_Prelude
begin

text \<open>
  \<open>framework/thread\<close>: \<open>StopToken\<close> and \<open>ThreadManager\<close>, the owner of one worker thread. The
  manager's fields are guarded by a mutex, so the operations are functions on them; a
  \<open>std::thread\<close> member is the id of the thread it stands for, or \<open>None\<close> when it is not
  joinable. \<open>Join\<close> waits for \<open>worker_finished\<close> on a condition variable, moves the thread out
  under the mutex and joins it outside, so several callers and the worker interleave: the
  second half is a step relation over the manager, the operating system's threads and the
  callers.
\<close>

section \<open>Data\<close>

record StopToken =
  stop_requested :: bool

datatype ThreadError = Thread_SUCCESS | Thread_ALREADY_RUNNING | Thread_NOT_RUNNING
  | Thread_INVALID_ARGUMENT | THREAD_CREATION_FAILED | JOIN_FAILED | JOIN_TIMEOUT

record ThreadManager =
  worker_thread :: "nat option"
  stop_token :: StopToken
  tm_running :: bool
  worker_finished :: bool
  thread_name :: string

section \<open>Stop token\<close>

definition StopToken_new :: StopToken where
  "StopToken_new = \<lparr>stop_requested = False\<rparr>"

definition StopToken_RequestStop :: "StopToken \<Rightarrow> StopToken" where
  "StopToken_RequestStop tok = tok\<lparr>stop_requested := True\<rparr>"

definition StopToken_IsStopRequested :: "StopToken \<Rightarrow> bool" where
  "StopToken_IsStopRequested tok = stop_requested tok"

definition StopToken_Reset :: "StopToken \<Rightarrow> StopToken" where
  "StopToken_Reset tok = tok\<lparr>stop_requested := False\<rparr>"

section \<open>Operations\<close>

definition MAX_THREAD_NAME_LENGTH :: nat where
  "MAX_THREAD_NAME_LENGTH = 15"

definition NormalizeName :: "string \<Rightarrow> string" where
  "NormalizeName raw =
     (if raw = [] then ''worker''
      else if length raw \<le> MAX_THREAD_NAME_LENGTH then raw
      else take MAX_THREAD_NAME_LENGTH raw)"

definition ThreadManager_new :: ThreadManager where
  "ThreadManager_new = \<lparr>worker_thread = None, stop_token = StopToken_new, tm_running = False,
     worker_finished = False, thread_name = ''''\<rparr>"

text \<open>The destructor: \<open>None\<close> stands for \<open>std::terminate()\<close>.\<close>

definition ThreadManager_destroy :: "ThreadManager \<Rightarrow> unit option" where
  "ThreadManager_destroy tm = (if worker_thread tm \<noteq> None then None else Some ())"

text \<open>
  \<open>Start\<close>: whether the caller passed a callable, whether the operating system can create the
  thread, and the id the new thread gets. Move-assignment to a joinable \<open>std::thread\<close> calls
  \<open>std::terminate()\<close>: \<open>None\<close>.
\<close>

definition ThreadManager_Start ::
  "string \<Rightarrow> bool \<Rightarrow> bool \<Rightarrow> nat \<Rightarrow> ThreadManager \<Rightarrow> (ThreadError \<times> ThreadManager) option" where
  "ThreadManager_Start name callable created tid tm =
     (if \<not> callable then Some (Thread_INVALID_ARGUMENT, tm)
      else if tm_running tm then Some (Thread_ALREADY_RUNNING, tm)
      else
        let tm1 = tm\<lparr>stop_token := StopToken_Reset (stop_token tm), worker_finished := False,
                     thread_name := NormalizeName name\<rparr> in
        if \<not> created then Some (THREAD_CREATION_FAILED, tm1\<lparr>tm_running := False\<rparr>)
        else if worker_thread tm1 \<noteq> None then None
        else Some (Thread_SUCCESS, tm1\<lparr>worker_thread := Some tid, tm_running := True\<rparr>))"

definition ThreadManager_Start_unnamed ::
  "bool \<Rightarrow> bool \<Rightarrow> nat \<Rightarrow> ThreadManager \<Rightarrow> (ThreadError \<times> ThreadManager) option" where
  "ThreadManager_Start_unnamed callable created tid tm =
     ThreadManager_Start ''worker'' callable created tid tm"

text \<open>The end of the thread function: under the mutex, \<open>worker_finished = true\<close>.\<close>

definition worker_epilogue :: "ThreadManager \<Rightarrow> ThreadManager" where
  "worker_epilogue tm = tm\<lparr>worker_finished := True\<rparr>"

definition ThreadManager_Stop :: "ThreadManager \<Rightarrow> ThreadError \<times> ThreadManager" where
  "ThreadManager_Stop tm =
     (if \<not> tm_running tm then (Thread_NOT_RUNNING, tm)
      else (Thread_SUCCESS, tm\<lparr>stop_token := StopToken_RequestStop (stop_token tm)\<rparr>))"

text \<open>The third component is the thread the caller goes on to join outside the mutex.\<close>

definition ThreadManager_CompleteJoin ::
  "ThreadManager \<Rightarrow> ThreadError \<times> ThreadManager \<times> nat option" where
  "ThreadManager_CompleteJoin tm =
     (if \<not> tm_running tm then (Thread_NOT_RUNNING, tm, None)
      else case worker_thread tm of
          None \<Rightarrow> (JOIN_FAILED, tm, None)
        | Some tid \<Rightarrow> (Thread_SUCCESS, tm\<lparr>worker_thread := None, tm_running := False\<rparr>, Some tid))"

text \<open>
  One evaluation of the wait and what follows it; \<open>None\<close>: the caller stays asleep. Without a
  timeout \<open>expired\<close> is always false.
\<close>

definition join_wait ::
  "bool \<Rightarrow> ThreadManager \<Rightarrow> (ThreadError \<times> ThreadManager \<times> nat option) option" where
  "join_wait expired tm =
     (if worker_finished tm then Some (ThreadManager_CompleteJoin tm)
      else if expired then Some (JOIN_TIMEOUT, tm, None)
      else None)"

definition ThreadManager_Join ::
  "ThreadManager \<Rightarrow> (ThreadError \<times> ThreadManager \<times> nat option) option" where
  "ThreadManager_Join tm =
     (if \<not> tm_running tm then Some (Thread_NOT_RUNNING, tm, None) else join_wait False tm)"

definition ThreadManager_JoinFor ::
  "bool \<Rightarrow> ThreadManager \<Rightarrow> (ThreadError \<times> ThreadManager \<times> nat option) option" where
  "ThreadManager_JoinFor expired tm =
     (if \<not> tm_running tm then Some (Thread_NOT_RUNNING, tm, None) else join_wait expired tm)"

definition ThreadManager_IsRunning :: "ThreadManager \<Rightarrow> bool" where
  "ThreadManager_IsRunning tm = tm_running tm"

definition ThreadManager_IsCurrentThread :: "nat \<Rightarrow> ThreadManager \<Rightarrow> bool" where
  "ThreadManager_IsCurrentThread me tm \<longleftrightarrow> tm_running tm \<and> worker_thread tm = Some me"

definition ThreadManager_Detach :: "ThreadManager \<Rightarrow> ThreadManager" where
  "ThreadManager_Detach tm =
     (if worker_thread tm \<noteq> None then tm\<lparr>worker_thread := None, tm_running := False\<rparr> else tm)"

lemmas tm_op_defs = ThreadManager_Start_def ThreadManager_Start_unnamed_def worker_epilogue_def
  ThreadManager_Stop_def ThreadManager_CompleteJoin_def join_wait_def ThreadManager_Join_def
  ThreadManager_JoinFor_def ThreadManager_Detach_def

section \<open>The manager, its threads and its callers\<close>

text \<open>The life of an operating-system thread the manager created.\<close>

datatype Life = Unborn | Working | Signalled | Exited

text \<open>A caller of \<open>Join\<close>: outside, asleep (with or without a timeout), or in \<open>std::thread::join\<close>.\<close>

datatype Caller = Away | Sleeping bool | Reaping nat

record ThreadSys =
  manager :: ThreadManager
  life :: "nat \<Rightarrow> Life"
  caller :: "nat \<Rightarrow> Caller"
  fresh :: nat
  reaped :: "nat list"
  ever_detached :: bool

definition after_wait :: "(ThreadError \<times> ThreadManager \<times> nat option) option \<Rightarrow> bool \<Rightarrow> Caller" where
  "after_wait r timed = (case r of None \<Rightarrow> Sleeping timed
     | Some (e, tm, None) \<Rightarrow> Away | Some (e, tm, Some tid) \<Rightarrow> Reaping tid)"

definition tm_after :: "(ThreadError \<times> ThreadManager \<times> nat option) option \<Rightarrow> ThreadManager \<Rightarrow> ThreadManager" where
  "tm_after r tm = (case r of None \<Rightarrow> tm | Some (e, tm', t) \<Rightarrow> tm')"

inductive thread_step :: "ThreadSys \<Rightarrow> ThreadSys \<Rightarrow> bool" where
  start: "ThreadManager_Start name callable created (fresh s) (manager s) = Some (e, tm) \<Longrightarrow>
     thread_step s (s\<lparr>manager := tm, fresh := Suc (fresh s),
       life := (if e = Thread_SUCCESS then (life s)(fresh s := Working) else life s)\<rparr>)"
| stop: "thread_step s (s\<lparr>manager := snd (ThreadManager_Stop (manager s))\<rparr>)"
| worker_returns: "life s t = Working \<Longrightarrow>
     thread_step s (s\<lparr>manager := worker_epilogue (manager s), life := (life s)(t := Signalled)\<rparr>)"
| thread_exits: "life s t = Signalled \<Longrightarrow> thread_step s (s\<lparr>life := (life s)(t := Exited)\<rparr>)"
| join: "caller s c = Away \<Longrightarrow> r = ThreadManager_JoinFor expired (manager s) \<Longrightarrow>
     (expired \<longrightarrow> timed) \<Longrightarrow>
     thread_step s (s\<lparr>manager := tm_after r (manager s), caller := (caller s)(c := after_wait r timed)\<rparr>)"
| join_wakes: "caller s c = Sleeping timed \<Longrightarrow> r = join_wait expired (manager s) \<Longrightarrow>
     (expired \<longrightarrow> timed) \<Longrightarrow>
     thread_step s (s\<lparr>manager := tm_after r (manager s), caller := (caller s)(c := after_wait r timed)\<rparr>)"
| joined: "caller s c = Reaping t \<Longrightarrow> life s t = Exited \<Longrightarrow>
     thread_step s (s\<lparr>caller := (caller s)(c := Away), reaped := t # reaped s\<rparr>)"
| detach: "thread_step s (s\<lparr>manager := ThreadManager_Detach (manager s),
       ever_detached := (ever_detached s \<or> worker_thread (manager s) \<noteq> None)\<rparr>)"

definition thread_sys_init :: "ThreadSys \<Rightarrow> bool" where
  "thread_sys_init s \<longleftrightarrow> manager s = ThreadManager_new \<and> life s = (\<lambda>_. Unborn) \<and>
     caller s = (\<lambda>_. Away) \<and> reaped s = [] \<and> \<not> ever_detached s"

text \<open>A thread handle is in one place at a time: the member, one caller, or reaped.\<close>

definition handles_ok :: "ThreadSys \<Rightarrow> bool" where
  "handles_ok s \<longleftrightarrow>
     (tm_running (manager s) \<longleftrightarrow> worker_thread (manager s) \<noteq> None) \<and>
     (\<forall>t. worker_thread (manager s) = Some t \<longrightarrow> t < fresh s \<and> t \<notin> set (reaped s) \<and>
        (\<forall>c. caller s c \<noteq> Reaping t)) \<and>
     (\<forall>c t. caller s c = Reaping t \<longrightarrow> t < fresh s \<and> t \<notin> set (reaped s) \<and>
        (\<forall>d. d \<noteq> c \<longrightarrow> caller s d \<noteq> Reaping t)) \<and>
     distinct (reaped s) \<and> (\<forall>t \<in> set (reaped s). t < fresh s) \<and>
     (\<forall>t. life s t \<noteq> Unborn \<longrightarrow> t < fresh s)"

text \<open>As long as nothing is detached, a running worker is the one the manager holds.\<close>

definition workers_ok :: "ThreadSys \<Rightarrow> bool" where
  "workers_ok s \<longleftrightarrow>
     (\<forall>t. life s t = Working \<longrightarrow> worker_thread (manager s) = Some t \<and> \<not> worker_finished (manager s))"

definition thread_sys_inv :: "ThreadSys \<Rightarrow> bool" where
  "thread_sys_inv s \<longleftrightarrow> handles_ok s \<and> (\<not> ever_detached s \<longrightarrow> workers_ok s)"

section \<open>Invariant\<close>

lemma join_wait_cases:
  assumes "tm_running tm \<longleftrightarrow> worker_thread tm \<noteq> None"
  obtains (none) "tm_after (join_wait b tm) tm = tm" "after_wait (join_wait b tm) timed \<in> {Away, Sleeping timed}"
  | (take) tid where "worker_finished tm" "worker_thread tm = Some tid"
      "tm_after (join_wait b tm) tm = tm\<lparr>worker_thread := None, tm_running := False\<rparr>"
      "after_wait (join_wait b tm) timed = Reaping tid"
  using assms
  by (cases "worker_finished tm"; cases "worker_thread tm"; cases b)
    (auto simp: join_wait_def tm_after_def after_wait_def ThreadManager_CompleteJoin_def)

lemma joinFor_cases:
  assumes "tm_running tm \<longleftrightarrow> worker_thread tm \<noteq> None"
  obtains (none) "tm_after (ThreadManager_JoinFor b tm) tm = tm"
      "after_wait (ThreadManager_JoinFor b tm) timed \<in> {Away, Sleeping timed}"
  | (take) tid where "worker_finished tm" "worker_thread tm = Some tid"
      "tm_after (ThreadManager_JoinFor b tm) tm = tm\<lparr>worker_thread := None, tm_running := False\<rparr>"
      "after_wait (ThreadManager_JoinFor b tm) timed = Reaping tid"
proof (cases "tm_running tm")
  case True
  then have eq: "ThreadManager_JoinFor b tm = join_wait b tm" by (simp add: ThreadManager_JoinFor_def)
  show thesis
    using assms by (cases rule: join_wait_cases [where b = b and timed = timed]) (use that eq in auto)
next
  case False
  then show thesis
    using that(1) by (simp add: ThreadManager_JoinFor_def tm_after_def after_wait_def)
qed

lemma inv_caller_idle:
  assumes "thread_sys_inv s" "p = Away \<or> p = Sleeping b"
  shows "thread_sys_inv (s\<lparr>caller := (caller s)(c := p)\<rparr>)"
  using assms by (auto simp: thread_sys_inv_def handles_ok_def workers_ok_def)

lemma inv_caller_take:
  assumes inv: "thread_sys_inv s" and "worker_finished (manager s)"
    "worker_thread (manager s) = Some tid"
  shows "thread_sys_inv (s\<lparr>manager := (manager s)\<lparr>worker_thread := None, tm_running := False\<rparr>,
    caller := (caller s)(c := Reaping tid)\<rparr>)"
  using assms by (auto simp: thread_sys_inv_def handles_ok_def workers_ok_def)

lemma start_outcome:
  assumes "ThreadManager_Start name callable created tid tm = Some (e, tm')"
  shows "(e \<noteq> Thread_SUCCESS \<and> tm' = tm) \<or>
   (e \<noteq> Thread_SUCCESS \<and> \<not> tm_running tm \<and>
      tm' = tm\<lparr>stop_token := StopToken_Reset (stop_token tm), worker_finished := False,
        thread_name := NormalizeName name, tm_running := False\<rparr>) \<or>
   (e = Thread_SUCCESS \<and> \<not> tm_running tm \<and> worker_thread tm = None \<and>
      tm' = tm\<lparr>stop_token := StopToken_Reset (stop_token tm), worker_finished := False,
        thread_name := NormalizeName name, worker_thread := Some tid, tm_running := True\<rparr>)"
proof (cases "\<not> callable \<or> tm_running tm")
  case True
  with assms show ?thesis by (auto simp: ThreadManager_Start_def split: if_splits)
next
  case False
  then show ?thesis
  using assms by (cases created; cases "worker_thread tm") (simp_all add: ThreadManager_Start_def Let_def)
qed

lemma handles_less_Suc: "handles_ok s \<Longrightarrow> handles_ok (s\<lparr>fresh := Suc (fresh s)\<rparr>)"
  by (auto simp: handles_ok_def less_Suc_eq)

lemma workers_ok_unique:
  assumes "workers_ok s" "life s t = Working" "life s u = Working"
  shows "t = u"
  using assms unfolding workers_ok_def by (metis option.inject)

text \<open>The manager's other fields play no part in who holds which thread.\<close>

lemma inv_manager_other:
  assumes "thread_sys_inv s" "worker_thread tm = worker_thread (manager s)"
    "tm_running tm = tm_running (manager s)"
    "worker_finished tm \<longrightarrow> worker_finished (manager s)"
  shows "thread_sys_inv (s\<lparr>manager := tm\<rparr>)"
  using assms unfolding thread_sys_inv_def handles_ok_def workers_ok_def by auto

lemma inv_fresh: "thread_sys_inv s \<Longrightarrow> thread_sys_inv (s\<lparr>fresh := Suc (fresh s)\<rparr>)"
  using handles_less_Suc [of s] by (simp add: thread_sys_inv_def workers_ok_def)

lemma inv_start:
  assumes inv: "thread_sys_inv s"
    and st: "ThreadManager_Start name callable created (fresh s) (manager s) = Some (e, tm)"
  shows "thread_sys_inv (s\<lparr>manager := tm, fresh := Suc (fresh s),
    life := (if e = Thread_SUCCESS then (life s)(fresh s := Working) else life s)\<rparr>)"
proof (cases "e = Thread_SUCCESS")
  case False
  then have "thread_sys_inv (s\<lparr>manager := tm\<rparr>)"
    using start_outcome [OF st] by (intro inv_manager_other [OF inv]) auto
  with False inv_fresh [of "s\<lparr>manager := tm\<rparr>"] show ?thesis by simp
next
  case True
  with start_outcome [OF st] have tm: "worker_thread (manager s) = None"
    "worker_thread tm = Some (fresh s)" "tm_running tm" "\<not> worker_finished tm"
    by auto
  have h: "handles_ok s" using inv by (simp add: thread_sys_inv_def)
  then have nw: "fresh s \<notin> set (reaped s)" "caller s c \<noteq> Reaping (fresh s)" for c
    unfolding handles_ok_def by blast+
  have "\<not> ever_detached s \<Longrightarrow> life s t \<noteq> Working" for t
    using inv tm(1) by (auto simp: thread_sys_inv_def workers_ok_def)
  then have "\<not> ever_detached s \<Longrightarrow> workers_ok (s\<lparr>manager := tm, fresh := Suc (fresh s),
      life := (life s)(fresh s := Working)\<rparr>)"
    using tm by (simp add: workers_ok_def)
  moreover have "handles_ok (s\<lparr>manager := tm, fresh := Suc (fresh s),
      life := (life s)(fresh s := Working)\<rparr>)"
    using handles_less_Suc [OF h] nw tm by (simp add: handles_ok_def)
  ultimately show ?thesis using True by (simp add: thread_sys_inv_def)
qed

lemma inv_worker_returns:
  assumes "life s t = Working" "thread_sys_inv s"
  shows "thread_sys_inv (s\<lparr>manager := worker_epilogue (manager s), life := (life s)(t := Signalled)\<rparr>)"
proof -
  have "u = t" if "\<not> ever_detached s" "life s u = Working" for u
    using assms that workers_ok_unique [of s u t] by (simp add: thread_sys_inv_def)
  then have "\<not> ever_detached s \<Longrightarrow>
      workers_ok (s\<lparr>manager := worker_epilogue (manager s), life := (life s)(t := Signalled)\<rparr>)"
    unfolding workers_ok_def by auto
  moreover have "handles_ok (s\<lparr>manager := worker_epilogue (manager s), life := (life s)(t := Signalled)\<rparr>)"
    using assms by (simp add: thread_sys_inv_def handles_ok_def worker_epilogue_def)
  ultimately show ?thesis by (simp add: thread_sys_inv_def)
qed

lemma inv_joined:
  assumes c: "caller s c = Reaping t" and inv: "thread_sys_inv s"
  shows "thread_sys_inv (s\<lparr>caller := (caller s)(c := Away), reaped := t # reaped s\<rparr>)"
proof -
  let ?s = "s\<lparr>caller := (caller s)(c := Away), reaped := t # reaped s\<rparr>"
  have h: "handles_ok s" using inv by (simp add: thread_sys_inv_def)
  have t: "t < fresh s" "t \<notin> set (reaped s)" "worker_thread (manager s) \<noteq> Some t"
    using h c unfolding handles_ok_def by blast+
  have d: "caller s d \<noteq> Reaping t" if "d \<noteq> c" for d
    using h c that unfolding handles_ok_def by blast
  have "t' < fresh s \<and> t' \<notin> set (reaped ?s) \<and> (\<forall>e. e \<noteq> d \<longrightarrow> caller ?s e \<noteq> Reaping t')"
    if "caller ?s d = Reaping t'" for d t'
  proof -
    have dc: "d \<noteq> c" "caller s d = Reaping t'" using that by (auto split: if_splits)
    then have "t' \<noteq> t" using d by auto
    moreover have "t' < fresh s" "t' \<notin> set (reaped s)" "\<forall>e. e \<noteq> d \<longrightarrow> caller s e \<noteq> Reaping t'"
      using h dc unfolding handles_ok_def by blast+
    ultimately show ?thesis by simp
  qed
  then have "handles_ok ?s"
    using h t unfolding handles_ok_def by (simp, metis)
  then show ?thesis using inv by (simp add: thread_sys_inv_def workers_ok_def)
qed

lemma thread_sys_inv_step: "thread_step s s' \<Longrightarrow> thread_sys_inv s \<Longrightarrow> thread_sys_inv s'"
proof (induction rule: thread_step.induct)
  case (start name callable created s e tm)
  then show ?case by (blast intro: inv_start)
next
  case (stop s)
  then show ?case
    by (simp add: thread_sys_inv_def handles_ok_def workers_ok_def ThreadManager_Stop_def)
next
  case (worker_returns s t)
  then show ?case by (rule inv_worker_returns)
next
  case (thread_exits s t)
  then show ?case by (auto simp: thread_sys_inv_def handles_ok_def workers_ok_def)
next
  case (join s c r expired timed)
  then have "tm_running (manager s) \<longleftrightarrow> worker_thread (manager s) \<noteq> None"
    by (simp add: thread_sys_inv_def handles_ok_def)
  then show ?case
    using join(2) inv_caller_idle [OF join(4)] inv_caller_take [OF join(4)]
    by (cases rule: joinFor_cases [where b = expired and timed = timed]) auto
next
  case (join_wakes s c timed r expired)
  then have "tm_running (manager s) \<longleftrightarrow> worker_thread (manager s) \<noteq> None"
    by (simp add: thread_sys_inv_def handles_ok_def)
  then show ?case
    using join_wakes(2) inv_caller_idle [OF join_wakes(4)] inv_caller_take [OF join_wakes(4)]
    by (cases rule: join_wait_cases [where b = expired and timed = timed]) auto
next
  case (joined s c t)
  then show ?case by (blast intro: inv_joined)
next
  case (detach s)
  then show ?case
    by (auto simp: thread_sys_inv_def handles_ok_def workers_ok_def ThreadManager_Detach_def)
qed

lemma thread_sys_inv_init: "thread_sys_init s \<Longrightarrow> thread_sys_inv s"
  by (auto simp: thread_sys_init_def thread_sys_inv_def handles_ok_def workers_ok_def
      ThreadManager_new_def)

interpretation thread_sys: inductive_invariant thread_sys_init thread_step thread_sys_inv
  by unfold_locales (rule thread_sys_inv_init, assumption, rule thread_sys_inv_step)


section \<open>Properties\<close>

definition thread_start_state :: ThreadSys where
  "thread_start_state = \<lparr>manager = ThreadManager_new, life = (\<lambda>_. Unborn), caller = (\<lambda>_. Away),
     fresh = 0, reaped = [], ever_detached = False\<rparr>"

lemma thread_start_reaches: "reaches thread_sys_init thread_step thread_start_state"
  by (rule reaches_init) (simp add: thread_sys_init_def thread_start_state_def)

text \<open>A run in which one worker is started and finishes, and caller 5 joins it.\<close>

definition thread_example :: ThreadSys where
  "thread_example = thread_start_state\<lparr>
     manager := ThreadManager_new\<lparr>thread_name := ''cam'', worker_finished := True\<rparr>,
     life := (\<lambda>_. Unborn)(0 := Signalled), caller := (\<lambda>_. Away)(5 := Reaping 0), fresh := 1\<rparr>"

lemma thread_example_reaches: "reaches thread_sys_init thread_step thread_example"
proof -
  let ?m1 = "ThreadManager_new\<lparr>thread_name := ''cam'', worker_thread := Some 0, tm_running := True\<rparr>"
  let ?s1 = "thread_start_state\<lparr>manager := ?m1, fresh := 1, life := (\<lambda>_. Unborn)(0 := Working)\<rparr>"
  let ?s2 = "?s1\<lparr>manager := worker_epilogue ?m1, life := (\<lambda>_. Unborn)(0 := Signalled)\<rparr>"
  have "ThreadManager_Start ''cam'' True True (fresh thread_start_state)
      (manager thread_start_state) = Some (Thread_SUCCESS, ?m1)"
    by (simp add: ThreadManager_Start_def thread_start_state_def ThreadManager_new_def
        NormalizeName_def MAX_THREAD_NAME_LENGTH_def StopToken_Reset_def StopToken_new_def)
  from thread_step.start [OF this] have "thread_step thread_start_state ?s1"
    by (simp add: thread_start_state_def)
  with thread_start_reaches have 1: "reaches thread_sys_init thread_step ?s1"
    by (rule reaches_step)
  have "life ?s1 0 = Working" by simp
  from thread_step.worker_returns [OF this] have "thread_step ?s1 ?s2" by simp
  with 1 have 2: "reaches thread_sys_init thread_step ?s2" by (rule reaches_step)
  have "caller ?s2 5 = Away" by (simp add: thread_start_state_def)
  from thread_step.join [OF this refl, of False False] have "thread_step ?s2 thread_example"
    by (simp add: tm_op_defs tm_after_def after_wait_def thread_example_def thread_start_state_def
        ThreadManager_new_def)
  with 2 show ?thesis by (rule reaches_step)
qed

text \<open>C13: \<open>Join\<close> waits for the worker on the condition variable only. As long as no worker was
  detached, a caller that has left the wait and is inside \<open>std::thread::join\<close> joins a thread
  whose worker function has already returned, so \<open>Join(timeout)\<close> cannot outlast its timeout by
  waiting for user code; and at most one worker runs at a time, the one the manager holds.\<close>

theorem thread_join_waits_no_worker:
  assumes "reaches thread_sys_init thread_step s" "\<not> ever_detached s"
  shows "(\<forall>c t. caller s c = Reaping t \<longrightarrow> life s t \<noteq> Working) \<and>
    (\<forall>t. life s t = Working \<longrightarrow> worker_thread (manager s) = Some t \<and>
       ThreadManager_IsRunning (manager s))"
proof -
  have inv: "handles_ok s" "workers_ok s"
    using thread_sys.reaches_inv [OF assms(1)] assms(2) by (auto simp: thread_sys_inv_def)
  have w: "worker_thread (manager s) = Some t" if "life s t = Working" for t
    using inv(2) that unfolding workers_ok_def by blast
  have "caller s c \<noteq> Reaping t" if "life s t = Working" for c t
    using inv(1) w [OF that] unfolding handles_ok_def by blast
  moreover have "tm_running (manager s)" if "life s t = Working" for t
    using inv(1) w [OF that] unfolding handles_ok_def by blast
  ultimately show ?thesis using w by (auto simp: ThreadManager_IsRunning_def)
qed

theorem thread_join_waits_no_worker_witness:
  "caller thread_example 5 = Reaping 0 \<and> life thread_example 0 \<noteq> Working"
proof -
  have "\<not> ever_detached thread_example" by (simp add: thread_example_def thread_start_state_def)
  from thread_join_waits_no_worker [OF thread_example_reaches this]
  show ?thesis by (simp add: thread_example_def thread_start_state_def)
qed



text \<open>\<open>Detach\<close> followed by a new \<open>Start\<close> breaks the timed join. The detached worker still runs
  its epilogue on the manager; if it finishes after the manager was started again, it marks
  the new worker as finished, and a \<open>Join\<close> then blocks in \<open>std::thread::join\<close> on a worker that
  is still running, whatever timeout it was given.\<close>

theorem thread_detach_breaks_join:
  "\<exists>s c t. reaches thread_sys_init thread_step s \<and> caller s c = Reaping t \<and> life s t = Working"
proof -
  let ?m1 = "ThreadManager_new\<lparr>thread_name := ''a'', worker_thread := Some 0, tm_running := True\<rparr>"
  let ?s1 = "thread_start_state\<lparr>manager := ?m1, fresh := 1, life := (\<lambda>_. Unborn)(0 := Working)\<rparr>"
  let ?m2 = "?m1\<lparr>worker_thread := None, tm_running := False\<rparr>"
  let ?s2 = "?s1\<lparr>manager := ?m2, ever_detached := True\<rparr>"
  let ?m3 = "?m2\<lparr>worker_thread := Some 1, tm_running := True\<rparr>"
  let ?s3 = "?s2\<lparr>manager := ?m3, fresh := 2, life := (life ?s2)(1 := Working)\<rparr>"
  let ?s4 = "?s3\<lparr>manager := worker_epilogue ?m3, life := (life ?s3)(0 := Signalled)\<rparr>"
  let ?s5 = "?s4\<lparr>manager := tm_after (ThreadManager_JoinFor True (manager ?s4)) (manager ?s4),
    caller := (caller ?s4)(7 := after_wait (ThreadManager_JoinFor True (manager ?s4)) True)\<rparr>"
  note ds = ThreadManager_Start_def thread_start_state_def ThreadManager_new_def
        NormalizeName_def MAX_THREAD_NAME_LENGTH_def StopToken_Reset_def StopToken_new_def
  have "ThreadManager_Start ''a'' True True (fresh thread_start_state) (manager thread_start_state)
      = Some (Thread_SUCCESS, ?m1)" by (simp add: ds)
  from thread_step.start [OF this] have "thread_step thread_start_state ?s1"
    by (simp add: thread_start_state_def)
  with thread_start_reaches have 1: "reaches thread_sys_init thread_step ?s1"
    by (rule reaches_step)
  have "thread_step ?s1 ?s2"
    using thread_step.detach [of ?s1] by (simp add: ThreadManager_Detach_def thread_start_state_def)
  with 1 have 2: "reaches thread_sys_init thread_step ?s2" by (rule reaches_step)
  have "ThreadManager_Start ''a'' True True (fresh ?s2) (manager ?s2) = Some (Thread_SUCCESS, ?m3)"
    by (simp add: ds)
  from thread_step.start [OF this] have "thread_step ?s2 ?s3" by (simp add: numeral_2_eq_2)
  with 2 have 3: "reaches thread_sys_init thread_step ?s3" by (rule reaches_step)
  have "life ?s3 0 = Working" by simp
  from thread_step.worker_returns [OF this] have "thread_step ?s3 ?s4" by simp
  with 3 have 4: "reaches thread_sys_init thread_step ?s4" by (rule reaches_step)
  have "caller ?s4 7 = Away" by (simp add: thread_start_state_def)
  from thread_step.join [OF this refl, of True True] have "thread_step ?s4 ?s5" by simp
  with 4 have "reaches thread_sys_init thread_step ?s5" by (rule reaches_step)
  moreover have "caller ?s5 7 = Reaping 1" "life ?s5 1 = Working"
    by (simp_all add: tm_op_defs after_wait_def)
  ultimately show ?thesis by blast
qed

text \<open>Thread names fit the kernel's limit: whatever name is asked for, the normalised name is
  not empty, has at most 15 characters, is a prefix of the request (or \<open>worker\<close>), and short
  names are kept.\<close>

theorem thread_name_bounds:
  "NormalizeName raw \<noteq> [] \<and> length (NormalizeName raw) \<le> 15 \<and>
    NormalizeName (NormalizeName raw) = NormalizeName raw \<and>
    (if raw = [] then NormalizeName raw = ''worker''
     else NormalizeName raw = take 15 raw)"
  by (auto simp: NormalizeName_def MAX_THREAD_NAME_LENGTH_def)

end
