(* ===== verification/Event_Bus.thy ===== *)
theory Event_Bus
  imports Firmware_Prelude "HOL-Library.Sublist"
begin

text \<open>
  \<open>framework/event\<close>: the synchronous publish/subscribe bus and its RAII handles. Event types
  are numbers (\<open>std::type_index\<close>), a subscriber is any value \<open>'cb\<close> that stands for its
  callable. What a callback does is a parameter \<open>call\<close> of \<open>Publish\<close>: it may run any sequence of
  bus operations, its own or those of other threads in between, and may throw. The state of a
  thread that publishes is a record that clients extend with their own fields.
\<close>

section \<open>Data\<close>

datatype EventError = Event_SUCCESS | Event_INVALID_ARGUMENT | SUBSCRIBER_LIMIT_REACHED
  | REENTRANT_PUBLISH | Event_NOT_FOUND

definition kMaxSubscribers :: nat where
  "kMaxSubscribers = 128"

record 'cb SubscriberEntry =
  sub_id :: u64
  subscriber :: 'cb

text \<open>
  \<open>EventBus::State\<close>. The hash map is the list of its buckets in iteration order.
\<close>

record 'cb BusState =
  subscribers :: "(nat \<times> 'cb SubscriberEntry list) list"
  next_id :: u64
  total_subscribers :: nat

text \<open>A \<open>Subscription\<close>: whether its weak pointer refers to a state block, and the id.\<close>

record Subscription =
  has_state :: bool
  handle_id :: u64

text \<open>
  A publishing thread: the bus, the thread-local flag, the lines on standard error and the
  calls made so far, newest last (a history no code reads).
\<close>

record 'cb BusWorld =
  bus :: "'cb BusState"
  dispatching :: bool
  bus_stderr :: "string list"
  calls :: "'cb list"

datatype Outcome = Returned | Threw_std string | Threw_unknown

section \<open>Subscriber table\<close>

definition BusState_new :: "'cb BusState" where
  "BusState_new = \<lparr>subscribers = [], next_id = 1, total_subscribers = 0\<rparr>"

fun add_entry ::
  "nat \<Rightarrow> 'e \<Rightarrow> (nat \<times> 'e list) list \<Rightarrow> (nat \<times> 'e list) list" where
  "add_entry ty e [] = [(ty, [e])]"
| "add_entry ty e ((t, es) # bs) =
     (if t = ty then (t, es @ [e]) # bs else (t, es) # add_entry ty e bs)"

text \<open>The inner loop: the vector without its first entry of that id, if it has one.\<close>

fun erase_id :: "u64 \<Rightarrow> 'cb SubscriberEntry list \<Rightarrow> 'cb SubscriberEntry list option" where
  "erase_id i [] = None"
| "erase_id i (e # es) = (if sub_id e = i then Some es else map_option ((#) e) (erase_id i es))"

fun erase_from ::
  "u64 \<Rightarrow> (nat \<times> 'cb SubscriberEntry list) list \<Rightarrow>
   (nat \<times> 'cb SubscriberEntry list) list option" where
  "erase_from i [] = None"
| "erase_from i ((t, es) # bs) =
     (case erase_id i es of
        Some es' \<Rightarrow> Some ((t, es') # bs)
      | None \<Rightarrow> map_option ((#) (t, es)) (erase_from i bs))"

definition RemoveSubscriberFromState :: "u64 \<Rightarrow> 'cb BusState \<Rightarrow> 'cb BusState" where
  "RemoveSubscriberFromState i b =
     (case erase_from i (subscribers b) of
        None \<Rightarrow> b
      | Some bs \<Rightarrow> b\<lparr>subscribers := bs, total_subscribers := total_subscribers b - 1\<rparr>)"

definition EventBus_SubscriberCount :: "'cb BusState \<Rightarrow> nat" where
  "EventBus_SubscriberCount b = total_subscribers b"

section \<open>Handles\<close>

definition Subscription_null :: Subscription where
  "Subscription_null = \<lparr>has_state = False, handle_id = 0\<rparr>"

text \<open>\<open>alive\<close>: the state block the weak pointer refers to still exists.\<close>

definition Subscription_IsValid :: "bool \<Rightarrow> Subscription \<Rightarrow> bool" where
  "Subscription_IsValid alive h \<longleftrightarrow> (has_state h \<and> alive) \<and> handle_id h \<noteq> 0"

definition Subscription_Cancel ::
  "bool \<Rightarrow> Subscription \<Rightarrow> 'cb BusState \<Rightarrow> Subscription \<times> 'cb BusState" where
  "Subscription_Cancel alive h b =
     (Subscription_null,
      if has_state h \<and> alive then RemoveSubscriberFromState (handle_id h) b else b)"

definition Subscription_destroy :: "bool \<Rightarrow> Subscription \<Rightarrow> 'cb BusState \<Rightarrow> 'cb BusState" where
  "Subscription_destroy alive h b = snd (Subscription_Cancel alive h b)"

text \<open>Move construction: the new handle and what is left of the old one.\<close>

definition Subscription_move :: "Subscription \<Rightarrow> Subscription \<times> Subscription" where
  "Subscription_move other = (other, other\<lparr>has_state := False, handle_id := 0\<rparr>)"

text \<open>Move assignment from another handle: cancel, then take over.\<close>

definition Subscription_assign ::
  "bool \<Rightarrow> Subscription \<Rightarrow> Subscription \<Rightarrow> 'cb BusState \<Rightarrow>
   Subscription \<times> Subscription \<times> 'cb BusState" where
  "Subscription_assign alive this other b =
     (let b1 = snd (Subscription_Cancel alive this b)
      in (other, other\<lparr>has_state := False, handle_id := 0\<rparr>, b1))"

text \<open>\<open>None\<close> is an empty \<open>std::function\<close>.\<close>

definition EventBus_Subscribe ::
  "nat \<Rightarrow> 'cb option \<Rightarrow> ('cb, 'z) BusWorld_scheme \<Rightarrow> Subscription \<times> ('cb, 'z) BusWorld_scheme" where
  "EventBus_Subscribe ty callback w =
     (case callback of
        None \<Rightarrow>
          (Subscription_null,
           w\<lparr>bus_stderr := bus_stderr w @ [''[EventBus] Subscribe called with empty callback'']\<rparr>)
      | Some cb \<Rightarrow>
          let b = bus w in
          if total_subscribers b \<ge> kMaxSubscribers then
            (Subscription_null,
             w\<lparr>bus_stderr := bus_stderr w @
                 [''[EventBus] subscriber limit reached ('' @ show_nat kMaxSubscribers @ '')'']\<rparr>)
          else
            let i = next_id b;
                b1 = b\<lparr>next_id := i + 1,
                       subscribers := add_entry ty \<lparr>sub_id = i, subscriber = cb\<rparr> (subscribers b),
                       total_subscribers := total_subscribers b + 1\<rparr>
            in (\<lparr>has_state = True, handle_id = i\<rparr>, w\<lparr>bus := b1\<rparr>))"

section \<open>Publish\<close>

fun note_outcome :: "Outcome \<Rightarrow> ('cb, 'z) BusWorld_scheme \<Rightarrow> ('cb, 'z) BusWorld_scheme" where
  "note_outcome Returned w = w"
| "note_outcome (Threw_std what) w =
     w\<lparr>bus_stderr := bus_stderr w @ [''[EventBus] subscriber threw std::exception: '' @ what]\<rparr>"
| "note_outcome Threw_unknown w =
     w\<lparr>bus_stderr := bus_stderr w @ [''[EventBus] subscriber threw unknown exception'']\<rparr>"

type_synonym ('cb, 'ev, 'z) callback =
  "'cb \<Rightarrow> 'ev \<Rightarrow> ('cb, 'z) BusWorld_scheme \<Rightarrow> ('cb, 'z) BusWorld_scheme \<times> Outcome"

fun dispatch ::
  "('cb, 'ev, 'z) callback \<Rightarrow> 'ev \<Rightarrow> 'cb list \<Rightarrow> ('cb, 'z) BusWorld_scheme \<Rightarrow>
   ('cb, 'z) BusWorld_scheme" where
  "dispatch call ev [] w = w"
| "dispatch call ev (cb # cbs) w =
     (case call cb ev (w\<lparr>calls := calls w @ [cb]\<rparr>) of
        (w', out) \<Rightarrow> dispatch call ev cbs (note_outcome out w'))"

definition EventBus_Publish ::
  "('cb, 'ev, 'z) callback \<Rightarrow> nat \<Rightarrow> 'ev \<Rightarrow> ('cb, 'z) BusWorld_scheme \<Rightarrow>
   EventError \<times> ('cb, 'z) BusWorld_scheme" where
  "EventBus_Publish call ty ev w =
     (if dispatching w then (REENTRANT_PUBLISH, w)
      else
        case map_of (subscribers (bus w)) ty of
          None \<Rightarrow> (Event_SUCCESS, w)
        | Some es \<Rightarrow>
            let snapshot = map subscriber es;
                w1 = dispatch call ev snapshot (w\<lparr>dispatching := True\<rparr>)
            in (Event_SUCCESS, w1\<lparr>dispatching := False\<rparr>))"

section \<open>What a callback may do\<close>

text \<open>
  One step of the code a callback runs, or of another thread meanwhile: subscribe, cancel, or
  anything that leaves the bus alone (a nested publish among them: \<open>publish_rejected\<close>). The id counter does not wrap: the
  theory covers runs of fewer than \<open>2 ^ 64 - 1\<close> subscriptions.
\<close>

inductive bus_api :: "('cb, 'z) BusWorld_scheme \<Rightarrow> ('cb, 'z) BusWorld_scheme \<Rightarrow> bool" where
  api_subscribe: "next_id (bus w) + 1 \<noteq> 0 \<Longrightarrow>
     bus_api w (snd (EventBus_Subscribe ty cb w))"
| api_cancel: "bus_api w (w\<lparr>bus := snd (Subscription_Cancel alive h (bus w))\<rparr>)"
| api_other: "bus_api w w'" if "bus w' = bus w" "dispatching w' = dispatching w" "calls w' = calls w"

section \<open>Well-formed tables\<close>

definition all_entries :: "'cb BusState \<Rightarrow> 'cb SubscriberEntry list" where
  "all_entries b = concat (map snd (subscribers b))"

definition entries_of :: "nat \<Rightarrow> 'cb BusState \<Rightarrow> 'cb SubscriberEntry list" where
  "entries_of ty b = (case map_of (subscribers b) ty of None \<Rightarrow> [] | Some es \<Rightarrow> es)"

definition bus_inv :: "'cb BusState \<Rightarrow> bool" where
  "bus_inv b \<longleftrightarrow>
     total_subscribers b = length (all_entries b) \<and>
     total_subscribers b \<le> kMaxSubscribers \<and>
     distinct (map fst (subscribers b)) \<and>
     next_id b \<noteq> 0 \<and>
     (\<forall>e \<in> set (all_entries b). sub_id e \<noteq> 0 \<and> sub_id e < next_id b) \<and>
     distinct (map sub_id (all_entries b)) \<and>
     (\<forall>(ty, es) \<in> set (subscribers b). sorted_wrt (<) (map sub_id es))"

lemmas bus_op_defs = EventBus_Subscribe_def Subscription_Cancel_def RemoveSubscriberFromState_def

section \<open>Lemmas on the table\<close>

lemma add_entry_fst: "fst ` set (add_entry ty e bs) = insert ty (fst ` set bs)"
  by (induction ty e bs rule: add_entry.induct) (simp_all, blast)

lemma add_entry_distinct: "distinct (map fst bs) \<Longrightarrow> distinct (map fst (add_entry ty e bs))"
  by (induction ty e bs rule: add_entry.induct) (auto simp: add_entry_fst)

lemma add_entry_length:
  "length (concat (map snd (add_entry ty e bs))) = Suc (length (concat (map snd bs)))"
  by (induction bs) auto

lemma add_entry_set:
  "set (concat (map snd (add_entry ty e bs))) = insert e (set (concat (map snd bs)))"
  by (induction ty e bs rule: add_entry.induct) simp_all

lemma add_entry_map_of:
  "map_of (add_entry ty e bs) t =
    (if t = ty then Some ((case map_of bs ty of None \<Rightarrow> [] | Some es \<Rightarrow> es) @ [e])
     else map_of bs t)"
  by (induction bs) (auto split: option.splits)

lemma add_entry_ids:
  assumes "distinct (map f (concat (map snd bs)))" "f e \<notin> f ` set (concat (map snd bs))"
  shows "distinct (map f (concat (map snd (add_entry ty e bs))))"
  using assms
proof (induction bs)
  case (Cons b bs)
  obtain t es where b: "b = (t, es)" by (cases b)
  show ?case
  proof (cases "t = ty")
    case True
    with Cons.prems b show ?thesis by auto
  next
    case False
    have "distinct (map f (concat (map snd (add_entry ty e bs))))"
      using Cons by (auto simp: b)
    moreover have "f ` set es \<inter> f ` set (concat (map snd (add_entry ty e bs))) = {}"
      using Cons.prems by (subst add_entry_set) (auto simp: b)
    ultimately show ?thesis using Cons.prems False by (auto simp: b)
  qed
qed simp

lemma add_entry_sorted:
  assumes "\<forall>(t, es) \<in> set bs. sorted_wrt (<) (map f es)"
    "\<forall>x \<in> set (concat (map snd bs)). f x < f e"
  shows "\<forall>(t, es) \<in> set (add_entry ty e bs). sorted_wrt (<) (map f es)"
  using assms
  by (induction ty e bs rule: add_entry.induct) (simp_all add: sorted_wrt_append ball_Un)

lemma erase_id_filter:
  assumes "distinct (map sub_id es)"
  shows "erase_id i es =
    (if i \<in> sub_id ` set es then Some (filter (\<lambda>e. sub_id e \<noteq> i) es) else None)"
  using assms
proof (induction es)
  case (Cons e es)
  show ?case
  proof (cases "sub_id e = i")
    case True
    with Cons.prems have "filter (\<lambda>e. sub_id e \<noteq> i) es = es"
      by (intro filter_True) (metis distinct.simps(2) image_eqI list.simps(9) set_map)
    with True show ?thesis by simp
  qed (use Cons in auto)
qed simp

lemma erase_from_filter:
  assumes "distinct (map sub_id (concat (map snd bs)))"
  shows "erase_from i bs =
    (if i \<in> sub_id ` set (concat (map snd bs))
     then Some (map (\<lambda>(t, es). (t, filter (\<lambda>e. sub_id e \<noteq> i) es)) bs) else None)"
  using assms
proof (induction bs)
  case (Cons b bs)
  obtain t es where b: "b = (t, es)" by (cases b)
  from Cons.prems have d: "distinct (map sub_id es)" "distinct (map sub_id (concat (map snd bs)))"
    "sub_id ` set es \<inter> sub_id ` set (concat (map snd bs)) = {}"
    by (auto simp: b)
  show ?case
  proof (cases "i \<in> sub_id ` set es")
    case True
    with d(3) have "\<forall>e \<in> set (concat (map snd bs)). sub_id e \<noteq> i" by blast
    then have "map (\<lambda>(t, es). (t, filter (\<lambda>e. sub_id e \<noteq> i) es)) bs = bs"
      by (intro map_idI) (fastforce simp: filter_id_conv)
    with True show ?thesis by (simp add: b erase_id_filter [OF d(1)] image_Un)
  next
    case False
    then have "filter (\<lambda>e. sub_id e \<noteq> i) es = es" by (auto simp: filter_id_conv)
    with False Cons.IH [OF d(2)] show ?thesis by (auto simp: b erase_id_filter [OF d(1)])
  qed
qed simp


definition without :: "u64 \<Rightarrow> 'cb SubscriberEntry list \<Rightarrow> 'cb SubscriberEntry list" where
  "without i es = filter (\<lambda>e. sub_id e \<noteq> i) es"

lemma concat_without:
  "concat (map snd (map (\<lambda>(t, es). (t, without i es)) bs)) = without i (concat (map snd bs))"
  by (induction bs) (auto simp: without_def)

lemma without_absent: "i \<notin> sub_id ` set es \<Longrightarrow> without i es = es"
  by (auto simp: without_def filter_id_conv)

lemma length_without:
  assumes "distinct (map sub_id es)" "i \<in> sub_id ` set es"
  shows "length (without i es) = length es - 1"
  using assms
proof (induction es)
  case (Cons e es)
  show ?case
  proof (cases "sub_id e = i")
    case True
    with Cons.prems have "i \<notin> sub_id ` set es" by auto
    with True show ?thesis using without_absent [of i es] by (simp add: without_def)
  next
    case False
    with Cons have "length (without i es) = length es - 1" "es \<noteq> []" by auto
    with False show ?thesis by (simp add: without_def)
  qed
qed simp

lemma remove_spec:
  assumes "bus_inv b"
  shows "RemoveSubscriberFromState i b =
    b\<lparr>subscribers := map (\<lambda>(t, es). (t, without i es)) (subscribers b),
      total_subscribers := length (without i (all_entries b))\<rparr>"
proof -
  have d: "distinct (map sub_id (concat (map snd (subscribers b))))"
    "total_subscribers b = length (all_entries b)"
    using assms by (auto simp: bus_inv_def all_entries_def)
  show ?thesis
  proof (cases "i \<in> sub_id ` set (all_entries b)")
    case True
    with d show ?thesis
      by (simp add: RemoveSubscriberFromState_def erase_from_filter all_entries_def length_without
          flip: without_def)
  next
    case False
    then have "\<And>ty es. (ty, es) \<in> set (subscribers b) \<Longrightarrow> without i es = es"
      by (intro without_absent) (force simp: all_entries_def)
    then have "map (\<lambda>(t, es). (t, without i es)) (subscribers b) = subscribers b"
      by (intro map_idI) auto
    with False d show ?thesis
      by (simp add: RemoveSubscriberFromState_def erase_from_filter without_absent all_entries_def)
  qed
qed

lemma all_entries_remove:
  assumes "bus_inv b"
  shows "all_entries (RemoveSubscriberFromState i b) = without i (all_entries b)"
  using concat_without [of i "subscribers b"] by (simp add: remove_spec [OF assms] all_entries_def)

lemma entries_of_remove:
  assumes "bus_inv b"
  shows "entries_of ty (RemoveSubscriberFromState i b) = without i (entries_of ty b)"
proof -
  have "map_of (map (\<lambda>(t, es). (t, without i es)) bs) ty = map_option (without i) (map_of bs ty)"
    for bs :: "(nat \<times> 'a SubscriberEntry list) list"
    by (induction bs) auto
  then show ?thesis
    by (simp add: remove_spec [OF assms] entries_of_def without_def split: option.splits)
qed

section \<open>Every operation keeps the table well formed\<close>

lemma bus_inv_new [simp]: "bus_inv BusState_new"
  by (simp add: bus_inv_def BusState_new_def all_entries_def kMaxSubscribers_def)

lemma bus_inv_remove:
  assumes "bus_inv b"
  shows "bus_inv (RemoveSubscriberFromState i b)"
proof -
  have a: "all_entries (RemoveSubscriberFromState i b) = without i (all_entries b)"
    by (rule all_entries_remove [OF assms])
  have "length (without i (all_entries b)) \<le> kMaxSubscribers"
    unfolding without_def by (rule le_trans [OF length_filter_le]) (use assms in \<open>simp add: bus_inv_def\<close>)
  moreover have "distinct (map sub_id (without i (all_entries b)))"
    using assms by (simp add: bus_inv_def without_def distinct_map_filter)
  moreover have "sorted_wrt (<) (map sub_id (without i es))" if "(ty, es) \<in> set (subscribers b)" for ty es
    using assms that sorted_wrt_filter [of "\<lambda>x y. sub_id x < sub_id y" es]
    by (auto simp: bus_inv_def without_def sorted_wrt_map)
  ultimately show ?thesis
    using assms unfolding bus_inv_def a
    by (auto simp: remove_spec [OF assms] without_def comp_def case_prod_beta)
qed

lemma word_less_next: "(x :: u64) < n \<Longrightarrow> n + 1 \<noteq> 0 \<Longrightarrow> x < n + 1"
  by unat_arith

lemma bus_inv_subscribe:
  assumes inv: "bus_inv (bus w)" and nw: "next_id (bus w) + 1 \<noteq> 0"
  shows "bus_inv (bus (snd (EventBus_Subscribe ty cb w)))"
proof (cases "cb = None \<or> total_subscribers (bus w) \<ge> kMaxSubscribers")
  case True
  with inv show ?thesis by (auto simp: EventBus_Subscribe_def Let_def split: option.splits)
next
  case False
  then obtain c where c: "cb = Some c" "total_subscribers (bus w) < kMaxSubscribers" by auto
  define b where "b = bus w"
  note inv = inv [folded b_def] and nw = nw [folded b_def] and c = c [folded b_def]
  let ?e = "\<lparr>sub_id = next_id b, subscriber = c\<rparr>"
  let ?bs = "subscribers b"
  have lt: "next_id b < next_id b + 1" using nw by unat_arith
  have ids: "\<forall>e \<in> set (concat (map snd ?bs)). sub_id e \<noteq> 0 \<and> sub_id e < next_id b"
    using inv by (simp add: bus_inv_def all_entries_def)
  have "distinct (map sub_id (concat (map snd (add_entry ty ?e ?bs))))"
  proof (rule add_entry_ids)
    show "distinct (map sub_id (concat (map snd ?bs)))"
      using inv by (simp add: bus_inv_def all_entries_def)
    show "sub_id ?e \<notin> sub_id ` set (concat (map snd ?bs))" using ids by fastforce
  qed
  moreover have "\<forall>(t, es) \<in> set (add_entry ty ?e ?bs). sorted_wrt (<) (map sub_id es)"
    using inv ids by (intro add_entry_sorted) (auto simp: bus_inv_def)
  moreover have "\<forall>e \<in> set (concat (map snd (add_entry ty ?e ?bs))).
      sub_id e \<noteq> 0 \<and> sub_id e < next_id b + 1"
    using ids inv lt nw word_less_next unfolding add_entry_set by (auto simp: bus_inv_def)
  moreover have "distinct (map fst (add_entry ty ?e ?bs))"
    using inv by (simp add: bus_inv_def add_entry_distinct)
  moreover have "length (concat (map snd (add_entry ty ?e ?bs))) = Suc (total_subscribers b)"
    using inv by (simp only: add_entry_length) (simp add: bus_inv_def all_entries_def)
  ultimately show ?thesis
    using c nw by (simp add: EventBus_Subscribe_def bus_inv_def all_entries_def Let_def flip: b_def)
qed

lemma bus_inv_api: "bus_api w w' \<Longrightarrow> bus_inv (bus w) \<Longrightarrow> bus_inv (bus w')"
  by (induction rule: bus_api.induct)
    (auto simp: Subscription_Cancel_def
      intro: bus_inv_subscribe bus_inv_remove)

lemma api_frame: "bus_api w w' \<Longrightarrow> dispatching w \<Longrightarrow> dispatching w' \<and> calls w' = calls w"
  by (induction rule: bus_api.induct)
    (auto simp: EventBus_Subscribe_def Let_def split: option.splits)

lemma publish_rejected: "dispatching w \<Longrightarrow> EventBus_Publish call ty ev w = (REENTRANT_PUBLISH, w)"
  by (simp add: EventBus_Publish_def)

lemma apis_frame: "bus_api\<^sup>*\<^sup>* w w' \<Longrightarrow> dispatching w \<Longrightarrow> dispatching w' \<and> calls w' = calls w"
  by (induction rule: rtranclp_induct) (auto dest: api_frame)

definition bus_world_init :: "('cb, 'z) BusWorld_scheme \<Rightarrow> bool" where
  "bus_world_init w \<longleftrightarrow> bus w = BusState_new"

interpretation bus_sys: inductive_invariant bus_world_init bus_api "\<lambda>w. bus_inv (bus w)"
  by unfold_locales (simp add: bus_world_init_def, rule bus_inv_api)

section \<open>Clients of the bus\<close>

text \<open>
  The contract between the bus and the code it calls: while a dispatch is running, a callback
  acts on the bus through its operations only.
\<close>

locale bus_client =
  fixes call :: "('cb, 'ev, 'z) callback"
  assumes api_only: "dispatching w \<Longrightarrow> bus_api\<^sup>*\<^sup>* w (fst (call cb ev w))"
begin

lemma note_outcome_frame:
  "bus (note_outcome out w) = bus w" "dispatching (note_outcome out w) = dispatching w"
  "calls (note_outcome out w) = calls w" for w :: "('cb, 'z) BusWorld_scheme"
  by (cases out; simp)+

lemma dispatch_frame:
  "dispatching w \<Longrightarrow>
    dispatching (dispatch call ev cbs w) \<and> calls (dispatch call ev cbs w) = calls w @ cbs"
proof (induction cbs arbitrary: w)
  case (Cons cb cbs)
  obtain w1 out where c: "call cb ev (w\<lparr>calls := calls w @ [cb]\<rparr>) = (w1, out)" by fastforce
  then have "bus_api\<^sup>*\<^sup>* (w\<lparr>calls := calls w @ [cb]\<rparr>) w1"
    using api_only [of "w\<lparr>calls := calls w @ [cb]\<rparr>" cb ev] Cons.prems by simp
  from apis_frame [OF this] Cons.prems have "dispatching w1" "calls w1 = calls w @ [cb]" by auto
  with Cons.IH [of "note_outcome out w1"] c show ?case by (simp add: note_outcome_frame)
qed simp

lemma dispatch_inv:
  "dispatching w \<Longrightarrow> bus_inv (bus w) \<Longrightarrow> bus_inv (bus (dispatch call ev cbs w))"
proof (induction cbs arbitrary: w)
  case (Cons cb cbs)
  obtain w1 out where c: "call cb ev (w\<lparr>calls := calls w @ [cb]\<rparr>) = (w1, out)" by fastforce
  then have a: "bus_api\<^sup>*\<^sup>* (w\<lparr>calls := calls w @ [cb]\<rparr>) w1"
    using api_only [of "w\<lparr>calls := calls w @ [cb]\<rparr>" cb ev] Cons.prems by simp
  from apis_frame [OF a] Cons.prems have "dispatching w1" by auto
  moreover have "bus_inv (bus w1)" using bus_sys.steps_inv [OF a] Cons.prems by simp
  ultimately show ?case using Cons.IH [of "note_outcome out w1"] c by (simp add: note_outcome_frame)
qed simp

lemma publish_delivers:
  assumes "\<not> dispatching w" "bus_inv (bus w)" "EventBus_Publish call ty ev w = (e, w')"
  shows "e = Event_SUCCESS \<and> \<not> dispatching w' \<and> bus_inv (bus w') \<and>
    calls w' = calls w @ map subscriber (entries_of ty (bus w))"
proof (cases "map_of (subscribers (bus w)) ty")
  case None
  with assms show ?thesis by (simp add: EventBus_Publish_def entries_of_def)
next
  case (Some es)
  let ?w = "dispatch call ev (map subscriber es) (w\<lparr>dispatching := True\<rparr>)"
  have "bus_inv (bus ?w)" "calls ?w = calls w @ map subscriber es"
    using dispatch_frame [of "w\<lparr>dispatching := True\<rparr>" ev "map subscriber es"]
      dispatch_inv [of "w\<lparr>dispatching := True\<rparr>" ev "map subscriber es"] assms by auto
  moreover have "e = Event_SUCCESS" "w' = ?w\<lparr>dispatching := False\<rparr>"
    using assms Some by (simp_all add: EventBus_Publish_def Let_def)
  ultimately show ?thesis using Some by (simp add: entries_of_def)
qed

end

section \<open>Properties\<close>

lemma entries_sorted:
  assumes "bus_inv b"
  shows "sorted_wrt (<) (map sub_id (entries_of ty b))"
  using assms by (auto simp: bus_inv_def entries_of_def split: option.splits dest: map_of_SomeD)

lemma subscribe_entries:
  assumes "total_subscribers (bus w) < kMaxSubscribers"
  shows "entries_of t (bus (snd (EventBus_Subscribe ty (Some cb) w))) = entries_of t (bus w) @
    (if t = ty then [\<lparr>sub_id = next_id (bus w), subscriber = cb\<rparr>] else [])"
  using assms
  by (auto simp: EventBus_Subscribe_def Let_def entries_of_def add_entry_map_of split: option.splits)

lemma entries_of_subset: "set (entries_of ty b) \<subseteq> set (all_entries b)"
  by (cases "map_of (subscribers b) ty")
    (auto simp: entries_of_def all_entries_def dest!: map_of_SomeD intro!: bexI)

text \<open>A subscriber that always leaves the bus alone, and one that cancels itself and throws.\<close>

definition sample_call :: "(nat, nat, 'z) callback" where
  "sample_call cb ev w =
     (if cb = 7
      then (w\<lparr>bus := snd (Subscription_Cancel True \<lparr>has_state = True, handle_id = 1\<rparr> (bus w))\<rparr>,
            Threw_unknown)
      else (w, Returned))"

lemma sample_call_api: "bus_api\<^sup>*\<^sup>* w (fst (sample_call cb ev w))"
  by (auto simp: sample_call_def intro: r_into_rtranclp api_cancel)

definition sample_world :: "nat BusWorld" where
  "sample_world =
     snd (EventBus_Subscribe 3 (Some 8) (snd (EventBus_Subscribe 3 (Some 7)
       \<lparr>bus = BusState_new, dispatching = False, bus_stderr = [], calls = []\<rparr>)))"

lemma sample_world_reachable: "reaches bus_world_init bus_api sample_world"
proof -
  let ?w = "\<lparr>bus = BusState_new, dispatching = False, bus_stderr = [], calls = []\<rparr> :: nat BusWorld"
  have "reaches bus_world_init bus_api ?w" by (rule reaches_init) (simp add: bus_world_init_def)
  then have "reaches bus_world_init bus_api (snd (EventBus_Subscribe 3 (Some 7) ?w))"
    by (rule reaches_step) (simp add: api_subscribe BusState_new_def)
  then show ?thesis unfolding sample_world_def
    by (rule reaches_step)
      (rule api_subscribe, simp add: EventBus_Subscribe_def BusState_new_def kMaxSubscribers_def)
qed

text \<open>C10: For every reachable table and every callback behaviour that touches the bus only through
  its operations (subscribing, cancelling itself or others, throwing, publishing again), one
  \<open>Publish\<close> outside a dispatch succeeds, calls exactly the subscribers its event type had when it
  started, each once and in subscription order (strictly increasing ids), and leaves the
  re-entrancy flag clear and the table well formed.\<close>

theorem publish_calls_snapshot_in_order:
  assumes "reaches bus_world_init bus_api w" "\<not> dispatching w"
    and "\<And>cb ev w. dispatching w \<Longrightarrow> bus_api\<^sup>*\<^sup>* w (fst (call cb ev w))"
    and "EventBus_Publish call ty ev w = (e, w')"
  shows "e = Event_SUCCESS \<and> \<not> dispatching w' \<and> bus_inv (bus w') \<and>
    calls w' = calls w @ map subscriber (entries_of ty (bus w)) \<and>
    sorted_wrt (<) (map sub_id (entries_of ty (bus w)))"
proof -
  have inv: "bus_inv (bus w)" by (rule bus_sys.reaches_inv [OF assms(1)])
  have "bus_client call" by unfold_locales (rule assms(3))
  from bus_client.publish_delivers [OF this assms(2) inv assms(4)] entries_sorted [OF inv]
  show ?thesis by blast
qed

theorem publish_calls_snapshot_in_order_witness:
  "fst (EventBus_Publish sample_call 3 0 sample_world) = Event_SUCCESS \<and>
   calls (snd (EventBus_Publish sample_call 3 0 sample_world)) = [7, 8] \<and>
   entries_of 3 (bus (snd (EventBus_Publish sample_call 3 0 sample_world))) =
     [\<lparr>sub_id = 2, subscriber = 8\<rparr>]"
proof -
  have d: "\<not> dispatching sample_world"
    by (simp add: sample_world_def EventBus_Subscribe_def BusState_new_def kMaxSubscribers_def)
  show ?thesis
    using publish_calls_snapshot_in_order [OF sample_world_reachable d, where call = sample_call
        and ty = 3 and ev = 0, OF sample_call_api surjective_pairing]
    by (simp add: sample_world_def EventBus_Subscribe_def BusState_new_def kMaxSubscribers_def
        EventBus_Publish_def sample_call_def Subscription_Cancel_def RemoveSubscriberFromState_def
        entries_of_def)
qed

text \<open>In every reachable state the count the bus reports is the number of registered
  subscribers, at most 128, all with distinct non-zero ids; \<open>Subscribe\<close> with a callable returns a
  valid handle exactly when there is room, and with an empty callable or a full table it leaves
  the table unchanged and returns the null handle.\<close>

theorem bus_table_bounded:
  assumes "reaches bus_world_init bus_api w"
  shows "EventBus_SubscriberCount (bus w) = length (all_entries (bus w)) \<and>
    EventBus_SubscriberCount (bus w) \<le> kMaxSubscribers \<and>
    distinct (map sub_id (all_entries (bus w))) \<and> 0 \<notin> set (map sub_id (all_entries (bus w))) \<and>
    (Subscription_IsValid True (fst (EventBus_Subscribe ty cb w)) \<longleftrightarrow>
       cb \<noteq> None \<and> EventBus_SubscriberCount (bus w) < kMaxSubscribers) \<and>
    (\<not> Subscription_IsValid True (fst (EventBus_Subscribe ty cb w)) \<longrightarrow>
       fst (EventBus_Subscribe ty cb w) = Subscription_null \<and>
       bus (snd (EventBus_Subscribe ty cb w)) = bus w)"
  using bus_sys.reaches_inv [OF assms]
  by (auto simp: bus_inv_def EventBus_SubscriberCount_def EventBus_Subscribe_def Let_def
      Subscription_IsValid_def Subscription_null_def split: option.splits)

theorem bus_table_bounded_witness:
  "EventBus_SubscriberCount (bus sample_world) = 2 \<and>
   Subscription_IsValid True (fst (EventBus_Subscribe 4 (Some 9) sample_world))"
  using bus_table_bounded [OF sample_world_reachable, of 4 "Some 9"]
  by (simp add: sample_world_def EventBus_Subscribe_def BusState_new_def kMaxSubscribers_def
      EventBus_SubscriberCount_def Subscription_IsValid_def)

text \<open>A subscription lives until its handle is cancelled and no longer: the new subscriber is
  appended to its type and to no other, and a cancel after any further operations removes exactly
  that subscriber from every type, keeping all others in order; the cancelled handle is null,
  so cancelling or destroying it again has no effect, and a cancel right after the subscribe
  restores every type's list.\<close>

theorem subscribe_cancel_roundtrip:
  assumes "reaches bus_world_init bus_api w" "next_id (bus w) + 1 \<noteq> 0"
    and "EventBus_Subscribe ty (Some cb) w = (h, w1)" "Subscription_IsValid True h"
    and "bus_api\<^sup>*\<^sup>* w1 w2" "Subscription_Cancel True h (bus w2) = (h', b')"
  shows "entries_of t (bus w1) = entries_of t (bus w) @
      (if t = ty then [\<lparr>sub_id = handle_id h, subscriber = cb\<rparr>] else []) \<and>
    entries_of t b' = filter (\<lambda>e. sub_id e \<noteq> handle_id h) (entries_of t (bus w2)) \<and>
    (w2 = w1 \<longrightarrow> entries_of t b' = entries_of t (bus w)) \<and>
    h' = Subscription_null \<and> Subscription_Cancel True h' b' = (Subscription_null, b')"
proof -
  have inv: "bus_inv (bus w)" by (rule bus_sys.reaches_inv [OF assms(1)])
  have room: "total_subscribers (bus w) < kMaxSubscribers" "handle_id h = next_id (bus w)"
    "has_state h"
    using assms(3,4)
    by (auto simp: EventBus_Subscribe_def Let_def Subscription_IsValid_def Subscription_null_def
        split: if_splits)
  have e1: "entries_of t (bus w1) = entries_of t (bus w) @
      (if t = ty then [\<lparr>sub_id = handle_id h, subscriber = cb\<rparr>] else [])"
    using subscribe_entries [OF room(1), of t ty cb] assms(3) room(2) by simp
  have "bus_inv (bus w1)" using bus_inv_subscribe [OF inv assms(2), of ty "Some cb"] assms(3) by simp
  then have inv2: "bus_inv (bus w2)" using bus_sys.steps_inv [OF assms(5)] by simp
  have b': "h' = Subscription_null" "b' = RemoveSubscriberFromState (handle_id h) (bus w2)"
    using assms(6) room(3) by (auto simp: Subscription_Cancel_def)
  have e2: "entries_of t b' = without (handle_id h) (entries_of t (bus w2))"
    unfolding b' by (rule entries_of_remove [OF inv2])
  have "handle_id h \<notin> sub_id ` set (entries_of t (bus w))"
    using inv entries_of_subset [of t "bus w"] room(2) by (fastforce simp: bus_inv_def)
  then have "without (handle_id h) (entries_of t (bus w1)) = entries_of t (bus w)"
    using without_absent [of "handle_id h" "entries_of t (bus w)"]
    unfolding e1 without_def filter_append by auto
  then show ?thesis
    using e1 e2 b'
    by (auto simp: without_def Subscription_Cancel_def Subscription_null_def)
qed

theorem subscribe_cancel_roundtrip_witness:
  "entries_of 3 (snd (Subscription_Cancel True (fst (EventBus_Subscribe 3 (Some 9) sample_world))
     (bus (snd (EventBus_Subscribe 3 (Some 9) sample_world))))) = entries_of 3 (bus sample_world)"
proof -
  have "next_id (bus sample_world) + 1 \<noteq> 0"
    "Subscription_IsValid True (fst (EventBus_Subscribe 3 (Some 9) sample_world))"
    by (simp_all add: sample_world_def EventBus_Subscribe_def BusState_new_def kMaxSubscribers_def
        Subscription_IsValid_def)
  from subscribe_cancel_roundtrip [OF sample_world_reachable this(1) surjective_pairing this(2)
      rtranclp.rtrancl_refl surjective_pairing, of 3]
  show ?thesis by blast
qed

end
