(* ===== verification/Event_Typing.thy ===== *)
theory Event_Typing
  imports Event_Bus
begin

text \<open>
  \<open>framework/event\<close>, the type erasure: subscribers of all event types sit in one table as
  \<open>SubscriberBase\<close>, and \<open>SubscriberImpl<E>::Call\<close> casts the \<open>const void*\<close> it gets back to \<open>const E*\<close>
  without a check. The comment in the source claims that the cast is safe "by construction";
  here a subscriber carries its template argument, an event the type it was published with, and
  a cast to another type is undefined: whatever the caller of the model says.
\<close>

section \<open>Typed tables\<close>

text \<open>\<open>fits ty cb\<close>: a subscriber of this kind may be called with an event of type \<open>ty\<close>.\<close>

definition typed_table :: "(nat \<Rightarrow> 'cb \<Rightarrow> bool) \<Rightarrow> 'cb BusState \<Rightarrow> bool" where
  "typed_table fits b \<longleftrightarrow> (\<forall>(ty, es) \<in> set (subscribers b). \<forall>e \<in> set es. fits ty (subscriber e))"

text \<open>The operations of \<open>bus_api\<close>, with subscribers registered for a type they fit.\<close>

inductive typed_api ::
  "(nat \<Rightarrow> 'cb \<Rightarrow> bool) \<Rightarrow> ('cb, 'z) BusWorld_scheme \<Rightarrow> ('cb, 'z) BusWorld_scheme \<Rightarrow> bool" for fits where
  typed_subscribe: "pred_option (fits ty) cb \<Longrightarrow> next_id (bus w) + 1 \<noteq> 0 \<Longrightarrow>
     typed_api fits w (snd (EventBus_Subscribe ty cb w))"
| typed_cancel: "typed_api fits w (w\<lparr>bus := snd (Subscription_Cancel alive h (bus w))\<rparr>)"
| typed_other: "typed_api fits w w'" if "bus w' = bus w" "dispatching w' = dispatching w" "calls w' = calls w"

lemma typed_api_is_api: "typed_api fits w w' \<Longrightarrow> bus_api w w'"
  by (induction rule: typed_api.induct) (auto intro: bus_api.intros)

lemma typed_apis_are_apis: "(typed_api fits)\<^sup>*\<^sup>* w w' \<Longrightarrow> bus_api\<^sup>*\<^sup>* w w'"
  by (erule rtranclp_mono [THEN predicate2D, rotated]) (blast intro: typed_api_is_api)

lemma typed_new [simp]: "typed_table fits BusState_new"
  by (simp add: typed_table_def BusState_new_def)

lemma add_entry_all:
  "(\<forall>(t, es) \<in> set (add_entry ty e bs). \<forall>x \<in> set es. P t x) \<longleftrightarrow>
    P ty e \<and> (\<forall>(t, es) \<in> set bs. \<forall>x \<in> set es. P t x)"
  by (induction ty e bs rule: add_entry.induct) auto

lemma erase_id_subset: "erase_id i es = Some es' \<Longrightarrow> set es' \<subseteq> set es"
  by (induction es arbitrary: es') (auto split: if_splits)

lemma erase_from_all:
  assumes "erase_from i bs = Some bs'" "\<forall>(t, es) \<in> set bs. \<forall>x \<in> set es. P t x"
  shows "\<forall>(t, es) \<in> set bs'. \<forall>x \<in> set es. P t x"
  using assms
proof (induction i bs arbitrary: bs' rule: erase_from.induct)
  case (2 i t es bs)
  then show ?case by (fastforce split: option.splits dest: erase_id_subset)
qed simp

lemma typed_remove: "typed_table fits b \<Longrightarrow> typed_table fits (RemoveSubscriberFromState i b)"
  using erase_from_all [of i "subscribers b" _ "\<lambda>t e. fits t (subscriber e)"]
  by (simp add: typed_table_def RemoveSubscriberFromState_def split: option.splits)

lemma typed_cancelled: "typed_table fits b \<Longrightarrow> typed_table fits (snd (Subscription_Cancel alive h b))"
  by (simp add: Subscription_Cancel_def typed_remove)

lemma typed_subscribed:
  assumes "typed_table fits (bus w)" "pred_option (fits ty) cb"
  shows "typed_table fits (bus (snd (EventBus_Subscribe ty cb w)))"
  using assms
  by (auto simp: EventBus_Subscribe_def Let_def typed_table_def add_entry_all [where P = "\<lambda>t e. fits t (subscriber e)"]
      split: option.splits)

lemma typed_api_table: "typed_api fits w w' \<Longrightarrow> typed_table fits (bus w) \<Longrightarrow> typed_table fits (bus w')"
  by (induction rule: typed_api.induct) (auto intro: typed_subscribed typed_cancelled)

lemma typed_apis_table: "(typed_api fits)\<^sup>*\<^sup>* w w' \<Longrightarrow> typed_table fits (bus w) \<Longrightarrow> typed_table fits (bus w')"
  by (induction rule: rtranclp_induct) (auto intro: typed_api_table)

lemma typed_entries: "typed_table fits b \<Longrightarrow> e \<in> set (entries_of ty b) \<Longrightarrow> fits ty (subscriber e)"
  by (cases "map_of (subscribers b) ty") (auto simp: typed_table_def entries_of_def dest!: map_of_SomeD bspec)

section \<open>Typed clients\<close>

text \<open>
  A client whose subscribers keep to the typed operations, as far as each of them is called
  with an event it fits; called with another, it may do anything.
\<close>

locale typed_client =
  fixes fits :: "nat \<Rightarrow> 'cb \<Rightarrow> bool"
    and etype :: "'ev \<Rightarrow> nat"
    and call :: "('cb, 'ev, 'z) callback"
  assumes typed_only: "dispatching w \<Longrightarrow> fits (etype ev) cb \<Longrightarrow> (typed_api fits)\<^sup>*\<^sup>* w (fst (call cb ev w))"
begin

text \<open>The same subscribers, doing nothing where the client promises nothing.\<close>

definition guarded :: "('cb, 'ev, 'z) callback" where
  "guarded cb ev w = (if fits (etype ev) cb then call cb ev w else (w, Returned))"

lemma guarded_typed: "dispatching w \<Longrightarrow> (typed_api fits)\<^sup>*\<^sup>* w (fst (guarded cb ev w))"
  by (simp add: guarded_def typed_only)

end

sublocale typed_client \<subseteq> guarded: bus_client guarded
  by unfold_locales (rule typed_apis_are_apis [OF guarded_typed])

context typed_client begin

lemma dispatch_guarded:
  "(\<And>cb. cb \<in> set cbs \<Longrightarrow> fits (etype ev) cb) \<Longrightarrow> dispatch call ev cbs w = dispatch guarded ev cbs w"
  by (induction cbs arbitrary: w) (simp_all add: guarded_def split: prod.splits)

lemma publish_guarded:
  assumes "typed_table fits (bus w)"
  shows "EventBus_Publish call (etype ev) ev w = EventBus_Publish guarded (etype ev) ev w"
proof (cases "map_of (subscribers (bus w)) (etype ev)")
  case (Some es)
  then have "fits (etype ev) cb" if "cb \<in> set (map subscriber es)" for cb
    using typed_entries [OF assms, of _ "etype ev"] that by (auto simp: entries_of_def)
  then have "dispatch call ev (map subscriber es) v = dispatch guarded ev (map subscriber es) v" for v
    by (rule dispatch_guarded)
  with Some show ?thesis by (simp add: EventBus_Publish_def Let_def)
qed (simp add: EventBus_Publish_def)

lemma dispatch_typed:
  "dispatching w \<Longrightarrow> typed_table fits (bus w) \<Longrightarrow> typed_table fits (bus (dispatch guarded ev cbs w))"
proof (induction cbs arbitrary: w)
  case (Cons cb cbs)
  let ?w = "w\<lparr>calls := calls w @ [cb]\<rparr>"
  obtain w1 out where c: "guarded cb ev ?w = (w1, out)" by fastforce
  have t: "(typed_api fits)\<^sup>*\<^sup>* ?w w1" using guarded_typed [of ?w cb ev] Cons.prems c by simp
  have "dispatching w1" using apis_frame [OF typed_apis_are_apis [OF t]] Cons.prems by simp
  with typed_apis_table [OF t] Cons c show ?case by (simp add: guarded.note_outcome_frame)
qed simp

lemma publish_typed:
  assumes "typed_table fits (bus w)"
  shows "typed_table fits (bus (snd (EventBus_Publish call (etype ev) ev w)))"
  unfolding publish_guarded [OF assms]
  using assms dispatch_typed [of "w\<lparr>dispatching := True\<rparr>"]
  by (auto simp: EventBus_Publish_def Let_def split: option.splits)

text \<open>What a publication calls fits its event.\<close>

lemma publish_fits:
  assumes "typed_table fits (bus w)" "\<not> dispatching w" "bus_inv (bus w)"
  shows "\<exists>cbs. calls (snd (EventBus_Publish call (etype ev) ev w)) = calls w @ cbs \<and> list_all (fits (etype ev)) cbs"
proof -
  have "calls (snd (EventBus_Publish call (etype ev) ev w)) = calls w @ map subscriber (entries_of (etype ev) (bus w))"
    unfolding publish_guarded [OF assms(1)] using guarded.publish_delivers [OF assms(2,3) surjective_pairing] by blast
  moreover have "list_all (fits (etype ev)) (map subscriber (entries_of (etype ev) (bus w)))"
    using typed_entries [OF assms(1)] by (auto simp: list_all_iff)
  ultimately show ?thesis by blast
qed

end

section \<open>Type erasure\<close>

text \<open>A \<open>SubscriberImpl<E>\<close>: its template argument and its \<open>std::function\<close>; a \<open>const void*\<close> to an event: the type and
  the value of the object it points to.\<close>

datatype 'fn SubscriberImpl = SubscriberImpl (impl_type: nat) (fn: 'fn)

datatype 'v Erased = Erased (dyn_type: nat) (object: 'v)

text \<open>\<open>static_cast<const E*>\<close> followed by the dereference; \<open>None\<close> is undefined behaviour.\<close>

definition static_cast_deref :: "nat \<Rightarrow> 'v Erased \<Rightarrow> 'v option" where
  "static_cast_deref E p = (if dyn_type p = E then Some (object p) else None)"

text \<open>\<open>Subscribe<E>\<close> wraps the callable as a \<open>SubscriberImpl<E>\<close>.\<close>

definition EventBus_Subscribe_typed ::
  "nat \<Rightarrow> 'fn option \<Rightarrow> 'fn SubscriberImpl BusWorld \<Rightarrow> Subscription \<times> 'fn SubscriberImpl BusWorld" where
  "EventBus_Subscribe_typed E callback w = EventBus_Subscribe E (map_option (SubscriberImpl E) callback) w"

text \<open>
  What a callable does is any list of bus operations, chosen from its event and the state, and
  an outcome. Operations of other threads during the call are in the list too. A publication
  from inside is left out: it has no effect (\<open>publish_rejected\<close>).
\<close>

datatype 'fn BusOp = Op_Subscribe nat "'fn option" | Op_Cancel bool Subscription

fun exec_bus_op :: "'fn BusOp \<Rightarrow> 'fn SubscriberImpl BusWorld \<Rightarrow> 'fn SubscriberImpl BusWorld" where
  "exec_bus_op (Op_Subscribe E callback) w =
     (if next_id (bus w) + 1 = 0 then w else snd (EventBus_Subscribe_typed E callback w))"
| "exec_bus_op (Op_Cancel alive h) w = w\<lparr>bus := snd (Subscription_Cancel alive h (bus w))\<rparr>"

type_synonym ('fn, 'v) Bodies = "'fn \<Rightarrow> 'v \<Rightarrow> 'fn SubscriberImpl BusWorld \<Rightarrow> 'fn BusOp list \<times> Outcome"

definition invoke ::
  "('fn, 'v) Bodies \<Rightarrow> 'fn \<Rightarrow> 'v \<Rightarrow> 'fn SubscriberImpl BusWorld \<Rightarrow> 'fn SubscriberImpl BusWorld \<times> Outcome" where
  "invoke body f v w = (case body f v w of (ops, out) \<Rightarrow> (fold exec_bus_op ops w, out))"

text \<open>\<open>SubscriberImpl<E>::Call\<close>; \<open>ub\<close> stands for what happens after a bad cast.\<close>

definition SubscriberImpl_Call ::
  "('fn SubscriberImpl, 'v Erased, unit) callback \<Rightarrow> ('fn, 'v) Bodies \<Rightarrow> ('fn SubscriberImpl, 'v Erased, unit) callback" where
  "SubscriberImpl_Call ub body s event w =
     (case static_cast_deref (impl_type s) event of
        None \<Rightarrow> ub s event w
      | Some e \<Rightarrow> invoke body (fn s) e w)"

definition EventBus_Publish_typed ::
  "('fn SubscriberImpl, 'v Erased, unit) callback \<Rightarrow> ('fn, 'v) Bodies \<Rightarrow> nat \<Rightarrow> 'v \<Rightarrow>
   'fn SubscriberImpl BusWorld \<Rightarrow> EventError \<times> 'fn SubscriberImpl BusWorld" where
  "EventBus_Publish_typed ub body E event w = EventBus_Publish (SubscriberImpl_Call ub body) E (Erased E event) w"

text \<open>A program that uses the bus: operations and publications in any order.\<close>

inductive typed_step ::
  "('fn SubscriberImpl, 'v Erased, unit) callback \<Rightarrow> ('fn, 'v) Bodies \<Rightarrow>
   'fn SubscriberImpl BusWorld \<Rightarrow> 'fn SubscriberImpl BusWorld \<Rightarrow> bool" for ub body where
  step_op: "typed_step ub body w (exec_bus_op op w)"
| step_publish: "typed_step ub body w (snd (EventBus_Publish_typed ub body E event w))"

abbreviation impl_fits :: "nat \<Rightarrow> 'fn SubscriberImpl \<Rightarrow> bool" where
  "impl_fits E s \<equiv> impl_type s = E"

lemma exec_bus_op_typed: "typed_api impl_fits w (exec_bus_op op w)"
proof (cases op)
  case (Op_Subscribe E cb)
  have "pred_option (impl_fits E) (map_option (SubscriberImpl E) cb)" by (cases cb) simp_all
  from typed_subscribe [where fits = impl_fits, OF this, of w] show ?thesis
    by (auto simp: Op_Subscribe EventBus_Subscribe_typed_def intro: typed_other)
qed (simp add: typed_cancel)

lemma exec_bus_ops_typed: "(typed_api impl_fits)\<^sup>*\<^sup>* w (fold exec_bus_op ops w)"
proof (induction ops arbitrary: w)
  case (Cons op ops)
  from converse_rtranclp_into_rtranclp [OF exec_bus_op_typed Cons.IH] show ?case by simp
qed simp

interpretation erased: typed_client impl_fits dyn_type "SubscriberImpl_Call ub body" for ub body
  by unfold_locales
    (auto simp: SubscriberImpl_Call_def static_cast_deref_def invoke_def exec_bus_ops_typed split: prod.splits)

definition typed_inv :: "'fn SubscriberImpl BusWorld \<Rightarrow> bool" where
  "typed_inv w \<longleftrightarrow> typed_table impl_fits (bus w) \<and> bus_inv (bus w)"

lemma publish_keeps_inv:
  assumes "bus_client call" "bus_inv (bus w)"
  shows "bus_inv (bus (snd (EventBus_Publish call ty ev w)))"
  using assms bus_client.publish_delivers [OF assms(1) _ assms(2) surjective_pairing, of ty ev]
  by (cases "dispatching w") (simp_all add: publish_rejected)

lemma typed_inv_step: "typed_step ub body w w' \<Longrightarrow> typed_inv w \<Longrightarrow> typed_inv w'"
proof (induction rule: typed_step.induct)
  case (step_op w op)
  then show ?case
    using typed_api_table [OF exec_bus_op_typed] bus_inv_api [OF typed_api_is_api [OF exec_bus_op_typed]]
    by (auto simp: typed_inv_def)
next
  case (step_publish w E event)
  then have t: "typed_table impl_fits (bus w)" "bus_inv (bus w)" by (simp_all add: typed_inv_def)
  from erased.publish_typed [OF t(1), of ub body "Erased E event"]
    publish_keeps_inv [OF erased.guarded.bus_client_axioms t(2), of ub body E "Erased E event"]
    erased.publish_guarded [OF t(1), of ub body "Erased E event"]
  show ?case by (simp add: typed_inv_def EventBus_Publish_typed_def)
qed

interpretation typed_sys: inductive_invariant bus_world_init "typed_step ub body" typed_inv for ub body
  by unfold_locales (simp add: bus_world_init_def typed_inv_def, rule typed_inv_step)

section \<open>Properties\<close>

lemma dispatch_cong:
  "(\<And>cb w. cb \<in> set cbs \<Longrightarrow> c1 cb e1 w = c2 cb e2 w) \<Longrightarrow> dispatch c1 e1 cbs w = dispatch c2 e2 cbs w"
  by (induction cbs arbitrary: w) (simp_all split: prod.splits)

text \<open>A callable that subscribes another to the next event type and one that throws, and a world in which
  subscribers of two types are registered.\<close>

definition sample_bodies :: "(nat, nat) Bodies" where
  "sample_bodies f v w = (if f = 0 then ([Op_Subscribe (v + 1) (Some 9)], Returned) else ([], Threw_unknown))"

definition bad_cast_crash :: "(nat SubscriberImpl, nat Erased, unit) callback" where
  "bad_cast_crash s p w = (w\<lparr>bus_stderr := bus_stderr w @ [''segmentation fault'']\<rparr>, Returned)"

definition typed_sample :: "nat SubscriberImpl BusWorld" where
  "typed_sample = exec_bus_op (Op_Subscribe 4 (Some 1)) (exec_bus_op (Op_Subscribe 3 (Some 0))
     \<lparr>bus = BusState_new, dispatching = False, bus_stderr = [], calls = []\<rparr>)"

lemma typed_sample_reaches: "reaches bus_world_init (typed_step ub body) typed_sample"
proof -
  have op: "reaches bus_world_init (typed_step ub body) (exec_bus_op op w)"
    if "reaches bus_world_init (typed_step ub body) w" for op w
    using that by (rule reaches_step) (rule step_op)
  show ?thesis unfolding typed_sample_def
    by (intro op reaches_init) (simp add: bus_world_init_def)
qed

text \<open>C11: The unchecked cast in \<open>SubscriberImpl<E>::Call\<close> is safe: after any run of subscriptions,
  cancellations and publications (callables may subscribe and cancel while an event is being
  delivered, and throw), a publication of an event of type \<open>E\<close> behaves exactly as one that calls
  every subscriber with the event itself, whatever a bad cast would do, and calls subscribers
  of template argument \<open>E\<close> only.\<close>

theorem event_casts_match:
  assumes "reaches bus_world_init (typed_step ub body) w"
  shows "EventBus_Publish_typed ub body E event w =
      EventBus_Publish (\<lambda>s e. invoke body (fn s) e) E event w \<and>
    (\<not> dispatching w \<longrightarrow> (\<exists>ss. calls (snd (EventBus_Publish_typed ub body E event w)) = calls w @ ss \<and>
       (\<forall>s \<in> set ss. impl_type s = E)))"
proof -
  have t: "typed_table impl_fits (bus w)" "bus_inv (bus w)"
    using typed_sys.reaches_inv [OF assms] by (simp_all add: typed_inv_def)
  have "dispatch (SubscriberImpl_Call ub body) (Erased E event) (map subscriber es) v =
      dispatch (\<lambda>s e. invoke body (fn s) e) event (map subscriber es) v"
    if "map_of (subscribers (bus w)) E = Some es" for es v
    using typed_entries [OF t(1), of _ E] that
    by (intro dispatch_cong) (auto simp: entries_of_def SubscriberImpl_Call_def static_cast_deref_def)
  then have "EventBus_Publish_typed ub body E event w = EventBus_Publish (\<lambda>s e. invoke body (fn s) e) E event w"
    by (simp add: EventBus_Publish_typed_def EventBus_Publish_def Let_def split: option.splits)
  moreover have "\<exists>ss. calls (snd (EventBus_Publish_typed ub body E event w)) = calls w @ ss \<and> (\<forall>s \<in> set ss. impl_type s = E)"
    if "\<not> dispatching w"
    using erased.publish_fits [OF t(1) that t(2), of ub body "Erased E event"]
    by (simp add: EventBus_Publish_typed_def list_all_iff)
  ultimately show ?thesis by blast
qed

theorem event_casts_match_witness:
  "EventBus_Publish_typed bad_cast_crash sample_bodies 3 3 typed_sample =
     EventBus_Publish (\<lambda>s e. invoke sample_bodies (fn s) e) 3 3 typed_sample \<and>
   map subscriber (entries_of 4 (bus (snd (EventBus_Publish_typed bad_cast_crash sample_bodies 3 3 typed_sample)))) =
     [SubscriberImpl 4 1, SubscriberImpl 4 9]"
  using event_casts_match [OF typed_sample_reaches, where ub = bad_cast_crash and body = sample_bodies and E = 3 and event = 3]
  by (simp add: typed_sample_def EventBus_Subscribe_typed_def EventBus_Subscribe_def BusState_new_def kMaxSubscribers_def
      EventBus_Publish_def sample_bodies_def invoke_def entries_of_def)

end
