(* ===== verification/Event_Concurrent.thy ===== *)
theory Event_Concurrent
  imports Event_Bus
begin

text \<open>
  \<open>framework/event\<close> under several threads. \<open>Subscribe\<close>, \<open>Cancel\<close> and the snapshot that \<open>Publish\<close> takes hold
  the bus mutex and are one step each; the calls of a dispatch happen outside of it, one at a
  time, and between them every thread, the publishing one included (its callback), may operate on
  the bus. This is where a cancelled subscriber can still be called: a snapshot keeps it alive.
\<close>

section \<open>Data\<close>

text \<open>A thread inside \<open>Publish\<close>: the event type and the part of the snapshot still to be called. A thread is
  idle exactly while its \<open>thread_local\<close> flag \<open>dispatching\<close> is false.\<close>

datatype 'cb Publishing = Not_publishing | Dispatching nat "'cb SubscriberEntry list"

text \<open>\<open>called\<close> is a history: which thread has called which subscription.\<close>

record 'cb ConcBus =
  shared_bus :: "'cb BusState"
  publishing :: "nat \<Rightarrow> 'cb Publishing"
  called :: "(nat \<times> u64) list"

text \<open>The bus as thread \<open>t\<close> sees it.\<close>

definition world_of :: "'cb ConcBus \<Rightarrow> nat \<Rightarrow> 'cb BusWorld" where
  "world_of s t = \<lparr>bus = shared_bus s, dispatching = (publishing s t \<noteq> Not_publishing), bus_stderr = [], calls = []\<rparr>"

section \<open>Steps\<close>

definition conc_Subscribe :: "nat \<Rightarrow> nat \<Rightarrow> 'cb option \<Rightarrow> 'cb ConcBus \<Rightarrow> Subscription \<times> 'cb ConcBus" where
  "conc_Subscribe t ty cb s =
     (case EventBus_Subscribe ty cb (world_of s t) of (h, w) \<Rightarrow> (h, s\<lparr>shared_bus := bus w\<rparr>))"

definition conc_Cancel :: "Subscription \<Rightarrow> 'cb ConcBus \<Rightarrow> Subscription \<times> 'cb ConcBus" where
  "conc_Cancel h s = (case Subscription_Cancel True h (shared_bus s) of (h', b) \<Rightarrow> (h', s\<lparr>shared_bus := b\<rparr>))"

text \<open>The first part of \<open>Publish\<close>, up to the first call; a thread that is dispatching is rejected.\<close>

definition Publish_snapshot :: "nat \<Rightarrow> nat \<Rightarrow> 'cb ConcBus \<Rightarrow> 'cb ConcBus" where
  "Publish_snapshot t ty s =
     (if publishing s t \<noteq> Not_publishing then s
      else case map_of (subscribers (shared_bus s)) ty of
          None \<Rightarrow> s
        | Some es \<Rightarrow> s\<lparr>publishing := (publishing s)(t := Dispatching ty es)\<rparr>)"

text \<open>One turn of the dispatch loop, up to the start of the callback, or its end.\<close>

definition Publish_next :: "nat \<Rightarrow> 'cb ConcBus \<Rightarrow> 'cb ConcBus" where
  "Publish_next t s =
     (case publishing s t of
        Not_publishing \<Rightarrow> s
      | Dispatching ty [] \<Rightarrow> s\<lparr>publishing := (publishing s)(t := Not_publishing)\<rparr>
      | Dispatching ty (e # es) \<Rightarrow>
          s\<lparr>publishing := (publishing s)(t := Dispatching ty es), called := called s @ [(t, sub_id e)]\<rparr>)"

inductive conc_step :: "'cb ConcBus \<Rightarrow> 'cb ConcBus \<Rightarrow> bool" where
  conc_subscribe: "next_id (shared_bus s) + 1 \<noteq> 0 \<Longrightarrow> conc_step s (snd (conc_Subscribe t ty cb s))"
| conc_cancel: "conc_step s (snd (conc_Cancel h s))"
| conc_snapshot: "conc_step s (Publish_snapshot t ty s)"
| conc_next: "conc_step s (Publish_next t s)"

definition conc_init :: "'cb ConcBus \<Rightarrow> bool" where
  "conc_init s \<longleftrightarrow> shared_bus s = BusState_new \<and> publishing s = (\<lambda>_. Not_publishing) \<and> called s = []"

section \<open>Invariant\<close>

fun snapshot_rest :: "'cb Publishing \<Rightarrow> 'cb SubscriberEntry list" where
  "snapshot_rest Not_publishing = []"
| "snapshot_rest (Dispatching ty es) = es"

text \<open>No dispatch calls a subscription twice, and every id in a snapshot has been issued.\<close>

definition conc_inv :: "'cb ConcBus \<Rightarrow> bool" where
  "conc_inv s \<longleftrightarrow> bus_inv (shared_bus s) \<and>
     (\<forall>t. distinct (map sub_id (snapshot_rest (publishing s t))) \<and>
        (\<forall>e \<in> set (snapshot_rest (publishing s t)). sub_id e < next_id (shared_bus s)))"

lemma subscribe_next_id:
  "next_id (bus w) + 1 \<noteq> 0 \<Longrightarrow> next_id (bus w) \<le> next_id (bus (snd (EventBus_Subscribe ty cb w)))"
  using word_less_next [of _ "next_id (bus w)"]
  by (auto simp: EventBus_Subscribe_def Let_def split: option.splits) unat_arith

lemma cancel_next_id [simp]: "next_id (snd (Subscription_Cancel alive h b)) = next_id b"
  by (simp add: Subscription_Cancel_def RemoveSubscriberFromState_def split: option.splits)

lemma conc_Subscribe_frame:
  "publishing (snd (conc_Subscribe t ty cb s)) = publishing s" "called (snd (conc_Subscribe t ty cb s)) = called s"
  "shared_bus (snd (conc_Subscribe t ty cb s)) = bus (snd (EventBus_Subscribe ty cb (world_of s t)))"
  by (simp_all add: conc_Subscribe_def split: prod.splits)

lemma conc_Cancel_frame [simp]:
  "publishing (snd (conc_Cancel h s)) = publishing s" "called (snd (conc_Cancel h s)) = called s"
  "shared_bus (snd (conc_Cancel h s)) = snd (Subscription_Cancel True h (shared_bus s))"
  by (simp_all add: conc_Cancel_def split: prod.splits)

lemma world_of_bus [simp]: "bus (world_of s t) = shared_bus s"
  by (simp add: world_of_def)

lemma entries_distinct:
  assumes "bus_inv b"
  shows "distinct (map sub_id (entries_of ty b))" "e \<in> set (entries_of ty b) \<Longrightarrow> sub_id e < next_id b"
proof -
  show "distinct (map sub_id (entries_of ty b))"
    using entries_sorted [OF assms, of ty] strict_sorted_iff by blast
  show "sub_id e < next_id b" if "e \<in> set (entries_of ty b)"
    using that assms entries_of_subset [of ty b] by (auto simp: bus_inv_def)
qed

lemma conc_inv_step: "conc_step s s' \<Longrightarrow> conc_inv s \<Longrightarrow> conc_inv s'"
proof (induction rule: conc_step.induct)
  case (conc_subscribe s t ty cb)
  then have "bus_inv (bus (snd (EventBus_Subscribe ty cb (world_of s t))))"
    by (intro bus_inv_subscribe) (simp_all add: conc_inv_def)
  moreover have "next_id (shared_bus s) \<le> next_id (bus (snd (EventBus_Subscribe ty cb (world_of s t))))"
    using subscribe_next_id [of "world_of s t"] conc_subscribe(1) by simp
  ultimately show ?case
    using conc_subscribe(2) unfolding conc_inv_def conc_Subscribe_frame by (blast intro: less_le_trans)
next
  case (conc_cancel s h)
  then have "bus_inv (snd (Subscription_Cancel True h (shared_bus s)))"
    by (simp add: conc_inv_def Subscription_Cancel_def bus_inv_remove)
  with conc_cancel show ?case by (simp add: conc_inv_def)
next
  case (conc_snapshot s t ty)
  then have "bus_inv (shared_bus s)" by (simp add: conc_inv_def)
  then have "distinct (map sub_id es) \<and> (\<forall>e \<in> set es. sub_id e < next_id (shared_bus s))"
    if "map_of (subscribers (shared_bus s)) ty = Some es" for es
    using entries_distinct(1) [of "shared_bus s" ty] entries_distinct(2) [of "shared_bus s" _ ty] that by (simp add: entries_of_def)
  with conc_snapshot show ?case by (simp add: conc_inv_def Publish_snapshot_def split: option.splits)
next
  case (conc_next s t)
  then have "distinct (map sub_id (snapshot_rest (publishing s t)))"
    "\<forall>e \<in> set (snapshot_rest (publishing s t)). sub_id e < next_id (shared_bus s)" by (simp_all add: conc_inv_def)
  then have "distinct (map sub_id es) \<and> (\<forall>e \<in> set es. sub_id e < next_id (shared_bus s))"
    if "publishing s t = Dispatching ty (e # es)" for ty e es using that by simp
  with conc_next show ?case by (auto simp: conc_inv_def Publish_next_def split: Publishing.splits list.splits)
qed

interpretation conc_sys: inductive_invariant conc_init conc_step conc_inv
  by unfold_locales (simp add: conc_init_def conc_inv_def, rule conc_inv_step)

section \<open>Cancelled subscriptions\<close>

definition owed :: "u64 \<Rightarrow> 'cb ConcBus \<Rightarrow> nat \<Rightarrow> nat" where
  "owed i s t = (if i \<in> sub_id ` set (snapshot_rest (publishing s t)) then 1 else 0)"

text \<open>The subscription \<open>i\<close> has been issued and is in the table no more.\<close>

definition gone :: "u64 \<Rightarrow> 'cb ConcBus \<Rightarrow> bool" where
  "gone i s \<longleftrightarrow> i < next_id (shared_bus s) \<and> i \<notin> sub_id ` set (all_entries (shared_bus s))"

lemma subscribe_ids:
  "sub_id ` set (all_entries (bus (snd (EventBus_Subscribe ty cb w)))) \<subseteq>
    insert (next_id (bus w)) (sub_id ` set (all_entries (bus w)))"
proof (cases "cb = None \<or> total_subscribers (bus w) \<ge> kMaxSubscribers")
  case True
  then show ?thesis by (auto simp: EventBus_Subscribe_def Let_def split: option.splits)
next
  case False
  then obtain c where c: "cb = Some c" "total_subscribers (bus w) < kMaxSubscribers" by auto
  then have "set (all_entries (bus (snd (EventBus_Subscribe ty cb w)))) =
      insert \<lparr>sub_id = next_id (bus w), subscriber = c\<rparr> (set (all_entries (bus w)))"
    unfolding all_entries_def by (simp add: EventBus_Subscribe_def Let_def add_entry_set del: set_concat)
  then show ?thesis by simp
qed

lemma cancel_ids: "bus_inv b \<Longrightarrow> set (all_entries (snd (Subscription_Cancel alive h b))) \<subseteq> set (all_entries b)"
  by (simp add: Subscription_Cancel_def all_entries_remove without_def)

lemma gone_step:
  assumes "conc_step s s'" "gone i s" "conc_inv s"
  shows "gone i s'"
  using assms
proof (induction rule: conc_step.induct)
  case (conc_subscribe s t ty cb)
  let ?b = "bus (snd (EventBus_Subscribe ty cb (world_of s t)))"
  have "i < next_id ?b" "i \<noteq> next_id (shared_bus s)"
    using subscribe_next_id [of "world_of s t" ty cb] conc_subscribe(1,2) by (auto simp: gone_def)
  moreover have "sub_id ` set (all_entries ?b) \<subseteq> insert (next_id (shared_bus s)) (sub_id ` set (all_entries (shared_bus s)))"
    using subscribe_ids [of ty cb "world_of s t"] by simp
  ultimately show ?case using conc_subscribe(2) unfolding gone_def conc_Subscribe_frame by blast
next
  case (conc_cancel s h)
  then have "bus_inv (shared_bus s)" by (simp add: conc_inv_def)
  from cancel_ids [OF this, of True h] conc_cancel show ?case by (auto simp: gone_def)
qed (auto simp: gone_def Publish_snapshot_def Publish_next_def split: option.splits Publishing.splits list.splits)

text \<open>Every call of a subscription that is gone is paid for by a snapshot that still had it.\<close>

lemma owed_step:
  assumes "conc_step s s'" "gone i s" "conc_inv s"
  shows "\<exists>cs. called s' = called s @ cs \<and> (\<forall>t. count_list cs (t, i) + owed i s' t \<le> owed i s t)"
  using assms
proof (induction rule: conc_step.induct)
  case (conc_snapshot s t ty)
  have "owed i (Publish_snapshot t ty s) u \<le> owed i s u" for u
    using conc_snapshot(1) entries_of_subset [of ty "shared_bus s"]
    by (auto simp: gone_def owed_def Publish_snapshot_def entries_of_def split: option.splits)
  then show ?case by (auto simp: Publish_snapshot_def split: option.splits intro!: exI [of _ "[]"])
next
  case (conc_next s t)
  show ?case
  proof (cases "publishing s t")
    case (Dispatching ty es)
    show ?thesis
    proof (cases es)
      case Nil
      then show ?thesis by (auto simp: Publish_next_def Dispatching owed_def intro!: exI [of _ "[]"])
    next
      case (Cons e es')
      have "sub_id e \<notin> sub_id ` set es'"
        using conc_next(2) Dispatching Cons unfolding conc_inv_def by (metis distinct.simps(2) list.map(2) set_map snapshot_rest.simps(2))
      then show ?thesis
        by (auto simp: Publish_next_def Dispatching Cons owed_def intro!: exI [of _ "[(t, sub_id e)]"])
    qed
  qed (auto simp: Publish_next_def intro!: exI [of _ "[]"])
qed (auto simp: owed_def conc_Subscribe_frame intro!: exI [of _ "[]"])

lemma owed_steps:
  assumes "conc_step\<^sup>*\<^sup>* s s'" "gone i s" "conc_inv s"
  shows "\<exists>cs. called s' = called s @ cs \<and> (\<forall>t. count_list cs (t, i) + owed i s' t \<le> owed i s t)"
proof -
  have "gone i s' \<and> conc_inv s' \<and> (\<exists>cs. called s' = called s @ cs \<and> (\<forall>t. count_list cs (t, i) + owed i s' t \<le> owed i s t))"
    using assms(1)
  proof (induction rule: rtranclp_induct)
    case (step s1 s2)
    then obtain cs where cs: "called s1 = called s @ cs" "\<And>t. count_list cs (t, i) + owed i s1 t \<le> owed i s t" by blast
    from owed_step [OF step(2)] step.IH obtain ds where ds: "called s2 = called s1 @ ds"
      "\<And>t. count_list ds (t, i) + owed i s2 t \<le> owed i s1 t" by blast
    have "count_list (cs @ ds) (t, i) + owed i s2 t \<le> owed i s t" for t
      using cs(2) [of t] ds(2) [of t] by simp
    moreover have "called s2 = called s @ (cs @ ds)" using cs(1) ds(1) by simp
    ultimately show ?case using step gone_step conc_inv_step by blast
  qed (use assms in \<open>auto intro!: exI [of _ "[]"]\<close>)
  then show ?thesis by blast
qed

text \<open>With no other thread in between, the steps are the \<open>Publish\<close> of \<open>Event_Bus\<close>.\<close>

lemma dispatch_as_steps:
  "publishing s t = Dispatching ty es \<Longrightarrow>
    conc_step\<^sup>*\<^sup>* s (s\<lparr>publishing := (publishing s)(t := Not_publishing), called := called s @ map (\<lambda>e. (t, sub_id e)) es\<rparr>)"
proof (induction es arbitrary: s)
  case Nil
  then have "conc_step s (s\<lparr>publishing := (publishing s)(t := Not_publishing)\<rparr>)"
    using conc_next [of s t] by (simp add: Publish_next_def)
  then show ?case by (simp add: r_into_rtranclp del: fun_upd_apply)
next
  case (Cons e es)
  let ?s1 = "s\<lparr>publishing := (publishing s)(t := Dispatching ty es), called := called s @ [(t, sub_id e)]\<rparr>"
  have "conc_step s ?s1" using conc_next [of s t] Cons.prems by (simp add: Publish_next_def)
  moreover have "conc_step\<^sup>*\<^sup>* ?s1 (?s1\<lparr>publishing := (publishing ?s1)(t := Not_publishing),
      called := called ?s1 @ map (\<lambda>e. (t, sub_id e)) es\<rparr>)" by (rule Cons.IH) simp
  ultimately show ?case by (simp add: converse_rtranclp_into_rtranclp del: fun_upd_apply)
qed

lemma publish_as_steps:
  assumes "publishing s t = Not_publishing"
  shows "conc_step\<^sup>*\<^sup>* s (s\<lparr>called := called s @ map (\<lambda>e. (t, sub_id e)) (entries_of ty (shared_bus s))\<rparr>)"
proof (cases "map_of (subscribers (shared_bus s)) ty")
  case None
  then show ?thesis by (simp add: entries_of_def)
next
  case (Some es)
  let ?s1 = "s\<lparr>publishing := (publishing s)(t := Dispatching ty es)\<rparr>"
  have "conc_step s ?s1" using conc_snapshot [of s t ty] assms Some by (simp add: Publish_snapshot_def)
  moreover have "(publishing s)(t := Not_publishing) = publishing s" using assms by auto
  then have "conc_step\<^sup>*\<^sup>* ?s1 (s\<lparr>called := called s @ map (\<lambda>e. (t, sub_id e)) es\<rparr>)"
    using dispatch_as_steps [of ?s1 t ty es] by simp
  ultimately show ?thesis using Some by (simp add: entries_of_def converse_rtranclp_into_rtranclp)
qed

section \<open>Properties\<close>

text \<open>A run: a subscriber for event type 3, and thread 0 that publishes an event of that type and has
  taken its snapshot.\<close>

definition conc_start :: "nat ConcBus" where
  "conc_start = \<lparr>shared_bus = BusState_new, publishing = (\<lambda>_. Not_publishing), called = []\<rparr>"

definition conc_sample :: "nat ConcBus" where
  "conc_sample = Publish_snapshot 0 3 (snd (conc_Subscribe 1 3 (Some 7) conc_start))"

definition conc_handle :: Subscription where
  "conc_handle = fst (conc_Subscribe 1 3 (Some 7) conc_start)"

lemma conc_sample_eq:
  "conc_sample = \<lparr>shared_bus = \<lparr>subscribers = [(3, [\<lparr>sub_id = 1, subscriber = 7\<rparr>])], next_id = 2, total_subscribers = 1\<rparr>,
     publishing = (\<lambda>_. Not_publishing)(0 := Dispatching 3 [\<lparr>sub_id = 1, subscriber = 7\<rparr>]), called = []\<rparr>"
  "conc_handle = \<lparr>has_state = True, handle_id = 1\<rparr>"
  by (simp_all add: conc_sample_def conc_handle_def conc_start_def conc_Subscribe_def Publish_snapshot_def world_of_def
      EventBus_Subscribe_def BusState_new_def kMaxSubscribers_def)

lemma conc_sample_reaches: "reaches conc_init conc_step conc_sample"
proof -
  have "reaches conc_init conc_step conc_start" by (rule reaches_init) (simp add: conc_init_def conc_start_def)
  then have "reaches conc_init conc_step (snd (conc_Subscribe 1 3 (Some 7) conc_start))"
    by (rule reaches_step) (rule conc_subscribe, simp add: conc_start_def BusState_new_def)
  then show ?thesis unfolding conc_sample_def by (rule reaches_step) (rule conc_snapshot)
qed

text \<open>C12: What a cancellation guarantees when several threads use the bus: once \<open>Cancel\<close> of a valid
  handle has returned, whatever all threads do afterwards, the cancelled subscriber is called
  only by threads that were inside a dispatch whose snapshot still had it to call, and by each
  of them at most once; if there is no such dispatch, it is never called again.\<close>

theorem bus_cancel_bounds_calls:
  assumes "reaches conc_init conc_step s" "has_state h" "handle_id h < next_id (shared_bus s)"
    "conc_Cancel h s = (h', s1)" "conc_step\<^sup>*\<^sup>* s1 s2"
  shows "\<exists>cs. called s2 = called s @ cs \<and>
    (\<forall>t. count_list cs (t, handle_id h) \<le>
       (if handle_id h \<in> sub_id ` set (snapshot_rest (publishing s t)) then 1 else 0))"
proof -
  have inv: "conc_inv s" by (rule conc_sys.reaches_inv [OF assms(1)])
  have s1: "s1 = snd (conc_Cancel h s)" using assms(4) by simp
  have inv1: "conc_inv s1" unfolding s1 by (rule conc_inv_step [OF conc_cancel inv])
  have "shared_bus s1 = RemoveSubscriberFromState (handle_id h) (shared_bus s)"
    using assms(2) by (simp add: s1 Subscription_Cancel_def)
  moreover have "next_id (shared_bus s1) = next_id (shared_bus s)" by (simp add: s1)
  ultimately have "gone (handle_id h) s1"
    using assms(3) all_entries_remove [of "shared_bus s" "handle_id h"] inv
    by (auto simp: gone_def conc_inv_def without_def)
  from owed_steps [OF assms(5) this inv1] obtain cs where cs: "called s2 = called s1 @ cs"
    "\<And>t. count_list cs (t, handle_id h) + owed (handle_id h) s2 t \<le> owed (handle_id h) s1 t" by blast
  have "called s1 = called s" "publishing s1 = publishing s" by (simp_all add: s1)
  moreover have "count_list cs (t, handle_id h) \<le> owed (handle_id h) s1 t" for t
    using cs(2) [of t] by simp
  ultimately show ?thesis using cs(1) by (auto simp: owed_def)
qed

theorem bus_cancel_bounds_calls_witness:
  "\<exists>cs. called (Publish_next 1 (Publish_next 0 (snd (conc_Cancel conc_handle conc_sample)))) = cs \<and>
     count_list cs (0, 1) \<le> 1 \<and> count_list cs (1, 1) = 0"
proof -
  have "conc_step\<^sup>*\<^sup>* (snd (conc_Cancel conc_handle conc_sample))
      (Publish_next 1 (Publish_next 0 (snd (conc_Cancel conc_handle conc_sample))))"
    by (meson conc_next r_into_rtranclp rtranclp_trans)
  from bus_cancel_bounds_calls [OF conc_sample_reaches _ _ surjective_pairing this]
  obtain cs where "called (Publish_next 1 (Publish_next 0 (snd (conc_Cancel conc_handle conc_sample)))) = called conc_sample @ cs"
    "\<forall>t. count_list cs (t, 1) \<le> (if 1 \<in> sub_id ` set (snapshot_rest (publishing conc_sample t)) then 1 else 0)"
    by (auto simp: conc_sample_eq)
  moreover from spec [OF this(2), of 0] spec [OF this(2), of 1]
  have "count_list cs (0, 1) \<le> 1" "count_list cs (1, 1) = 0" by (simp_all add: conc_sample_eq)
  moreover have "called conc_sample = []" by (simp add: conc_sample_eq)
  ultimately show ?thesis by simp
qed

text \<open>The bound is reached: there is a run in which one thread has taken its snapshot, another
  cancels the subscription, \<open>Cancel\<close> returns, the handle is null and the table empty, and then the
  first thread calls the subscriber. A destructor that cancels its own subscription therefore
  does not keep its object from being called once more.\<close>

theorem bus_call_after_cancel:
  "reaches conc_init conc_step (snd (conc_Cancel conc_handle conc_sample)) \<and>
   Subscription_IsValid True conc_handle \<and>
   fst (conc_Cancel conc_handle conc_sample) = Subscription_null \<and>
   all_entries (shared_bus (snd (conc_Cancel conc_handle conc_sample))) = [] \<and>
   called (snd (conc_Cancel conc_handle conc_sample)) = [] \<and>
   called (Publish_next 0 (snd (conc_Cancel conc_handle conc_sample))) = [(0, handle_id conc_handle)]"
proof -
  have "reaches conc_init conc_step (snd (conc_Cancel conc_handle conc_sample))"
    by (rule reaches_step [OF conc_sample_reaches conc_cancel])
  then show ?thesis
    by (simp add: conc_sample_eq conc_Cancel_def Subscription_Cancel_def RemoveSubscriberFromState_def
        Subscription_IsValid_def Publish_next_def all_entries_def)
qed

end
