(* ===== verification/Timer_Scheduler.thy ===== *)
theory Timer_Scheduler
  imports Firmware_Prelude
begin

text \<open>
  \<open>framework/timer\<close>: the timer table, the public operations and the scheduler thread. Every
  operation is atomic, as each holds \<open>mutex_\<close>; the scheduler thread is a small program counter
  that gives up the mutex where the code does (waiting, and while callbacks run), so any
  operation of any thread, callbacks included, may come in between. Clock readings, the outcome
  of a callback and of thread creation are inputs.
\<close>

section \<open>Data\<close>

datatype TimerError = Timer_SUCCESS | Timer_ALREADY_RUNNING | Timer_NOT_RUNNING
  | Timer_INVALID_ARGUMENT | TIMER_NOT_FOUND | TIMER_LIMIT_REACHED
  | Timer_THREAD_CREATION_FAILED | Timer_JOIN_FAILED

datatype TimerMode = ONE_SHOT | PERIODIC

datatype PeriodMode = FIXED_DELAY | FIXED_RATE

datatype TimerState = Timer_PENDING | Timer_RUNNING | Timer_CANCELLED

type_synonym TimerId = u64

definition TimerId_IsValid :: "TimerId \<Rightarrow> bool" where
  "TimerId_IsValid i \<longleftrightarrow> i \<noteq> 0"

definition TimerId_eq :: "TimerId \<Rightarrow> TimerId \<Rightarrow> bool" where
  "TimerId_eq i j \<longleftrightarrow> i = j"

definition kMaxTimers :: nat where
  "kMaxTimers = 64"

record 'cb TimerEntry =
  entry_id :: TimerId
  entry_callback :: 'cb
  entry_mode :: TimerMode
  entry_period_mode :: PeriodMode
  entry_period :: msec
  next_fire :: nsec
  entry_state :: TimerState

record 'cb ExecutingTimer =
  task_id :: TimerId
  task_callback :: 'cb
  task_mode :: TimerMode
  task_period :: msec
  task_period_mode :: PeriodMode
  callback_threw :: bool

text \<open>
  The object. \<open>ts_thread\<close> is \<open>thread_\<close> (\<open>None\<close>: not joinable), and \<open>ts_notified\<close> the state of
  \<open>cv_\<close>: a notification has arrived since the scheduler thread blocked on it.
\<close>

record 'cb TimerScheduler =
  ts_thread :: "nat option"
  ts_running :: bool
  ts_reschedule :: bool
  ts_next_id :: u64
  ts_timers :: "'cb TimerEntry list"
  ts_notified :: bool

datatype CallbackOutcome = Callback_returned | Callback_threw string | Callback_threw_unknown

section \<open>Public operations\<close>

definition TimerScheduler_new :: "'cb TimerScheduler" where
  "TimerScheduler_new =
     \<lparr>ts_thread = None, ts_running = False, ts_reschedule = False, ts_next_id = 1,
      ts_timers = [], ts_notified = False\<rparr>"

text \<open>The destructor: \<open>None\<close> is \<open>std::terminate\<close>.\<close>

definition TimerScheduler_destroy :: "'cb TimerScheduler \<Rightarrow> unit option" where
  "TimerScheduler_destroy s = (if ts_thread s \<noteq> None then None else Some ())"

text \<open>
  \<open>created\<close>: the thread the platform gives, or \<open>None\<close> for \<open>std::system_error\<close>. Assigning to a
  joinable \<open>std::thread\<close> terminates the process: the result is then \<open>None\<close>.
\<close>

definition TimerScheduler_Start ::
  "nat option \<Rightarrow> 'cb TimerScheduler \<Rightarrow> (TimerError \<times> 'cb TimerScheduler) option" where
  "TimerScheduler_Start created s =
     (if ts_running s then Some (Timer_ALREADY_RUNNING, s)
      else
        case created of
          None \<Rightarrow> Some (Timer_THREAD_CREATION_FAILED, s\<lparr>ts_running := False\<rparr>)
        | Some t \<Rightarrow>
            if ts_thread s \<noteq> None then None
            else Some (Timer_SUCCESS, s\<lparr>ts_thread := Some t, ts_running := True\<rparr>))"

definition notify_all_timers :: "'cb TimerScheduler \<Rightarrow> 'cb TimerScheduler" where
  "notify_all_timers s = s\<lparr>ts_notified := True\<rparr>"

definition TimerScheduler_Stop :: "'cb TimerScheduler \<Rightarrow> TimerError \<times> 'cb TimerScheduler" where
  "TimerScheduler_Stop s =
     (if \<not> ts_running s then (Timer_NOT_RUNNING, s)
      else (Timer_SUCCESS, notify_all_timers (s\<lparr>ts_running := False\<rparr>)))"

text \<open>
  \<open>Join\<close> under the lock: it takes the thread out of the object, and then waits for it outside
  the lock. The first component is the thread to wait for.
\<close>

definition TimerScheduler_Join ::
  "'cb TimerScheduler \<Rightarrow> (TimerError + nat) \<times> 'cb TimerScheduler" where
  "TimerScheduler_Join s =
     (case ts_thread s of
        None \<Rightarrow> (Inl Timer_NOT_RUNNING, s)
      | Some t \<Rightarrow> (Inr t, s\<lparr>ts_thread := None\<rparr>))"

definition TimerScheduler_IsRunning :: "'cb TimerScheduler \<Rightarrow> bool" where
  "TimerScheduler_IsRunning s = ts_running s"

text \<open>
  The two schedule operations; \<open>None\<close> for the callback is an empty function, and the second
  component of the result is the value assigned to \<open>out_id\<close>, if any.
\<close>

definition TimerScheduler_ScheduleOneShot ::
  "nsec \<Rightarrow> msec \<Rightarrow> 'cb option \<Rightarrow> 'cb TimerScheduler \<Rightarrow>
   TimerError \<times> TimerId option \<times> 'cb TimerScheduler" where
  "TimerScheduler_ScheduleOneShot now delay callback s =
     (case callback of
        None \<Rightarrow> (Timer_INVALID_ARGUMENT, None, s)
      | Some cb \<Rightarrow>
          if delay \<le> 0 then (Timer_INVALID_ARGUMENT, None, s)
          else if \<not> ts_running s then (Timer_NOT_RUNNING, None, s)
          else if length (ts_timers s) \<ge> kMaxTimers then (TIMER_LIMIT_REACHED, None, s)
          else
            let i = ts_next_id s;
                entry = \<lparr>entry_id = i, entry_callback = cb, entry_mode = ONE_SHOT,
                         entry_period_mode = FIXED_DELAY, entry_period = 0,
                         next_fire = now + ns_of_ms delay, entry_state = Timer_PENDING\<rparr>
            in (Timer_SUCCESS, Some i,
                notify_all_timers
                  (s\<lparr>ts_next_id := i + 1, ts_timers := ts_timers s @ [entry],
                     ts_reschedule := True\<rparr>)))"

definition TimerScheduler_SchedulePeriodic ::
  "nsec \<Rightarrow> msec \<Rightarrow> PeriodMode \<Rightarrow> 'cb option \<Rightarrow> 'cb TimerScheduler \<Rightarrow>
   TimerError \<times> TimerId option \<times> 'cb TimerScheduler" where
  "TimerScheduler_SchedulePeriodic now period mode callback s =
     (case callback of
        None \<Rightarrow> (Timer_INVALID_ARGUMENT, None, s)
      | Some cb \<Rightarrow>
          if period \<le> 0 then (Timer_INVALID_ARGUMENT, None, s)
          else if \<not> ts_running s then (Timer_NOT_RUNNING, None, s)
          else if length (ts_timers s) \<ge> kMaxTimers then (TIMER_LIMIT_REACHED, None, s)
          else
            let i = ts_next_id s;
                entry = \<lparr>entry_id = i, entry_callback = cb, entry_mode = PERIODIC,
                         entry_period_mode = mode, entry_period = period,
                         next_fire = now + ns_of_ms period, entry_state = Timer_PENDING\<rparr>
            in (Timer_SUCCESS, Some i,
                notify_all_timers
                  (s\<lparr>ts_next_id := i + 1, ts_timers := ts_timers s @ [entry],
                     ts_reschedule := True\<rparr>)))"

fun FindEntry :: "TimerId \<Rightarrow> 'cb TimerEntry list \<Rightarrow> 'cb TimerEntry option" where
  "FindEntry i [] = None"
| "FindEntry i (e # es) = (if entry_id e = i then Some e else FindEntry i es)"

text \<open>A write through the pointer that \<open>FindEntry\<close> returns.\<close>

fun modify_entry ::
  "TimerId \<Rightarrow> ('cb TimerEntry \<Rightarrow> 'cb TimerEntry) \<Rightarrow> 'cb TimerEntry list \<Rightarrow> 'cb TimerEntry list" where
  "modify_entry i f [] = []"
| "modify_entry i f (e # es) = (if entry_id e = i then f e # es else e # modify_entry i f es)"

definition TimerScheduler_Cancel ::
  "TimerId \<Rightarrow> 'cb TimerScheduler \<Rightarrow> TimerError \<times> 'cb TimerScheduler" where
  "TimerScheduler_Cancel i s =
     (if \<not> TimerId_IsValid i then (Timer_INVALID_ARGUMENT, s)
      else
        case FindEntry i (ts_timers s) of
          None \<Rightarrow> (TIMER_NOT_FOUND, s)
        | Some entry \<Rightarrow>
            (case entry_state entry of
               Timer_PENDING \<Rightarrow>
                 (Timer_SUCCESS,
                  notify_all_timers
                    (s\<lparr>ts_timers := filter (\<lambda>e. entry_id e \<noteq> i) (ts_timers s),
                       ts_reschedule := True\<rparr>))
             | Timer_RUNNING \<Rightarrow>
                 (Timer_SUCCESS,
                  s\<lparr>ts_timers := modify_entry i (\<lambda>e. e\<lparr>entry_state := Timer_CANCELLED\<rparr>) (ts_timers s)\<rparr>)
             | Timer_CANCELLED \<Rightarrow> (TIMER_NOT_FOUND, s)))"

section \<open>Phases of the scheduler loop\<close>

text \<open>Phase 1, the loop over \<open>timers_\<close> with \<open>next_deadline\<close> as its accumulator.\<close>

fun earliest_deadline :: "'cb TimerEntry list \<Rightarrow> nsec option \<Rightarrow> nsec option" where
  "earliest_deadline [] next_deadline = next_deadline"
| "earliest_deadline (e # es) next_deadline =
     (if entry_state e \<noteq> Timer_PENDING then earliest_deadline es next_deadline
      else
        case next_deadline of
          None \<Rightarrow> earliest_deadline es (Some (next_fire e))
        | Some d \<Rightarrow>
            if next_fire e < d then earliest_deadline es (Some (next_fire e))
            else earliest_deadline es next_deadline)"

definition wait_predicate :: "'cb TimerScheduler \<Rightarrow> bool" where
  "wait_predicate s \<longleftrightarrow> \<not> ts_running s \<or> ts_reschedule s"

definition task_of :: "'cb TimerEntry \<Rightarrow> 'cb ExecutingTimer" where
  "task_of e =
     \<lparr>task_id = entry_id e, task_callback = entry_callback e, task_mode = entry_mode e,
      task_period = entry_period e, task_period_mode = entry_period_mode e,
      callback_threw = False\<rparr>"

text \<open>Phase 3: the table with the due timers marked, and the tasks.\<close>

fun collect_due ::
  "nsec \<Rightarrow> 'cb TimerEntry list \<Rightarrow> 'cb TimerEntry list \<times> 'cb ExecutingTimer list" where
  "collect_due now [] = ([], [])"
| "collect_due now (e # es) =
     (case collect_due now es of
        (es', to_run) \<Rightarrow>
          if entry_state e \<noteq> Timer_PENDING then (e # es', to_run)
          else if next_fire e > now then (e # es', to_run)
          else (e\<lparr>entry_state := Timer_RUNNING\<rparr> # es', task_of e # to_run))"

text \<open>Phase 4, one callback: what its outcome does to the task and to standard error.\<close>

fun ExecuteCallback ::
  "CallbackOutcome \<Rightarrow> 'cb ExecutingTimer \<Rightarrow> 'cb ExecutingTimer \<times> string list" where
  "ExecuteCallback Callback_returned task = (task, [])"
| "ExecuteCallback (Callback_threw what) task =
     (task\<lparr>callback_threw := True\<rparr>,
      [''[TimerScheduler] callback threw std::exception: '' @ what])"
| "ExecuteCallback Callback_threw_unknown task =
     (task\<lparr>callback_threw := True\<rparr>, [''[TimerScheduler] callback threw unknown exception''])"

definition rearm :: "nsec \<Rightarrow> 'cb ExecutingTimer \<Rightarrow> 'cb TimerEntry \<Rightarrow> 'cb TimerEntry" where
  "rearm now task entry =
     (if task_period_mode task = FIXED_DELAY
      then entry\<lparr>next_fire := now + ns_of_ms (task_period task), entry_state := Timer_PENDING\<rparr>
      else
        let candidate = next_fire entry + ns_of_ms (task_period task);
            candidate = (if candidate \<le> now then now + ns_of_ms (task_period task) else candidate)
        in entry\<lparr>next_fire := candidate, entry_state := Timer_PENDING\<rparr>)"

text \<open>
  Phase 5. Each task comes with the clock reading its iteration takes if it re-arms; the other
  arguments are \<open>timers_\<close>, \<open>to_erase\<close> and the lines printed.
\<close>

fun reconcile_loop ::
  "('cb ExecutingTimer \<times> nsec) list \<Rightarrow> 'cb TimerEntry list \<Rightarrow> TimerId list \<Rightarrow> string list \<Rightarrow>
   'cb TimerEntry list \<times> TimerId list \<times> string list" where
  "reconcile_loop [] timers to_erase err = (timers, to_erase, err)"
| "reconcile_loop ((task, now) # ts) timers to_erase err =
     (case FindEntry (task_id task) timers of
        None \<Rightarrow> reconcile_loop ts timers to_erase err
      | Some entry \<Rightarrow>
          if entry_state entry = Timer_CANCELLED then
            reconcile_loop ts timers (to_erase @ [task_id task]) err
          else if callback_threw task then
            reconcile_loop ts timers (to_erase @ [task_id task])
              (err @ [''[TimerScheduler] cancelling timer after callback threw an exception''])
          else if task_mode task = ONE_SHOT then
            reconcile_loop ts timers (to_erase @ [task_id task]) err
          else
            reconcile_loop ts (modify_entry (task_id task) (rearm now task) timers) to_erase err)"

definition reconcile ::
  "('cb ExecutingTimer \<times> nsec) list \<Rightarrow> 'cb TimerEntry list \<Rightarrow> 'cb TimerEntry list \<times> string list" where
  "reconcile ts timers =
     (case reconcile_loop ts timers [] [] of
        (timers', to_erase, err) \<Rightarrow> (filter (\<lambda>e. entry_id e \<notin> set to_erase) timers', err))"

section \<open>The scheduler thread\<close>

text \<open>
  Where the thread stands: not created, at the head of the loop without the mutex, blocked in
  \<open>wait\<close> or \<open>wait_until\<close>, between two callbacks (tasks to run, tasks run), inside a callback, or
  returned.
\<close>

datatype 'cb LoopPc =
    Loop_none
  | Loop_head
  | Wait_any
  | Wait_until nsec
  | Executing "'cb ExecutingTimer list" "'cb ExecutingTimer list"
  | In_callback "'cb ExecutingTimer" "'cb ExecutingTimer list" "'cb ExecutingTimer list"
  | Loop_exit

text \<open>After \<open>wait_until\<close>: the rest of phase 2 and phase 3, up to the unlock.\<close>

definition after_wait_until ::
  "nsec \<Rightarrow> 'cb TimerScheduler \<Rightarrow> 'cb LoopPc \<times> 'cb TimerScheduler" where
  "after_wait_until now s =
     (let s1 = s\<lparr>ts_reschedule := False\<rparr>
      in if \<not> ts_running s1 then (Loop_exit, s1)
         else case collect_due now (ts_timers s1) of
                (timers, to_run) \<Rightarrow> (Executing to_run [], s1\<lparr>ts_timers := timers\<rparr>))"

text \<open>
  From the head of the loop up to the point where the mutex is released. Both waits test their
  predicate before they block.
\<close>

definition loop_head :: "nsec \<Rightarrow> 'cb TimerScheduler \<Rightarrow> 'cb LoopPc \<times> 'cb TimerScheduler" where
  "loop_head now s =
     (if \<not> ts_running s then (Loop_exit, s)
      else
        case earliest_deadline (ts_timers s) None of
          None \<Rightarrow>
            if wait_predicate s then (Loop_head, s\<lparr>ts_reschedule := False\<rparr>)
            else (Wait_any, s\<lparr>ts_notified := False\<rparr>)
        | Some d \<Rightarrow>
            if wait_predicate s then after_wait_until now s
            else (Wait_until d, s\<lparr>ts_notified := False\<rparr>))"

text \<open>A thread blocked in \<open>wait\<close> that is woken, and one in \<open>wait_until\<close>, woken or timed out.\<close>

definition resume_any :: "'cb TimerScheduler \<Rightarrow> 'cb LoopPc \<times> 'cb TimerScheduler" where
  "resume_any s =
     (if wait_predicate s then (Loop_head, s\<lparr>ts_reschedule := False\<rparr>)
      else (Wait_any, s\<lparr>ts_notified := False\<rparr>))"

definition resume_until ::
  "nsec \<Rightarrow> nsec \<Rightarrow> 'cb TimerScheduler \<Rightarrow> 'cb LoopPc \<times> 'cb TimerScheduler" where
  "resume_until now d s =
     (if wait_predicate s \<or> d \<le> now then after_wait_until now s
      else (Wait_until d, s\<lparr>ts_notified := False\<rparr>))"

section \<open>The system\<close>

text \<open>The object, the scheduler thread, the clock, the callbacks started so far and stderr.\<close>

record 'cb TimerSys =
  sched :: "'cb TimerScheduler"
  pc :: "'cb LoopPc"
  clock :: nsec
  fired :: "TimerId list"
  timer_stderr :: "string list"

definition timer_init :: "'cb TimerSys \<Rightarrow> bool" where
  "timer_init s \<longleftrightarrow> sched s = TimerScheduler_new \<and> pc s = Loop_none \<and> fired s = []"

text \<open>A step of the scheduler thread.\<close>

inductive loop_step :: "'cb TimerSys \<Rightarrow> 'cb TimerSys \<Rightarrow> bool" where
  step_head: "pc s = Loop_head \<Longrightarrow> loop_head (clock s) (sched s) = (l, x) \<Longrightarrow>
    loop_step s (s\<lparr>pc := l, sched := x\<rparr>)"
| step_any: "pc s = Wait_any \<Longrightarrow> ts_notified (sched s) \<Longrightarrow> resume_any (sched s) = (l, x) \<Longrightarrow>
    loop_step s (s\<lparr>pc := l, sched := x\<rparr>)"
| step_until: "pc s = Wait_until d \<Longrightarrow> ts_notified (sched s) \<or> d \<le> clock s \<Longrightarrow>
    resume_until (clock s) d (sched s) = (l, x) \<Longrightarrow> loop_step s (s\<lparr>pc := l, sched := x\<rparr>)"
| step_call: "pc s = Executing (t # todo) done_ts \<Longrightarrow>
    loop_step s (s\<lparr>pc := In_callback t todo done_ts, fired := fired s @ [task_id t]\<rparr>)"
| step_return: "pc s = In_callback t todo done_ts \<Longrightarrow> ExecuteCallback out t = (t', err) \<Longrightarrow>
    loop_step s (s\<lparr>pc := Executing todo (done_ts @ [t']), timer_stderr := timer_stderr s @ err\<rparr>)"
| step_reconcile: "pc s = Executing [] (map fst ts) \<Longrightarrow> (\<forall>(t, now) \<in> set ts. clock s \<le> now \<and> now \<le> c) \<Longrightarrow>
    clock s \<le> c \<Longrightarrow> reconcile ts (ts_timers (sched s)) = (timers, err) \<Longrightarrow>
    loop_step s (s\<lparr>pc := Loop_head, sched := (sched s)\<lparr>ts_timers := timers\<rparr>, clock := c,
                   timer_stderr := timer_stderr s @ err\<rparr>)"

text \<open>
  A step of the rest of the program: an operation, time passing, a spurious wake-up. The
  scheduler is started again only when the earlier thread has returned (and, or the process
  terminates, has been joined); the id counter does not wrap.
\<close>

inductive client_step :: "'cb TimerSys \<Rightarrow> 'cb TimerSys \<Rightarrow> bool" where
  client_start: "pc s \<in> {Loop_none, Loop_exit} \<Longrightarrow>
    TimerScheduler_Start created (sched s) = Some (e, x) \<Longrightarrow>
    client_step s (s\<lparr>sched := x, pc := (if e = Timer_SUCCESS then Loop_head else pc s)\<rparr>)"
| client_stop: "TimerScheduler_Stop (sched s) = (e, x) \<Longrightarrow> client_step s (s\<lparr>sched := x\<rparr>)"
| client_join: "TimerScheduler_Join (sched s) = (e, x) \<Longrightarrow> client_step s (s\<lparr>sched := x\<rparr>)"
| client_oneshot: "ts_next_id (sched s) + 1 \<noteq> 0 \<Longrightarrow>
    TimerScheduler_ScheduleOneShot (clock s) delay cb (sched s) = (e, out, x) \<Longrightarrow>
    client_step s (s\<lparr>sched := x\<rparr>)"
| client_periodic: "ts_next_id (sched s) + 1 \<noteq> 0 \<Longrightarrow>
    TimerScheduler_SchedulePeriodic (clock s) period mode cb (sched s) = (e, out, x) \<Longrightarrow>
    client_step s (s\<lparr>sched := x\<rparr>)"
| client_cancel: "TimerScheduler_Cancel i (sched s) = (e, x) \<Longrightarrow> client_step s (s\<lparr>sched := x\<rparr>)"
| client_tick: "clock s \<le> c \<Longrightarrow> client_step s (s\<lparr>clock := c\<rparr>)"
| client_spurious: "client_step s (s\<lparr>sched := (sched s)\<lparr>ts_notified := True\<rparr>\<rparr>)"

definition timer_step :: "'cb TimerSys \<Rightarrow> 'cb TimerSys \<Rightarrow> bool" where
  "timer_step s s' \<longleftrightarrow> loop_step s s' \<or> client_step s s'"

section \<open>What the loops of the code compute\<close>

definition pending :: "'cb TimerEntry \<Rightarrow> bool" where
  "pending e \<longleftrightarrow> entry_state e = Timer_PENDING"

definition due :: "nsec \<Rightarrow> 'cb TimerEntry \<Rightarrow> bool" where
  "due now e \<longleftrightarrow> pending e \<and> next_fire e \<le> now"

definition entry_key :: "'cb TimerEntry \<Rightarrow> TimerId \<times> 'cb \<times> TimerMode \<times> msec \<times> PeriodMode" where
  "entry_key e = (entry_id e, entry_callback e, entry_mode e, entry_period e, entry_period_mode e)"

definition task_key :: "'cb ExecutingTimer \<Rightarrow> TimerId \<times> 'cb \<times> TimerMode \<times> msec \<times> PeriodMode" where
  "task_key t = (task_id t, task_callback t, task_mode t, task_period t, task_period_mode t)"

lemma task_key_of [simp]: "task_key (task_of e) = entry_key e"
  by (simp add: task_key_def entry_key_def task_of_def)

lemma FindEntry_find: "FindEntry i es = find (\<lambda>e. entry_id e = i) es"
  by (induction es) auto

lemma FindEntry_SomeD: "FindEntry i es = Some e \<Longrightarrow> e \<in> set es \<and> entry_id e = i"
  unfolding FindEntry_find by (rule find_key_Some)

lemma FindEntry_distinct: "distinct (map entry_id es) \<Longrightarrow> e \<in> set es \<Longrightarrow> FindEntry (entry_id e) es = Some e"
  unfolding FindEntry_find by (rule find_key_distinct)

lemma modify_entry_map:
  "distinct (map entry_id es) \<Longrightarrow>
    modify_entry i f es = map (\<lambda>e. if entry_id e = i then f e else e) es"
proof (induction es)
  case (Cons e es)
  have "map (\<lambda>e. if entry_id e = i then f e else e) es = es" if "entry_id e = i"
    using Cons.prems that by (intro map_idI) (auto simp: rev_image_eqI)
  with Cons show ?case by auto
qed simp

lemma earliest_deadline_Min:
  "earliest_deadline es acc =
    (let xs = (case acc of None \<Rightarrow> [] | Some d \<Rightarrow> [d]) @ map next_fire (filter pending es)
     in if xs = [] then None else Some (Min (set xs)))"
proof (induction es arbitrary: acc)
  case (Cons e es)
  show ?case
  proof (cases "pending e")
    case True
    show ?thesis
    proof (cases acc)
      case None
      with True Cons.IH [of "Some (next_fire e)"] show ?thesis by (simp add: pending_def)
    next
      case (Some d)
      have "Min (insert d (insert (next_fire e) A)) = Min (insert (min d (next_fire e)) A)"
        if "finite A" for A :: "nsec set"
        using that by (cases "A = {}") (simp_all add: min.assoc)
      moreover have "earliest_deadline (e # es) acc = earliest_deadline es (Some (min d (next_fire e)))"
        using True Some by (simp add: pending_def min_def)
      ultimately show ?thesis
        using True Some by (simp add: Cons.IH [of "Some (min d (next_fire e))"] Let_def)
    qed
  next
    case False
    with Cons show ?thesis by (simp add: pending_def)
  qed
qed (auto split: option.splits)

lemma earliest_None: "earliest_deadline es None = None \<longleftrightarrow> filter pending es = []"
  by (simp add: earliest_deadline_Min)

lemma earliest_Some:
  assumes "earliest_deadline es None = Some d"
  shows "(\<exists>e \<in> set es. pending e \<and> next_fire e = d) \<and> (\<forall>e \<in> set es. pending e \<longrightarrow> d \<le> next_fire e)"
proof -
  let ?A = "set (map next_fire (filter pending es))"
  have d: "d = Min ?A" "?A \<noteq> {}"
    using assms by (auto simp: earliest_deadline_Min Let_def filter_empty_conv split: if_splits)
  then have "d \<in> ?A" using Min_in [of ?A] by simp
  moreover have "\<forall>x \<in> ?A. d \<le> x" using d by simp
  ultimately show ?thesis by auto
qed

lemma collect_due_eq:
  "collect_due now es =
    (map (\<lambda>e. if due now e then e\<lparr>entry_state := Timer_RUNNING\<rparr> else e) es,
     map task_of (filter (due now) es))"
  by (induction es) (auto simp: due_def pending_def)

lemma rearm_fields [simp]:
  "entry_id (rearm now t e) = entry_id e" "entry_mode (rearm now t e) = entry_mode e"
  "entry_period (rearm now t e) = entry_period e" "pending (rearm now t e)"
  "entry_callback (rearm now t e) = entry_callback e"
  "entry_period_mode (rearm now t e) = entry_period_mode e"
  by (simp_all add: rearm_def pending_def Let_def)

text \<open>A running task that survives phase 5, and what becomes of its entry.\<close>

definition survives :: "'cb ExecutingTimer \<Rightarrow> 'cb TimerEntry \<Rightarrow> bool" where
  "survives t e \<longleftrightarrow> entry_id e = task_id t \<and> entry_state e \<noteq> Timer_CANCELLED \<and> \<not> callback_threw t \<and>
     task_mode t = PERIODIC"

text \<open>The table after one timer has been armed again: the other entries, and the new one.\<close>

abbreviation rearm_in :: "nsec \<Rightarrow> 'cb ExecutingTimer \<Rightarrow> 'cb TimerEntry list \<Rightarrow> 'cb TimerEntry list" where
  "rearm_in now t es \<equiv> map (\<lambda>e. if entry_id e = task_id t then rearm now t e else e) es"

lemma rearm_in_ids: "map entry_id (rearm_in now t es) = map entry_id es"
  by simp

lemma set_rearm_in:
  assumes "distinct (map entry_id es)" "e \<in> set es" "entry_id e = task_id t"
  shows "x \<in> set (rearm_in now t es) \<longleftrightarrow> x \<in> set es \<and> entry_id x \<noteq> task_id t \<or> x = rearm now t e"
proof
  assume "x \<in> set (rearm_in now t es)"
  then obtain y where y: "y \<in> set es" "x = (if entry_id y = task_id t then rearm now t y else y)" by auto
  then show "x \<in> set es \<and> entry_id x \<noteq> task_id t \<or> x = rearm now t e"
    using distinct_key_eq [OF assms(1) y(1) assms(2)] assms(3) by (cases "entry_id y = task_id t") simp_all
next
  assume "x \<in> set es \<and> entry_id x \<noteq> task_id t \<or> x = rearm now t e"
  then show "x \<in> set (rearm_in now t es)"
    unfolding set_map using assms(2,3) by (elim disjE conjE) (auto intro: image_eqI [of _ _ x] image_eqI [of _ _ e])
qed

lemma reconcile_loop_spec:
  assumes "distinct (map entry_id es)" "distinct (map (\<lambda>x. task_id (fst x)) ts)"
    "reconcile_loop ts es er err = (es', er', err')"
  shows "map entry_id es' = map entry_id es \<and> set er \<subseteq> set er' \<and>
    (\<forall>e' \<in> set es'.
       e' \<in> set es \<and> (entry_id e' \<in> (\<lambda>x. task_id (fst x)) ` set ts \<longrightarrow> entry_id e' \<in> set er') \<or>
       (\<exists>(t, now) \<in> set ts. \<exists>e \<in> set es. survives t e \<and> e' = rearm now t e))"
  using assms
proof (induction ts arbitrary: es er err)
  case (Cons tn ts)
  obtain t now where tn: "tn = (t, now)" by (cases tn)
  note d = Cons.prems(1)
  have ts: "distinct (map (\<lambda>x. task_id (fst x)) ts)" "task_id t \<notin> (\<lambda>x. task_id (fst x)) ` set ts"
    using Cons.prems(2) by (auto simp: tn)
  consider (absent) "FindEntry (task_id t) es = None"
    | (gone) e err1 where "FindEntry (task_id t) es = Some e"
        "reconcile_loop ts es (er @ [task_id t]) err1 = (es', er', err')"
    | (stay) e where "FindEntry (task_id t) es = Some e" "survives t e"
        "reconcile_loop ts (modify_entry (task_id t) (rearm now t) es) er err = (es', er', err')"
    using Cons.prems(3) FindEntry_SomeD [of "task_id t" es]
    by (cases "task_mode t") (auto simp: tn survives_def split: option.splits if_splits)
  then show ?case
  proof cases
    case absent
    then have ne: "entry_id x \<noteq> task_id t" if "x \<in> set es" for x
      using that by (auto simp: FindEntry_find find_None_iff)
    have "reconcile_loop ts es er err = (es', er', err')"
      using Cons.prems(3) absent by (simp add: tn)
    from Cons.IH [OF d ts(1) this] ne show ?thesis by (simp add: tn) blast
  next
    case gone
    show ?thesis using Cons.IH [OF d ts(1) gone(2)] by (auto simp: tn)
  next
    case (stay e)
    have e: "e \<in> set es" "entry_id e = task_id t" using FindEntry_SomeD [OF stay(1)] by auto
    note set_es = set_rearm_in [OF d e]
    have "distinct (map entry_id (rearm_in now t es))" unfolding rearm_in_ids by (rule d)
    note IH = Cons.IH [OF this ts(1) stay(3) [unfolded modify_entry_map [OF d]], unfolded rearm_in_ids]
    have "e' \<in> set es \<and> (entry_id e' \<in> (\<lambda>x. task_id (fst x)) ` set (tn # ts) \<longrightarrow> entry_id e' \<in> set er') \<or>
        (\<exists>(t, now) \<in> set (tn # ts). \<exists>e \<in> set es. survives t e \<and> e' = rearm now t e)" if "e' \<in> set es'" for e'
    proof -
      from IH that consider (old) "e' \<in> set (rearm_in now t es)"
          "entry_id e' \<in> (\<lambda>x. task_id (fst x)) ` set ts \<longrightarrow> entry_id e' \<in> set er'"
        | (new) u n x where "(u, n) \<in> set ts" "x \<in> set (rearm_in now t es)" "survives u x" "e' = rearm n u x"
        by blast
      then show ?thesis
      proof cases
        case old
        then show ?thesis using set_es stay(2) e(1) by (auto simp: tn)
      next
        case new
        have "task_id u \<noteq> task_id t" using new(1) ts(2) by force
        then have "x \<in> set es" using new(2,3) set_es [of x] e(2) by (auto simp: survives_def)
        with new show ?thesis by (auto simp: tn)
      qed
    qed
    with IH show ?thesis by blast
  qed
qed simp

lemma reconcile_loop_keeps:
  assumes "distinct (map entry_id es)" "distinct (map (\<lambda>x. task_id (fst x)) ts)"
    "reconcile_loop ts es er err = (es', er', err')"
  shows "set er' \<subseteq> set er \<union> {task_id t | t n. (t, n) \<in> set ts \<and> \<not> (\<exists>e \<in> set es. survives t e)} \<and>
    (\<forall>e \<in> set es. entry_id e \<notin> (\<lambda>x. task_id (fst x)) ` set ts \<longrightarrow> e \<in> set es') \<and>
    (\<forall>(t, n) \<in> set ts. \<forall>e \<in> set es. survives t e \<longrightarrow> rearm n t e \<in> set es')"
  using assms
proof (induction ts arbitrary: es er err)
  case (Cons tn ts)
  obtain t now where tn: "tn = (t, now)" by (cases tn)
  note d = Cons.prems(1)
  have ts: "distinct (map (\<lambda>x. task_id (fst x)) ts)" "task_id t \<notin> (\<lambda>x. task_id (fst x)) ` set ts"
    using Cons.prems(2) by (auto simp: tn)
  have only: "FindEntry (task_id t) es = Some e" if "e \<in> set es" "survives t e" for e
    using FindEntry_distinct [OF d that(1)] that(2) by (simp add: survives_def)
  show ?case
  proof (cases "\<exists>e \<in> set es. survives t e")
    case False
    then obtain er1 err1 where "reconcile_loop ts es er1 err1 = (es', er', err')"
      "set er1 \<subseteq> insert (task_id t) (set er)"
      using Cons.prems(3) FindEntry_SomeD [of "task_id t" es]
      by (cases "task_mode t") (fastforce simp: tn survives_def split: option.splits if_splits)+
    with Cons.IH [OF d ts(1)] False show ?thesis by (simp add: tn) blast
  next
    case True
    then obtain e where e: "e \<in> set es" "survives t e" by blast
    then have et: "entry_id e = task_id t" by (simp add: survives_def)
    define es2 where "es2 = rearm_in now t es"
    have r: "reconcile_loop ts es2 er err = (es', er', err')"
      using Cons.prems(3) only [OF e] e(2) by (simp add: tn survives_def modify_entry_map [OF d] es2_def)
    have "distinct (map entry_id es2)" unfolding es2_def rearm_in_ids by (rule d)
    note IH = Cons.IH [OF this ts(1) r] and set_es = set_rearm_in [OF d e(1) et, of _ now, folded es2_def]
    have later: "x \<in> set es \<longleftrightarrow> x \<in> set es2" if "(u, n) \<in> set ts" "survives u x" for u n x
    proof -
      have "entry_id x \<noteq> task_id t" using that ts(2) by (force simp: survives_def)
      then show ?thesis using set_es [of x] et by auto
    qed
    have new: "rearm now t e \<in> set es'" using IH set_es [of "rearm now t e"] ts(2) et by simp
    have "x = e" if "x \<in> set es" "survives t x" for x
      using only [OF that] only [OF e] by simp
    then have "rearm n u x \<in> set es'" if "(u, n) \<in> set (tn # ts)" "x \<in> set es" "survives u x" for u n x
      using that new later IH by (auto simp: tn)
    moreover have "x \<in> set es'" if "x \<in> set es" "entry_id x \<notin> (\<lambda>x. task_id (fst x)) ` set (tn # ts)" for x
      using that set_es [of x] IH by (simp add: tn)
    moreover have "set er' \<subseteq> set er \<union> {task_id t | t n. (t, n) \<in> set (tn # ts) \<and> \<not> (\<exists>e \<in> set es. survives t e)}"
      using IH later by (simp add: tn) blast
    ultimately show ?thesis by blast
  qed
qed simp

lemma reconcile_spec:
  assumes "distinct (map entry_id es)" "distinct (map (\<lambda>x. task_id (fst x)) ts)"
    "reconcile ts es = (es', err)"
  shows "\<exists>P. map entry_id es' = filter P (map entry_id es)"
    and "\<And>e'. e' \<in> set es' \<Longrightarrow>
       e' \<in> set es \<and> entry_id e' \<notin> (\<lambda>x. task_id (fst x)) ` set ts \<or>
       (\<exists>(t, now) \<in> set ts. \<exists>e \<in> set es. survives t e \<and> e' = rearm now t e)"
proof -
  obtain es1 er err1 where r: "reconcile_loop ts es [] [] = (es1, er, err1)"
    by (cases "reconcile_loop ts es [] []")
  have es': "es' = filter (\<lambda>e. entry_id e \<notin> set er) es1"
    using assms(3) r by (simp add: reconcile_def)
  note spec = reconcile_loop_spec [OF assms(1,2) r]
  have "map entry_id es' = filter (\<lambda>i. i \<notin> set er) (map entry_id es1)"
    by (simp add: es' filter_map comp_def)
  moreover have "map entry_id es1 = map entry_id es" using spec by blast
  ultimately show "\<exists>P. map entry_id es' = filter P (map entry_id es)"
    by (intro exI [of _ "\<lambda>i. i \<notin> set er"]) simp
  show "e' \<in> set es \<and> entry_id e' \<notin> (\<lambda>x. task_id (fst x)) ` set ts \<or>
       (\<exists>(t, now) \<in> set ts. \<exists>e \<in> set es. survives t e \<and> e' = rearm now t e)" if "e' \<in> set es'" for e'
  proof -
    from that have "e' \<in> set es1" "entry_id e' \<notin> set er" by (auto simp: es')
    with spec show ?thesis by blast
  qed
qed

section \<open>Invariant of the system\<close>

text \<open>The table: bounded, unique ids below the counter, positive periods.\<close>

definition table_inv :: "'cb TimerScheduler \<Rightarrow> bool" where
  "table_inv x \<longleftrightarrow>
     length (ts_timers x) \<le> kMaxTimers \<and> distinct (map entry_id (ts_timers x)) \<and> ts_next_id x \<noteq> 0 \<and>
     (\<forall>e \<in> set (ts_timers x). entry_id e \<noteq> 0 \<and> entry_id e < ts_next_id x \<and>
        (entry_mode e = PERIODIC \<longrightarrow> 0 < entry_period e))"

text \<open>The tasks of the current batch, run or not.\<close>

fun batch :: "'cb LoopPc \<Rightarrow> 'cb ExecutingTimer list" where
  "batch (Executing todo done_ts) = done_ts @ todo"
| "batch (In_callback t todo done_ts) = done_ts @ t # todo"
| "batch _ = []"

text \<open>The batch is exactly the entries that are not pending, in table order, and all are due.\<close>

definition batch_inv :: "'cb LoopPc \<Rightarrow> nsec \<Rightarrow> 'cb TimerEntry list \<Rightarrow> bool" where
  "batch_inv l now es \<longleftrightarrow>
     map task_key (batch l) = map entry_key (filter (\<lambda>e. \<not> pending e) es) \<and>
     (\<forall>e \<in> set es. \<not> pending e \<longrightarrow> next_fire e \<le> now)"

text \<open>A blocked thread that nothing has woken has nothing to wake up for.\<close>

fun wait_inv :: "'cb LoopPc \<Rightarrow> 'cb TimerScheduler \<Rightarrow> bool" where
  "wait_inv Wait_any x \<longleftrightarrow>
     (ts_notified x \<or> \<not> wait_predicate x) \<and>
     (wait_predicate x \<or> earliest_deadline (ts_timers x) None = None)"
| "wait_inv (Wait_until d) x \<longleftrightarrow>
     (ts_notified x \<or> \<not> wait_predicate x) \<and>
     (wait_predicate x \<or> earliest_deadline (ts_timers x) None = Some d)"
| "wait_inv Loop_none x \<longleftrightarrow> \<not> ts_running x"
| "wait_inv Loop_exit x \<longleftrightarrow> \<not> ts_running x"
| "wait_inv _ x \<longleftrightarrow> True"

definition timer_inv :: "'cb TimerSys \<Rightarrow> bool" where
  "timer_inv s \<longleftrightarrow> table_inv (sched s) \<and> batch_inv (pc s) (clock s) (ts_timers (sched s)) \<and>
     wait_inv (pc s) (sched s)"

lemmas timer_op_defs = TimerScheduler_Start_def TimerScheduler_Stop_def TimerScheduler_Join_def
  TimerScheduler_ScheduleOneShot_def TimerScheduler_SchedulePeriodic_def TimerScheduler_Cancel_def
  notify_all_timers_def

lemma timer_id_less_next: "(x :: u64) < n \<Longrightarrow> n + 1 \<noteq> 0 \<Longrightarrow> x < n + 1"
  by unat_arith

text \<open>Every operation in terms of the table: it keeps it, appends a pending entry, drops a pending
  entry, or marks a running one.\<close>

definition appends :: "nsec \<Rightarrow> 'cb TimerScheduler \<Rightarrow> 'cb TimerScheduler \<Rightarrow> bool" where
  "appends now x y \<longleftrightarrow> (\<exists>e. ts_timers y = ts_timers x @ [e] \<and> pending e \<and> entry_id e = ts_next_id x \<and>
     now < next_fire e \<and> (entry_mode e = PERIODIC \<longrightarrow> 0 < entry_period e) \<and>
     length (ts_timers x) < kMaxTimers \<and> ts_next_id y = ts_next_id x + 1 \<and>
     ts_running x \<and> ts_running y \<and> ts_reschedule y \<and> ts_notified y)"

lemma oneshot_cases:
  assumes "TimerScheduler_ScheduleOneShot now delay cb x = (e, out, y)"
  shows "e \<noteq> Timer_SUCCESS \<and> out = None \<and> y = x \<or>
    e = Timer_SUCCESS \<and> out = Some (ts_next_id x) \<and> appends now x y \<and>
      entry_mode (last (ts_timers y)) = ONE_SHOT"
  using assms
  by (auto simp: timer_op_defs appends_def pending_def Let_def split: option.splits if_splits)

lemma periodic_cases:
  assumes "TimerScheduler_SchedulePeriodic now period mode cb x = (e, out, y)"
  shows "e \<noteq> Timer_SUCCESS \<and> out = None \<and> y = x \<or>
    e = Timer_SUCCESS \<and> out = Some (ts_next_id x) \<and> appends now x y"
  using assms
  by (auto simp: timer_op_defs appends_def pending_def Let_def split: option.splits if_splits)

lemma cancel_cases:
  assumes "TimerScheduler_Cancel i x = (e, y)" "distinct (map entry_id (ts_timers x))"
  shows "e \<noteq> Timer_SUCCESS \<and> y = x \<or>
    e = Timer_SUCCESS \<and> (\<exists>en \<in> set (ts_timers x). entry_id en = i \<and>
      (pending en \<and> y = x\<lparr>ts_timers := filter (\<lambda>e. entry_id e \<noteq> i) (ts_timers x),
         ts_reschedule := True, ts_notified := True\<rparr> \<or>
       entry_state en = Timer_RUNNING \<and>
         y = x\<lparr>ts_timers := map (\<lambda>e. if entry_id e = i then e\<lparr>entry_state := Timer_CANCELLED\<rparr> else e)
            (ts_timers x)\<rparr>))"
  using assms FindEntry_SomeD [of i "ts_timers x"]
  by (auto simp: timer_op_defs pending_def modify_entry_map split: option.splits if_splits TimerState.splits)

lemma pending_others:
  assumes "distinct (map entry_id es)" "en \<in> set es" "pending en"
  shows "filter (\<lambda>e. \<not> pending e) (filter (\<lambda>e. entry_id e \<noteq> entry_id en) es) =
    filter (\<lambda>e. \<not> pending e) es"
  using assms distinct_key_eq [OF assms(1,2)] unfolding filter_filter
  by (intro filter_cong) metis+

lemma entry_key_mark [simp]: "entry_key (e\<lparr>entry_state := st\<rparr>) = entry_key e"
  by (simp add: entry_key_def)

lemma mark_cancelled_keys:
  assumes "distinct (map entry_id es)" "en \<in> set es" "entry_state en = Timer_RUNNING"
    and es': "es' = map (\<lambda>e. if entry_id e = entry_id en then e\<lparr>entry_state := Timer_CANCELLED\<rparr> else e) es"
  shows "map entry_key (filter (\<lambda>e. \<not> pending e) es') = map entry_key (filter (\<lambda>e. \<not> pending e) es)"
proof -
  have "\<not> pending e" if "e \<in> set es" "entry_id e = entry_id en" for e
    using distinct_key_eq [OF assms(1) that(1) assms(2) that(2)] assms(3) by (simp add: pending_def)
  then show ?thesis
    unfolding es' by (induction es) (auto simp: pending_def)
qed

lemma table_inv_flags [simp]:
  "table_inv (x\<lparr>ts_reschedule := r\<rparr>) = table_inv x" "table_inv (x\<lparr>ts_notified := n\<rparr>) = table_inv x"
  "table_inv (x\<lparr>ts_running := b\<rparr>) = table_inv x" "table_inv (x\<lparr>ts_thread := th\<rparr>) = table_inv x"
  by (simp_all add: table_inv_def)

lemma table_inv_map:
  assumes "table_inv x"
    "\<And>e. entry_id (f e) = entry_id e \<and> entry_mode (f e) = entry_mode e \<and> entry_period (f e) = entry_period e"
  shows "table_inv (x\<lparr>ts_timers := map f (ts_timers x)\<rparr>)"
proof -
  have "map entry_id (map f (ts_timers x)) = map entry_id (ts_timers x)" using assms(2) by simp
  moreover have "distinct (map entry_id (ts_timers x))" using assms(1) by (simp add: table_inv_def)
  ultimately have "distinct (map entry_id (map f (ts_timers x)))" by presburger
  then show ?thesis using assms by (simp add: table_inv_def)
qed

lemma inv_appends:
  assumes inv: "timer_inv s" and a: "appends (clock s) (sched s) y" and nw: "ts_next_id (sched s) + 1 \<noteq> 0"
  shows "timer_inv (s\<lparr>sched := y\<rparr>)"
proof -
  from a obtain e where e: "ts_timers y = ts_timers (sched s) @ [e]" "pending e"
    "entry_id e = ts_next_id (sched s)" "entry_mode e = PERIODIC \<longrightarrow> 0 < entry_period e"
    "length (ts_timers (sched s)) < kMaxTimers" "ts_next_id y = ts_next_id (sched s) + 1"
    and f: "ts_running (sched s)" "ts_notified y"
    unfolding appends_def by blast
  have lt: "ts_next_id (sched s) < ts_next_id (sched s) + 1" using nw by unat_arith
  have "ts_next_id (sched s) \<notin> entry_id ` set (ts_timers (sched s))"
    using inv by (force simp: timer_inv_def table_inv_def)
  then have "table_inv y"
    using inv e nw lt by (auto simp: timer_inv_def table_inv_def intro: timer_id_less_next)
  moreover have "batch_inv (pc s) (clock s) (ts_timers y)"
    using inv e by (auto simp: timer_inv_def batch_inv_def)
  moreover have "wait_inv (pc s) y"
    using inv f a by (cases "pc s") (auto simp: timer_inv_def appends_def wait_predicate_def)
  ultimately show ?thesis by (simp add: timer_inv_def)
qed

lemma inv_cancel:
  assumes inv: "timer_inv s" and c: "TimerScheduler_Cancel i (sched s) = (e, y)"
  shows "timer_inv (s\<lparr>sched := y\<rparr>)"
proof -
  let ?x = "sched s"
  have d: "distinct (map entry_id (ts_timers ?x))" using inv by (simp add: timer_inv_def table_inv_def)
  from cancel_cases [OF c d] consider (none) "y = ?x"
    | (drop) en where "en \<in> set (ts_timers ?x)" "entry_id en = i" "pending en"
        "y = ?x\<lparr>ts_timers := filter (\<lambda>e. entry_id e \<noteq> i) (ts_timers ?x),
                ts_reschedule := True, ts_notified := True\<rparr>"
    | (mark) en where "en \<in> set (ts_timers ?x)" "entry_id en = i" "entry_state en = Timer_RUNNING"
        "y = ?x\<lparr>ts_timers := map (\<lambda>e. if entry_id e = i then e\<lparr>entry_state := Timer_CANCELLED\<rparr> else e)
            (ts_timers ?x)\<rparr>"
    by blast
  then show ?thesis
  proof cases
    case drop
    have "table_inv y"
      using inv drop(4) le_trans [OF length_filter_le, of "ts_timers ?x" kMaxTimers]
      by (auto simp: timer_inv_def table_inv_def distinct_map_filter)
    moreover have "batch_inv (pc s) (clock s) (ts_timers y)"
      using inv drop pending_others [OF d drop(1,3)] by (simp add: timer_inv_def batch_inv_def)
    moreover have "wait_inv (pc s) y"
      using inv drop(4) by (cases "pc s") (auto simp: timer_inv_def wait_predicate_def)
    ultimately show ?thesis by (simp add: timer_inv_def)
  next
    case mark
    have same: "ts_timers y = map (\<lambda>e. if entry_id e = entry_id en then e\<lparr>entry_state := Timer_CANCELLED\<rparr> else e)
        (ts_timers ?x)" using mark by simp
    have late: "next_fire e \<le> clock s" if "e \<in> set (ts_timers ?x)" "entry_id e = i" for e
      using inv distinct_key_eq [OF d that(1) mark(1)] that mark(2,3)
      by (auto simp: timer_inv_def batch_inv_def pending_def)
    have "table_inv y"
      unfolding mark(4) by (rule table_inv_map) (use inv in \<open>simp_all add: timer_inv_def\<close>)
    moreover have "batch_inv (pc s) (clock s) (ts_timers y)"
      using inv mark_cancelled_keys [OF d mark(1,3) same] late
      by (auto simp: timer_inv_def batch_inv_def same mark(2))
    moreover have "\<not> pending en" using mark(3) by (simp add: pending_def)
    then have "batch (pc s) \<noteq> []"
      using inv mark(1) by (auto simp: timer_inv_def batch_inv_def filter_empty_conv dest!: arg_cong [where f = length])
    then have "wait_inv (pc s) y" by (cases "pc s") auto
    ultimately show ?thesis by (simp add: timer_inv_def)
  qed (use inv in simp)
qed

lemma collected_keys:
  assumes "\<forall>e \<in> set es. pending e"
  shows "filter (\<lambda>e. \<not> pending e) (map (\<lambda>e. if due now e then e\<lparr>entry_state := Timer_RUNNING\<rparr> else e) es) =
    map (\<lambda>e. e\<lparr>entry_state := Timer_RUNNING\<rparr>) (filter (due now) es)"
  using assms by (induction es) (auto simp: pending_def due_def)

lemma inv_after_wait_until:
  assumes "table_inv x" "batch_inv Loop_head now (ts_timers x)" "after_wait_until now x = (l, y)"
  shows "table_inv y \<and> batch_inv l now (ts_timers y) \<and> wait_inv l y"
proof (cases "ts_running x")
  case True
  let ?f = "\<lambda>e. if due now e then e\<lparr>entry_state := Timer_RUNNING\<rparr> else e"
  have all: "\<forall>e \<in> set (ts_timers x). pending e"
    using assms(2) by (auto simp: batch_inv_def filter_empty_conv)
  have l: "l = Executing (map task_of (filter (due now) (ts_timers x))) []"
    and y: "y = x\<lparr>ts_reschedule := False, ts_timers := map ?f (ts_timers x)\<rparr>"
    using assms(3) True by (auto simp: after_wait_until_def Let_def collect_due_eq)
  have "table_inv y"
    using table_inv_map [of "x\<lparr>ts_reschedule := False\<rparr>" ?f] assms(1) by (simp add: y)
  moreover have "batch_inv l now (ts_timers y)"
    using collected_keys [OF all, of now] all by (auto simp: batch_inv_def l y comp_def due_def)
  ultimately show ?thesis by (simp add: l)
next
  case False
  then show ?thesis using assms by (auto simp: after_wait_until_def Let_def table_inv_def batch_inv_def)
qed

lemma batch_inv_cong: "batch l = batch l' \<Longrightarrow> batch_inv l now es = batch_inv l' now es"
  by (simp add: batch_inv_def)

lemma batch_inv_later: "batch_inv l now es \<Longrightarrow> now \<le> now' \<Longrightarrow> batch_inv l now' es"
  by (auto simp: batch_inv_def)

lemma wait_predicate_flags [simp]:
  "wait_predicate (x\<lparr>ts_notified := n\<rparr>) = wait_predicate x"
  "wait_predicate (x\<lparr>ts_thread := th\<rparr>) = wait_predicate x"
  "wait_predicate (x\<lparr>ts_timers := es\<rparr>) = wait_predicate x"
  by (simp_all add: wait_predicate_def)

lemma inv_loop_head:
  assumes "table_inv x" "batch_inv Loop_head now (ts_timers x)" "loop_head now x = (l, y)"
  shows "table_inv y \<and> batch_inv l now (ts_timers y) \<and> wait_inv l y"
  using assms inv_after_wait_until [OF assms(1,2)]
  by (auto simp: loop_head_def batch_inv_def split: option.splits if_splits)

lemma inv_resume_any:
  assumes "table_inv x" "batch_inv Wait_any now (ts_timers x)" "resume_any x = (l, y)"
    and "wait_predicate x \<or> earliest_deadline (ts_timers x) None = None"
  shows "table_inv y \<and> batch_inv l now (ts_timers y) \<and> wait_inv l y"
  using assms by (auto simp: resume_any_def batch_inv_def split: if_splits)

lemma inv_resume_until:
  assumes "table_inv x" "batch_inv Loop_head now (ts_timers x)" "resume_until now d x = (l, y)"
    and "wait_predicate x \<or> earliest_deadline (ts_timers x) None = Some d"
  shows "table_inv y \<and> batch_inv l now (ts_timers y) \<and> wait_inv l y"
  using assms inv_after_wait_until [OF assms(1,2)]
  by (auto simp: resume_until_def batch_inv_def split: if_splits)

lemma reconcile_batch:
  assumes "batch_inv (Executing [] (map fst ts)) now es" "distinct (map entry_id es)"
  shows "map (\<lambda>x. task_id (fst x)) ts = map entry_id (filter (\<lambda>e. \<not> pending e) es)"
    and "distinct (map (\<lambda>x. task_id (fst x)) ts)"
proof -
  from assms(1) have "map task_key (map fst ts) = map entry_key (filter (\<lambda>e. \<not> pending e) es)"
    by (simp add: batch_inv_def)
  from arg_cong [OF this, of "map fst"]
  show eq: "map (\<lambda>x. task_id (fst x)) ts = map entry_id (filter (\<lambda>e. \<not> pending e) es)"
    by (simp add: task_key_def entry_key_def comp_def)
  show "distinct (map (\<lambda>x. task_id (fst x)) ts)"
    unfolding eq using assms(2) by (rule distinct_map_filter)
qed

lemma reconcile_pending:
  assumes "batch_inv (Executing [] (map fst ts)) now es" "distinct (map entry_id es)"
    "reconcile ts es = (es', err)" "e' \<in> set es'"
  shows "pending e' \<and> (e' \<in> set es \<or>
    (\<exists>(t, n) \<in> set ts. \<exists>e \<in> set es. survives t e \<and> \<not> pending e \<and> e' = rearm n t e))"
proof -
  note b = reconcile_batch [OF assms(1,2)]
  have ids: "(\<lambda>x. task_id (fst x)) ` set ts = entry_id ` {e \<in> set es. \<not> pending e}"
    using arg_cong [OF b(1), of set] by simp
  from reconcile_spec(2) [OF assms(2) b(2) assms(3,4)] show ?thesis
  proof (elim disjE)
    assume "e' \<in> set es \<and> entry_id e' \<notin> (\<lambda>x. task_id (fst x)) ` set ts"
    then show ?thesis unfolding ids by auto
  next
    assume "\<exists>(t, n) \<in> set ts. \<exists>e \<in> set es. survives t e \<and> e' = rearm n t e"
    then obtain t n e where e: "(t, n) \<in> set ts" "e \<in> set es" "survives t e" "e' = rearm n t e" by auto
    have "task_id t \<in> (\<lambda>x. task_id (fst x)) ` set ts" using e(1) by force
    then obtain e0 where "e0 \<in> set es" "\<not> pending e0" "entry_id e0 = entry_id e"
      using e(3) unfolding ids by (auto simp: survives_def)
    with distinct_key_eq [OF assms(2) _ e(2)] have "\<not> pending e" by blast
    with e show ?thesis by auto
  qed
qed

lemma inv_reconcile:
  assumes inv: "table_inv x" and b: "batch_inv (Executing [] (map fst ts)) now (ts_timers x)"
    and r: "reconcile ts (ts_timers x) = (es', err)"
  shows "table_inv (x\<lparr>ts_timers := es'\<rparr>) \<and> batch_inv Loop_head now' es'"
proof -
  have d: "distinct (map entry_id (ts_timers x))" using inv by (simp add: table_inv_def)
  obtain P where P: "map entry_id es' = filter P (map entry_id (ts_timers x))"
    using reconcile_spec(1) [OF d reconcile_batch(2) [OF b d] r] by blast
  have "length es' \<le> length (ts_timers x)"
    using arg_cong [OF P, of length] length_filter_le [of P "map entry_id (ts_timers x)"] by simp
  moreover have "distinct (map entry_id es')" unfolding P using d by simp
  moreover have "\<forall>e' \<in> set es'. \<exists>e \<in> set (ts_timers x). entry_id e' = entry_id e \<and> entry_mode e' = entry_mode e \<and>
      entry_period e' = entry_period e"
    using reconcile_pending [OF b d r] by fastforce
  ultimately have "table_inv (x\<lparr>ts_timers := es'\<rparr>)" using inv by (fastforce simp: table_inv_def)
  moreover have "batch_inv Loop_head now' es'"
    using reconcile_pending [OF b d r] by (simp add: batch_inv_def filter_empty_conv)
  ultimately show ?thesis by blast
qed


lemma ExecuteCallback_key: "task_key (fst (ExecuteCallback out t)) = task_key t"
  by (cases out) (simp_all add: task_key_def)

lemma timer_inv_loop: "loop_step s s' \<Longrightarrow> timer_inv s \<Longrightarrow> timer_inv s'"
proof (induction rule: loop_step.induct)
  case (step_head s l x)
  then show ?case using inv_loop_head [of "sched s" "clock s" l x] by (auto simp: timer_inv_def)
next
  case (step_any s l x)
  then show ?case using inv_resume_any [of "sched s" "clock s" l x] by (auto simp: timer_inv_def)
next
  case (step_until s d l x)
  then show ?case using inv_resume_until [of "sched s" "clock s" d l x]
    by (auto simp: timer_inv_def batch_inv_def)
next
  case (step_call s t todo done_ts)
  then show ?case by (simp add: timer_inv_def batch_inv_def)
next
  case (step_return s t todo done_ts out t' err)
  then show ?case using ExecuteCallback_key [of out t] by (simp add: timer_inv_def batch_inv_def)
next
  case (step_reconcile s ts c timers err)
  then show ?case using inv_reconcile [of "sched s" ts "clock s" timers err c]
    by (simp add: timer_inv_def)
qed

lemma timer_inv_client: "client_step s s' \<Longrightarrow> timer_inv s \<Longrightarrow> timer_inv s'"
proof (induction rule: client_step.induct)
  case (client_start s created e x)
  then show ?case
    by (auto simp: timer_inv_def TimerScheduler_Start_def batch_inv_def split: if_splits option.splits)
next
  case (client_stop s e x)
  then show ?case
    by (cases "pc s") (auto simp: timer_inv_def timer_op_defs wait_predicate_def split: if_splits)
next
  case (client_join s e x)
  then show ?case
    by (cases "pc s") (auto simp: timer_inv_def timer_op_defs split: option.splits)
next
  case (client_oneshot s delay cb e out x)
  then show ?case using oneshot_cases [OF client_oneshot(2)] inv_appends by auto
next
  case (client_periodic s period mode cb e out x)
  then show ?case using periodic_cases [OF client_periodic(2)] inv_appends by auto
next
  case (client_cancel i s e x)
  then show ?case using inv_cancel by blast
next
  case (client_tick s c)
  then show ?case by (auto simp: timer_inv_def intro: batch_inv_later)
next
  case (client_spurious s)
  then show ?case by (cases "pc s") (auto simp: timer_inv_def)
qed

lemma timer_inv_step: "timer_step s s' \<Longrightarrow> timer_inv s \<Longrightarrow> timer_inv s'"
  by (auto simp: timer_step_def intro: timer_inv_loop timer_inv_client)

interpretation timer_sys: inductive_invariant timer_init timer_step timer_inv
  by unfold_locales
    (simp add: timer_init_def timer_inv_def table_inv_def batch_inv_def TimerScheduler_new_def,
     rule timer_inv_step)

section \<open>How often a timer can still fire\<close>

text \<open>Callbacks of the batch that have not started.\<close>

fun waiting :: "'cb LoopPc \<Rightarrow> TimerId list" where
  "waiting (Executing todo done_ts) = map task_id todo"
| "waiting (In_callback t todo done_ts) = map task_id todo"
| "waiting _ = []"

definition shots :: "TimerId \<Rightarrow> 'cb TimerSys \<Rightarrow> nat" where
  "shots i s = count_list (fired s) i + count_list (waiting (pc s)) i +
     (if \<exists>e \<in> set (ts_timers (sched s)). entry_id e = i \<and> pending e then 1 else 0)"

text \<open>A timer that will not be armed again: its shots are bounded for ever.\<close>

definition finite_inv :: "TimerId \<Rightarrow> nat \<Rightarrow> 'cb TimerSys \<Rightarrow> bool" where
  "finite_inv i k s \<longleftrightarrow> timer_inv s \<and> shots i s \<le> k \<and> i < ts_next_id (sched s) \<and>
     (\<forall>e \<in> set (ts_timers (sched s)). entry_id e = i \<longrightarrow>
        entry_mode e = ONE_SHOT \<or> entry_state e = Timer_CANCELLED)"

lemma count_list_distinct: "distinct xs \<Longrightarrow> count_list xs x = (if x \<in> set xs then 1 else 0)"
  by (induction xs) auto

lemma waiting_batch: "set (waiting l) \<subseteq> task_id ` set (batch l)"
  by (cases l) auto

lemma batch_ids:
  assumes "batch_inv l now es"
  shows "map task_id (batch l) = map entry_id (filter (\<lambda>e. \<not> pending e) es)"
proof -
  have "map task_key (batch l) = map entry_key (filter (\<lambda>e. \<not> pending e) es)"
    using assms by (simp add: batch_inv_def)
  from arg_cong [OF this, of "map fst"] show ?thesis
    by (simp add: task_key_def entry_key_def comp_def)
qed

lemma batch_entry:
  assumes "batch_inv l now es" "distinct (map entry_id es)" "t \<in> set (batch l)" "e \<in> set es"
    "entry_id e = task_id t"
  shows "task_key t = entry_key e \<and> \<not> pending e"
proof -
  have "set (map task_key (batch l)) = set (map entry_key (filter (\<lambda>e. \<not> pending e) es))"
    using assms(1) by (simp add: batch_inv_def)
  then have "task_key t \<in> entry_key ` {e \<in> set es. \<not> pending e}" using assms(3) by auto
  then obtain e0 where e0: "e0 \<in> set es" "\<not> pending e0" "task_key t = entry_key e0" by auto
  then have "e0 = e"
    using distinct_key_eq [OF assms(2) e0(1) assms(4)] assms(5) by (simp add: task_key_def entry_key_def)
  with e0 show ?thesis by simp
qed

text \<open>Collecting turns a pending shot into a waiting one.\<close>

lemma shots_collect:
  assumes "distinct (map entry_id es)" "\<forall>e \<in> set es. pending e"
  shows "count_list (map task_id (map task_of (filter (due now) es))) i +
      (if \<exists>e \<in> set (map (\<lambda>e. if due now e then e\<lparr>entry_state := Timer_RUNNING\<rparr> else e) es).
           entry_id e = i \<and> pending e then 1 else 0)
    = (if \<exists>e \<in> set es. entry_id e = i \<and> pending e then 1 else (0::nat))"
proof -
  have ids: "map task_id (map task_of (filter (due now) es)) = map entry_id (filter (due now) es)"
    by (simp add: task_of_def)
  have "distinct (map entry_id (filter (due now) es))" using assms(1) by (rule distinct_map_filter)
  from count_list_distinct [OF this, of i]
  have c: "count_list (map task_id (map task_of (filter (due now) es))) i =
      (if \<exists>e \<in> set es. entry_id e = i \<and> due now e then 1 else 0)"
    unfolding ids by auto
  have p: "(\<exists>e \<in> set (map (\<lambda>e. if due now e then e\<lparr>entry_state := Timer_RUNNING\<rparr> else e) es).
      entry_id e = i \<and> pending e) \<longleftrightarrow> (\<exists>e \<in> set es. entry_id e = i \<and> \<not> due now e)"
    using assms(2) by (auto simp: pending_def)
  have "\<not> ((\<exists>e \<in> set es. entry_id e = i \<and> due now e) \<and> (\<exists>e \<in> set es. entry_id e = i \<and> \<not> due now e))"
    using distinct_key_eq [OF assms(1)] by metis
  then show ?thesis unfolding c p using assms(2) by auto
qed

lemma shots_after_wait:
  assumes "distinct (map entry_id (ts_timers x))" "batch_inv Loop_head now (ts_timers x)"
    "after_wait_until now x = (l, y)"
  shows "count_list (waiting l) i + (if \<exists>e \<in> set (ts_timers y). entry_id e = i \<and> pending e then 1 else 0)
    = (if \<exists>e \<in> set (ts_timers x). entry_id e = i \<and> pending e then 1 else (0::nat))"
proof -
  have "\<forall>e \<in> set (ts_timers x). pending e"
    using assms(2) by (auto simp: batch_inv_def filter_empty_conv)
  from shots_collect [OF assms(1) this, of now i] show ?thesis
    using assms(3) by (auto simp: after_wait_until_def Let_def collect_due_eq split: if_splits)
qed

text \<open>The operations of the loop that hold the mutex leave modes and counters alone.\<close>

lemma after_wait_entries:
  assumes "after_wait_until now x = (l, y)"
  shows "ts_next_id y = ts_next_id x \<and> (\<forall>e' \<in> set (ts_timers y). \<exists>e \<in> set (ts_timers x).
    entry_id e' = entry_id e \<and> entry_mode e' = entry_mode e \<and>
    (entry_state e = Timer_CANCELLED \<longrightarrow> entry_state e' = Timer_CANCELLED))"
proof (cases "ts_running x")
  case True
  let ?f = "\<lambda>e. if due now e then e\<lparr>entry_state := Timer_RUNNING\<rparr> else e"
  have y: "y = x\<lparr>ts_reschedule := False, ts_timers := map ?f (ts_timers x)\<rparr>"
    using assms True by (auto simp: after_wait_until_def Let_def collect_due_eq)
  have "entry_id (?f e) = entry_id e \<and> entry_mode (?f e) = entry_mode e \<and>
    (entry_state e = Timer_CANCELLED \<longrightarrow> entry_state (?f e) = Timer_CANCELLED)" for e
    by (simp add: due_def pending_def)
  then show ?thesis unfolding y by fastforce
qed (use assms in \<open>auto simp: after_wait_until_def Let_def\<close>)

lemma finite_after_wait:
  assumes inv: "finite_inv i k s" and b: "batch (pc s) = []"
    and r: "after_wait_until (clock s) (sched s) = (l, y)" and ti: "timer_inv (s\<lparr>pc := l, sched := y\<rparr>)"
  shows "finite_inv i k (s\<lparr>pc := l, sched := y\<rparr>)"
proof -
  have "waiting (pc s) = []" using b by (cases "pc s") auto
  moreover have "batch_inv Loop_head (clock s) (ts_timers (sched s))"
    using inv b by (simp add: finite_inv_def timer_inv_def batch_inv_def)
  moreover have "distinct (map entry_id (ts_timers (sched s)))"
    using inv by (simp add: finite_inv_def timer_inv_def table_inv_def)
  ultimately have "shots i (s\<lparr>pc := l, sched := y\<rparr>) = shots i s"
    using shots_after_wait [OF _ _ r, of i] by (simp add: shots_def)
  with inv ti after_wait_entries [OF r] show ?thesis by (fastforce simp: finite_inv_def)
qed

lemma finite_same_table:
  assumes "finite_inv i k s" "timer_inv s'" "ts_timers (sched s') = ts_timers (sched s)"
    "ts_next_id (sched s') = ts_next_id (sched s)"
    "count_list (fired s') i + count_list (waiting (pc s')) i \<le>
       count_list (fired s) i + count_list (waiting (pc s)) i"
  shows "finite_inv i k s'"
  using assms by (simp add: finite_inv_def shots_def)

lemma finite_reconcile:
  assumes inv: "finite_inv i k s" and pc: "pc s = Executing [] (map fst ts)"
    and r: "reconcile ts (ts_timers (sched s)) = (timers, err)"
    and ti: "timer_inv (s\<lparr>pc := Loop_head, sched := (sched s)\<lparr>ts_timers := timers\<rparr>, clock := c,
        timer_stderr := timer_stderr s @ err\<rparr>)"
  shows "finite_inv i k (s\<lparr>pc := Loop_head, sched := (sched s)\<lparr>ts_timers := timers\<rparr>, clock := c,
        timer_stderr := timer_stderr s @ err\<rparr>)"
proof -
  let ?es = "ts_timers (sched s)"
  have d: "distinct (map entry_id ?es)" and b: "batch_inv (Executing [] (map fst ts)) (clock s) ?es"
    using inv pc by (auto simp: finite_inv_def timer_inv_def table_inv_def)
  have no_rearm: "\<not> survives t e" if "(t, n) \<in> set ts" "e \<in> set ?es" "entry_id e = i" for t n e
  proof
    assume sv: "survives t e"
    have "t \<in> set (batch (Executing [] (map fst ts)))" using that(1) by force
    from batch_entry [OF b d this that(2)] sv have "task_mode t = entry_mode e"
      by (simp add: survives_def task_key_def entry_key_def)
    with sv inv that(2,3) show False by (auto simp: finite_inv_def survives_def)
  qed
  have old: "e' \<in> set ?es" if "e' \<in> set timers" "entry_id e' = i" for e'
    using reconcile_pending [OF b d r that(1)] no_rearm that(2) by fastforce
  then have "shots i (s\<lparr>pc := Loop_head, sched := (sched s)\<lparr>ts_timers := timers\<rparr>, clock := c,
      timer_stderr := timer_stderr s @ err\<rparr>) \<le> shots i s"
    by (auto simp: shots_def)
  with inv ti old show ?thesis by (auto simp: finite_inv_def)
qed

lemma finite_loop:
  assumes "loop_step s s'" "finite_inv i k s"
  shows "finite_inv i k s'"
proof -
  have ti: "timer_inv s'" using timer_inv_loop [OF assms(1)] assms(2) by (simp add: finite_inv_def)
  show ?thesis
    using assms ti
  proof (induction rule: loop_step.induct)
    case (step_head s l x)
    show ?case
    proof (cases "after_wait_until (clock s) (sched s) = (l, x)")
      case True
      then show ?thesis using finite_after_wait step_head by fastforce
    next
      case False
      with step_head show ?thesis
        by (intro finite_same_table [OF step_head(3,4)])
          (auto simp: loop_head_def split: option.splits if_splits)
    qed
  next
    case (step_any s l x)
    then show ?case
      by (intro finite_same_table [OF step_any(4,5)]) (auto simp: resume_any_def split: if_splits)
  next
    case (step_until s d l x)
    show ?case
    proof (cases "after_wait_until (clock s) (sched s) = (l, x)")
      case True
      then show ?thesis using finite_after_wait step_until by fastforce
    next
      case False
      then have "l = Wait_until d" "x = (sched s)\<lparr>ts_notified := False\<rparr>"
        using step_until(3) by (auto simp: resume_until_def split: if_splits)
      then show ?thesis by (intro finite_same_table [OF step_until(4,5)]) simp_all
    qed
  next
    case (step_call s t todo done_ts)
    then show ?case by (intro finite_same_table [OF step_call(2,3)]) (auto simp: count_list_append)
  next
    case (step_return s t todo done_ts out t' err)
    then show ?case by (intro finite_same_table [OF step_return(3,4)]) auto
  next
    case (step_reconcile s ts c timers err)
    then show ?case by (intro finite_reconcile)
  qed
qed

lemma finite_appends:
  assumes "finite_inv i k s" "appends (clock s) (sched s) x" "timer_inv (s\<lparr>sched := x\<rparr>)"
    "ts_next_id (sched s) + 1 \<noteq> 0"
  shows "finite_inv i k (s\<lparr>sched := x\<rparr>)"
proof -
  from assms(2) obtain e where e: "ts_timers x = ts_timers (sched s) @ [e]"
    "entry_id e = ts_next_id (sched s)" "ts_next_id x = ts_next_id (sched s) + 1"
    unfolding appends_def by blast
  have i: "i < ts_next_id (sched s)" using assms(1) by (simp add: finite_inv_def)
  then have ne: "entry_id e \<noteq> i" using e by auto
  then have "shots i (s\<lparr>sched := x\<rparr>) = shots i s" by (simp add: shots_def e(1))
  with assms(1,3) i ne e timer_id_less_next [OF i assms(4)] show ?thesis
    by (auto simp: finite_inv_def)
qed

lemma finite_client:
  assumes "client_step s s'" "finite_inv i k s"
  shows "finite_inv i k s'"
proof -
  have ti: "timer_inv s'" using timer_inv_client [OF assms(1)] assms(2) by (simp add: finite_inv_def)
  show ?thesis
    using assms ti
  proof (induction rule: client_step.induct)
    case (client_start s created e x)
    then show ?case
      by (intro finite_same_table [OF client_start(3,4)])
        (auto simp: TimerScheduler_Start_def split: if_splits option.splits)
  next
    case (client_stop s e x)
    then show ?case
      by (intro finite_same_table [OF client_stop(2,3)]) (auto simp: timer_op_defs split: if_splits)
  next
    case (client_join s e x)
    then show ?case
      by (intro finite_same_table [OF client_join(2,3)]) (auto simp: timer_op_defs split: option.splits)
  next
    case (client_oneshot s delay cb e out x)
    then show ?case using oneshot_cases [OF client_oneshot(2)] finite_appends by auto
  next
    case (client_periodic s period mode cb e out x)
    then show ?case using periodic_cases [OF client_periodic(2)] finite_appends by auto
  next
    case (client_cancel j s e x)
    have d: "distinct (map entry_id (ts_timers (sched s)))"
      using client_cancel by (simp add: finite_inv_def timer_inv_def table_inv_def)
    have n: "ts_next_id x = ts_next_id (sched s)"
      using cancel_cases [OF client_cancel(1) d] by auto
    have m: "\<exists>e \<in> set (ts_timers (sched s)). entry_id e = entry_id e' \<and> entry_mode e = entry_mode e' \<and>
        (entry_state e = entry_state e' \<or> entry_state e' = Timer_CANCELLED)"
      if "e' \<in> set (ts_timers x)" for e'
      using cancel_cases [OF client_cancel(1) d] that by auto blast+
    then have "shots i (s\<lparr>sched := x\<rparr>) \<le> shots i s" by (fastforce simp: shots_def pending_def)
    with client_cancel m n show ?case by (fastforce simp: finite_inv_def)
  next
    case (client_tick s c)
    then show ?case by (intro finite_same_table [OF client_tick(2,3)]) auto
  next
    case (client_spurious s)
    then show ?case by (intro finite_same_table [OF client_spurious(1,2)]) auto
  qed
qed

lemma finite_steps:
  assumes "timer_step\<^sup>*\<^sup>* s s'" "finite_inv i k s"
  shows "finite_inv i k s'"
  using assms
  by (induction rule: rtranclp_induct) (auto simp: timer_step_def intro: finite_loop finite_client)

text \<open>Every id ever called is below the counter.\<close>

definition fired_inv :: "'cb TimerSys \<Rightarrow> bool" where
  "fired_inv s \<longleftrightarrow> timer_inv s \<and> (\<forall>i \<in> set (fired s). i < ts_next_id (sched s))"

lemma batch_below:
  assumes "timer_inv s" "t \<in> set (batch (pc s))"
  shows "task_id t < ts_next_id (sched s) \<and>
    (\<exists>e \<in> set (ts_timers (sched s)). entry_id e = task_id t \<and> \<not> pending e)"
proof -
  have "map task_id (batch (pc s)) = map entry_id (filter (\<lambda>e. \<not> pending e) (ts_timers (sched s)))"
    using assms(1) batch_ids by (auto simp: timer_inv_def)
  from arg_cong [OF this, of set] assms(2)
  have "task_id t \<in> entry_id ` {e \<in> set (ts_timers (sched s)). \<not> pending e}" by auto
  with assms(1) show ?thesis by (auto simp: timer_inv_def table_inv_def)
qed

lemma fired_next_id:
  assumes "timer_step s s'" "timer_inv s" "i < ts_next_id (sched s)"
  shows "i < ts_next_id (sched s')"
proof -
  from assms(1) show ?thesis
    unfolding timer_step_def
  proof
    assume "loop_step s s'"
    then show ?thesis
      using assms(3) by cases
        (auto simp: loop_head_def resume_any_def resume_until_def split: option.splits if_splits
          dest: after_wait_entries)
  next
    assume "client_step s s'"
    then show ?thesis
      using assms(3)
    proof cases
      case (client_oneshot delay cb e out x)
      then show ?thesis using oneshot_cases [OF client_oneshot(3)] assms(3) timer_id_less_next
        by (auto simp: appends_def)
    next
      case (client_periodic period mode cb e out x)
      then show ?thesis using periodic_cases [OF client_periodic(3)] assms(3) timer_id_less_next
        by (auto simp: appends_def)
    next
      case (client_cancel j e x)
      have "distinct (map entry_id (ts_timers (sched s)))"
        using assms(2) by (simp add: timer_inv_def table_inv_def)
      from cancel_cases [OF client_cancel(2) this] assms(3) client_cancel show ?thesis by auto
    qed (auto simp: TimerScheduler_Start_def TimerScheduler_Stop_def TimerScheduler_Join_def
        notify_all_timers_def split: if_splits option.splits)
  qed
qed

lemma fired_cases:
  assumes "timer_step s s'"
  shows "fired s' = fired s \<or> (\<exists>t todo ds. pc s = Executing (t # todo) ds \<and> fired s' = fired s @ [task_id t])"
  using assms unfolding timer_step_def
proof
  assume "loop_step s s'"
  then show ?thesis by cases auto
next
  assume "client_step s s'"
  then show ?thesis by cases auto
qed

interpretation fired_sys: inductive_invariant timer_init timer_step fired_inv
proof
  fix s :: "'a TimerSys"
  assume "timer_init s"
  then show "fired_inv s" using timer_sys.inv_init by (simp add: fired_inv_def timer_init_def)
next
  fix s t :: "'a TimerSys"
  assume st: "timer_step s t" and inv: "fired_inv s"
  have "i < ts_next_id (sched t)" if "i \<in> set (fired t)" for i
  proof -
    have "i < ts_next_id (sched s)"
      using fired_cases [OF st] inv that batch_below [of s] by (auto simp: fired_inv_def)
    then show ?thesis using fired_next_id [OF st] inv by (simp add: fired_inv_def)
  qed
  then show "fired_inv t" using timer_inv_step [OF st] inv by (simp add: fired_inv_def)
qed

section \<open>Properties\<close>

lemma reconcile_complete:
  assumes b: "batch_inv (Executing [] (map fst ts)) now es" and d: "distinct (map entry_id es)"
    and r: "reconcile ts es = (es', err)"
  shows "e \<in> set es \<Longrightarrow> pending e \<Longrightarrow> e \<in> set es'"
    and "(t, n) \<in> set ts \<Longrightarrow> e \<in> set es \<Longrightarrow> survives t e \<Longrightarrow> rearm n t e \<in> set es'"
proof -
  obtain es1 er err1 where l: "reconcile_loop ts es [] [] = (es1, er, err1)"
    by (cases "reconcile_loop ts es [] []")
  have es': "es' = filter (\<lambda>e. entry_id e \<notin> set er) es1" using r l by (simp add: reconcile_def)
  note ids = reconcile_batch [OF b d]
  note keep = reconcile_loop_keeps [OF d ids(2) l]
  have er: "i \<in> (\<lambda>x. task_id (fst x)) ` set ts" if "i \<in> set er" for i
    using keep that by force
  {
    assume e: "e \<in> set es" "pending e"
    have "entry_id e \<notin> (\<lambda>x. task_id (fst x)) ` set ts"
    proof
      assume "entry_id e \<in> (\<lambda>x. task_id (fst x)) ` set ts"
      then have "entry_id e \<in> entry_id ` {e \<in> set es. \<not> pending e}"
        using arg_cong [OF ids(1), of set] by auto
      then show False using distinct_key_eq [OF d e(1)] e(2) by auto
    qed
    with keep e er show "e \<in> set es'" by (auto simp: es')
  }
  {
    assume e: "(t, n) \<in> set ts" "e \<in> set es" "survives t e"
    have "entry_id e \<notin> set er"
    proof
      assume "entry_id e \<in> set er"
      then obtain u m where u: "entry_id e = task_id u" "(u, m) \<in> set ts" "\<not> (\<exists>e \<in> set es. survives u e)"
        using keep by auto
      with distinct_key_eq [OF ids(2) e(1) u(2)] e(3) have "u = t" by (simp add: survives_def)
      with u(3) e show False by blast
    qed
    with keep e show "rearm n t e \<in> set es'" by (auto simp: es')
  }
qed

text \<open>Where a timer that survives its batch is armed again.\<close>

lemma rearm_bounds:
  assumes inv: "timer_inv s" and pc: "pc s = Executing [] (map fst ts)" and t: "(t, now) \<in> set ts"
    and e: "e \<in> set (ts_timers (sched s))" and sv: "survives t e" and now: "clock s \<le> now"
  shows "now < next_fire (rearm now t e) \<and>
    next_fire e + ns_of_ms (entry_period e) \<le> next_fire (rearm now t e) \<and>
    next_fire (rearm now t e) =
      (if entry_period_mode e = FIXED_RATE \<and> now < next_fire e + ns_of_ms (entry_period e)
       then next_fire e else now) + ns_of_ms (entry_period e)"
proof -
  have d: "distinct (map entry_id (ts_timers (sched s)))"
    and b: "batch_inv (Executing [] (map fst ts)) (clock s) (ts_timers (sched s))"
    using inv pc by (auto simp: timer_inv_def table_inv_def)
  have "t \<in> set (batch (Executing [] (map fst ts)))" using t by force
  from batch_entry [OF b d this e] sv have k: "task_key t = entry_key e" "\<not> pending e"
    by (auto simp: survives_def)
  then have late: "next_fire e \<le> clock s" using b e by (simp add: batch_inv_def)
  have pos: "0 < ns_of_ms (entry_period e)"
    using inv e sv k(1) by (auto simp: timer_inv_def table_inv_def survives_def task_key_def entry_key_def)
  show ?thesis
    using k(1) late pos now
    by (cases "entry_period_mode e") (auto simp: rearm_def task_key_def entry_key_def Let_def)
qed

lemma head_collects:
  assumes "timer_inv s" "pc s = Loop_head" "ts_running (sched s)" "e \<in> set (ts_timers (sched s))"
    "due (clock s) e"
  shows "\<exists>n \<le> 2. \<exists>s'. (loop_step ^^ n) s s' \<and> clock s' = clock s \<and>
    pc s' = Executing (map task_of (filter (due (clock s)) (ts_timers (sched s)))) []"
proof -
  let ?x = "sched s" and ?tasks = "map task_of (filter (due (clock s)) (ts_timers (sched s)))"
  have aw: "\<exists>z. after_wait_until (clock s) y = (Executing ?tasks [], z)"
    if "ts_running y" "ts_timers y = ts_timers ?x" for y
    using that by (simp add: after_wait_until_def Let_def collect_due_eq)
  have p: "pending e" "next_fire e \<le> clock s" using assms(5) by (auto simp: due_def)
  obtain d where d: "earliest_deadline (ts_timers ?x) None = Some d"
    using p(1) assms(4) earliest_None [of "ts_timers ?x"] by (auto simp: filter_empty_conv)
  then have le: "d \<le> clock s" using earliest_Some [OF d] assms(4) p by fastforce
  show ?thesis
  proof (cases "wait_predicate ?x")
    case True
    then obtain z where "loop_head (clock s) ?x = (Executing ?tasks [], z)"
      using aw [of ?x] assms(3) d by (auto simp: loop_head_def)
    from step_head [OF assms(2) this] show ?thesis
      by (intro exI [of _ 1] conjI exI [of _ "s\<lparr>pc := Executing ?tasks [], sched := z\<rparr>"]) auto
  next
    case False
    let ?s1 = "s\<lparr>pc := Wait_until d, sched := ?x\<lparr>ts_notified := False\<rparr>\<rparr>"
    have 1: "loop_step s ?s1"
      using False assms(3) d by (intro step_head [OF assms(2)]) (simp add: loop_head_def)
    obtain z where "resume_until (clock ?s1) d (sched ?s1) = (Executing ?tasks [], z)"
      using aw [of "?x\<lparr>ts_notified := False\<rparr>"] assms(3) le by (auto simp: resume_until_def)
    with le have 2: "loop_step ?s1 (?s1\<lparr>pc := Executing ?tasks [], sched := z\<rparr>)"
      by (intro step_until) auto
    show ?thesis
      using relpowp_Suc_I [of 1 loop_step s ?s1, OF _ 2] 1
      by (intro exI [of _ 2] conjI exI [of _ "?s1\<lparr>pc := Executing ?tasks [], sched := z\<rparr>"])
        (auto simp: numeral_2_eq_2)
  qed
qed

text \<open>C6: The scheduler thread never sleeps past a deadline: whenever it is at the head of its loop
  or blocked in either wait and some timer is due, at most three of its own steps, with no
  further notification and no further passing of time, bring it to a batch that holds exactly
  the due timers, in table order.\<close>

theorem timer_due_collected:
  assumes "reaches timer_init timer_step s" "ts_running (sched s)"
    and "pc s = Loop_head \<or> pc s = Wait_any \<or> pc s = Wait_until d"
    and "e \<in> set (ts_timers (sched s))" "due (clock s) e"
  shows "\<exists>n \<le> 3. \<exists>s'. (loop_step ^^ n) s s' \<and> clock s' = clock s \<and>
    pc s' = Executing (map task_of (filter (due (clock s)) (ts_timers (sched s)))) []"
proof -
  let ?x = "sched s" and ?tasks = "map task_of (filter (due (clock s)) (ts_timers (sched s)))"
  have inv: "timer_inv s" by (rule timer_sys.reaches_inv [OF assms(1)])
  then have w: "wait_inv (pc s) ?x" by (simp add: timer_inv_def)
  have p: "pending e" "next_fire e \<le> clock s" using assms(5) by (auto simp: due_def)
  have some: "earliest_deadline (ts_timers ?x) None \<noteq> None"
    using p(1) assms(4) earliest_None [of "ts_timers ?x"] by (auto simp: filter_empty_conv)
  from assms(3) show ?thesis
  proof (elim disjE)
    assume "pc s = Loop_head"
    then show ?thesis using head_collects [OF inv _ assms(2,4,5)] le_trans [of _ 2 "3::nat"] by fastforce
  next
    assume l: "pc s = Wait_any"
    let ?s1 = "s\<lparr>pc := Loop_head, sched := ?x\<lparr>ts_reschedule := False\<rparr>\<rparr>"
    have "wait_predicate ?x" "ts_notified ?x" using w some l by auto
    then have 1: "loop_step s ?s1" by (intro step_any [OF l]) (auto simp: resume_any_def)
    then have "timer_inv ?s1" by (rule timer_inv_loop) (rule inv)
    from head_collects [OF this, of e] assms(2,4,5) obtain n s' where "n \<le> 2" "(loop_step ^^ n) ?s1 s'"
      "clock s' = clock s" "pc s' = Executing ?tasks []" by auto
    moreover from this have "(loop_step ^^ Suc n) s s'"
      using relpowp_Suc_I2 [of loop_step, OF 1] by blast
    moreover have "Suc n \<le> 3" using \<open>n \<le> 2\<close> by simp
    ultimately show ?thesis by blast
  next
    assume l: "pc s = Wait_until d"
    have "earliest_deadline (ts_timers ?x) None = Some d \<Longrightarrow> d \<le> clock s"
      using earliest_Some [of "ts_timers ?x" d] assms(4) p by fastforce
    with w l have g: "wait_predicate ?x \<or> d \<le> clock s" "ts_notified ?x \<or> d \<le> clock s" by auto
    then obtain z where "resume_until (clock s) d ?x = (Executing ?tasks [], z)"
      using assms(2) by (auto simp: resume_until_def after_wait_until_def Let_def collect_due_eq)
    from step_until [OF l g(2) this] show ?thesis
      by (intro exI [of _ 1] conjI exI [of _ "s\<lparr>pc := Executing ?tasks [], sched := z\<rparr>"]) auto
  qed
qed

text \<open>A scheduler with one timer armed for 5 ms, at the head of its loop when that time has come.\<close>

definition demo_sched :: "nat TimerScheduler" where
  "demo_sched = \<lparr>ts_thread = Some 7, ts_running = True, ts_reschedule = True, ts_next_id = 2,
     ts_timers = [\<lparr>entry_id = 1, entry_callback = 0, entry_mode = PERIODIC,
       entry_period_mode = FIXED_RATE, entry_period = 5, next_fire = 5000000,
       entry_state = Timer_PENDING\<rparr>], ts_notified = True\<rparr>"

definition demo_sys :: "nat TimerSys" where
  "demo_sys = \<lparr>sched = demo_sched, pc = Loop_head, clock = 5000000, fired = [], timer_stderr = []\<rparr>"

definition demo_started :: "nat TimerSys" where
  "demo_started = \<lparr>sched = TimerScheduler_new\<lparr>ts_thread := Some 7, ts_running := True\<rparr>,
     pc = Loop_head, clock = 0, fired = [], timer_stderr = []\<rparr>"

definition demo_new :: "nat TimerSys" where
  "demo_new = \<lparr>sched = TimerScheduler_new, pc = Loop_none, clock = 0, fired = [], timer_stderr = []\<rparr>"

lemma demo_starts: "client_step demo_new demo_started"
proof -
  have "TimerScheduler_Start (Some 7) (sched demo_new) =
      Some (Timer_SUCCESS, TimerScheduler_new\<lparr>ts_thread := Some 7, ts_running := True\<rparr>)"
    by (simp add: TimerScheduler_Start_def TimerScheduler_new_def demo_new_def)
  from client_start [OF _ this] show ?thesis by (simp add: demo_started_def demo_new_def)
qed

lemma demo_schedules:
  "TimerScheduler_SchedulePeriodic (clock demo_started) 5 FIXED_RATE (Some 0) (sched demo_started) =
    (Timer_SUCCESS, Some 1, demo_sched)"
  by (simp add: TimerScheduler_SchedulePeriodic_def demo_started_def TimerScheduler_new_def
      kMaxTimers_def notify_all_timers_def demo_sched_def ns_of_ms_def)

lemma demo_ticks: "client_step (demo_started\<lparr>sched := demo_sched\<rparr>) demo_sys"
  using client_tick [of "demo_started\<lparr>sched := demo_sched\<rparr>" 5000000] by (simp add: demo_sys_def demo_started_def)

lemma demo_started_reachable: "reaches timer_init timer_step demo_started"
  using reaches_step [OF reaches_init, of timer_init demo_new timer_step demo_started] demo_starts
  by (simp add: timer_step_def timer_init_def demo_new_def)

lemma demo_sys_reachable: "reaches timer_init timer_step demo_sys"
proof -
  have "timer_step demo_started (demo_started\<lparr>sched := demo_sched\<rparr>)"
    using client_periodic [OF _ demo_schedules] by (simp add: timer_step_def demo_started_def TimerScheduler_new_def)
  moreover have "timer_step (demo_started\<lparr>sched := demo_sched\<rparr>) demo_sys"
    using demo_ticks by (simp add: timer_step_def)
  ultimately show ?thesis by (blast intro: reaches_step demo_started_reachable)
qed

theorem timer_due_collected_witness:
  "\<exists>n \<le> 3. \<exists>s'. (loop_step ^^ n) demo_sys s' \<and> clock s' = 5000000 \<and>
    pc s' = Executing (map task_of (ts_timers demo_sched)) []"
proof -
  have "due (clock demo_sys) (hd (ts_timers (sched demo_sys)))" "ts_running (sched demo_sys)"
    "hd (ts_timers (sched demo_sys)) \<in> set (ts_timers (sched demo_sys))" "pc demo_sys = Loop_head"
    "filter (due (clock demo_sys)) (ts_timers (sched demo_sys)) = ts_timers demo_sched"
    "clock demo_sys = 5000000"
    by (simp_all add: demo_sys_def demo_sched_def due_def pending_def)
  with timer_due_collected [OF demo_sys_reachable, of 0 "hd (ts_timers (sched demo_sys))"]
  show ?thesis by simp
qed

text \<open>No callback runs early or for a timer that is not there: while a callback runs, the
  table holds the entry of its timer with the same callback and settings, no longer pending,
  and its deadline has passed.\<close>

theorem timer_never_early:
  assumes "reaches timer_init timer_step s" "pc s = In_callback t todo done_ts"
  shows "\<exists>e. FindEntry (task_id t) (ts_timers (sched s)) = Some e \<and> entry_key e = task_key t \<and>
    entry_state e \<noteq> Timer_PENDING \<and> next_fire e \<le> clock s"
proof -
  have inv: "timer_inv s" by (rule timer_sys.reaches_inv [OF assms(1)])
  then have b: "batch_inv (pc s) (clock s) (ts_timers (sched s))"
    and d: "distinct (map entry_id (ts_timers (sched s)))"
    by (auto simp: timer_inv_def table_inv_def)
  have t: "t \<in> set (batch (pc s))" by (simp add: assms(2))
  from batch_below [OF inv t] obtain e where e: "e \<in> set (ts_timers (sched s))" "entry_id e = task_id t"
    "\<not> pending e" by blast
  from batch_entry [OF b d t e(1,2)] FindEntry_distinct [OF d e(1)] e b show ?thesis
    by (auto simp: batch_inv_def pending_def)
qed

text \<open>The same scheduler with the callback of its timer running.\<close>

definition demo_running :: "nat TimerScheduler" where
  "demo_running = demo_sched\<lparr>ts_reschedule := False,
     ts_timers := map (\<lambda>e. e\<lparr>entry_state := Timer_RUNNING\<rparr>) (ts_timers demo_sched)\<rparr>"

definition demo_call :: "nat TimerSys" where
  "demo_call = demo_sys\<lparr>sched := demo_running,
     pc := In_callback (task_of (hd (ts_timers demo_sched))) [] [], fired := [1]\<rparr>"

definition demo_collected :: "nat TimerSys" where
  "demo_collected = demo_sys\<lparr>sched := demo_running,
     pc := Executing [task_of (hd (ts_timers demo_sched))] []\<rparr>"

lemma demo_collects: "loop_step demo_sys demo_collected"
proof -
  have "loop_head (clock demo_sys) (sched demo_sys) =
      (Executing [task_of (hd (ts_timers demo_sched))] [], demo_running)"
    by (simp add: loop_head_def demo_sys_def demo_sched_def wait_predicate_def after_wait_until_def
        Let_def demo_running_def)
  from step_head [OF _ this] show ?thesis by (simp add: demo_sys_def demo_collected_def)
qed

lemma demo_calls: "loop_step demo_collected demo_call"
  using step_call [of demo_collected "task_of (hd (ts_timers demo_sched))" "[]" "[]"]
  by (simp add: demo_collected_def demo_call_def demo_sys_def task_of_def demo_sched_def)

lemma demo_call_reachable: "reaches timer_init timer_step demo_call"
  using demo_collects demo_calls unfolding timer_step_def
  by (blast intro: reaches_step demo_sys_reachable [unfolded timer_step_def])

theorem timer_never_early_witness:
  "\<exists>e. FindEntry 1 (ts_timers demo_running) = Some e \<and> next_fire e \<le> 5000000"
proof -
  have "pc demo_call = In_callback (task_of (hd (ts_timers demo_sched))) [] []"
    by (simp add: demo_call_def)
  from timer_never_early [OF demo_call_reachable this] show ?thesis
    by (auto simp: demo_call_def demo_sys_def task_of_def demo_sched_def)
qed

text \<open>A timer has at most one callback waiting in the batch, and none while it is pending.\<close>

lemma waiting_count:
  assumes inv: "timer_inv s" and e: "e \<in> set (ts_timers (sched s))"
  shows "count_list (waiting (pc s)) (entry_id e) \<le> (if pending e then 0 else 1)"
proof -
  have d: "distinct (map entry_id (ts_timers (sched s)))"
    and b: "batch_inv (pc s) (clock s) (ts_timers (sched s))"
    using inv by (auto simp: timer_inv_def table_inv_def)
  have "distinct (map task_id (batch (pc s)))"
    unfolding batch_ids [OF b] using d by (rule distinct_map_filter)
  then have "distinct (waiting (pc s))" by (cases "pc s") auto
  moreover have "entry_id e \<notin> set (waiting (pc s))" if "pending e"
    using that waiting_batch [of "pc s"] batch_entry [OF b d _ e] by fastforce
  ultimately show ?thesis by (simp add: count_list_distinct)
qed

text \<open>C7: A cancelled timer is finished: when \<open>Cancel\<close> succeeds, then whatever all threads do
  afterwards, a timer that was waiting for its deadline never runs again, and one whose batch
  was being executed runs at most the one callback it was collected for.\<close>

theorem timer_cancel_final:
  assumes "reaches timer_init timer_step s" "TimerScheduler_Cancel i (sched s) = (Timer_SUCCESS, x)"
    and "timer_step\<^sup>*\<^sup>* (s\<lparr>sched := x\<rparr>) s'"
  shows "\<exists>e. FindEntry i (ts_timers (sched s)) = Some e \<and>
    count_list (fired s') i \<le> count_list (fired s) i + (if entry_state e = Timer_PENDING then 0 else 1)"
proof -
  let ?s = "s\<lparr>sched := x\<rparr>"
  have inv: "timer_inv s" by (rule timer_sys.reaches_inv [OF assms(1)])
  then have d: "distinct (map entry_id (ts_timers (sched s)))" by (simp add: timer_inv_def table_inv_def)
  from cancel_cases [OF assms(2) d] obtain e where e: "e \<in> set (ts_timers (sched s))" "entry_id e = i"
    and x: "pending e \<and> x = (sched s)\<lparr>ts_timers := filter (\<lambda>e. entry_id e \<noteq> i) (ts_timers (sched s)),
         ts_reschedule := True, ts_notified := True\<rparr> \<or>
       entry_state e = Timer_RUNNING \<and> x = (sched s)\<lparr>ts_timers :=
         map (\<lambda>e. if entry_id e = i then e\<lparr>entry_state := Timer_CANCELLED\<rparr> else e) (ts_timers (sched s))\<rparr>"
    by auto
  have w: "count_list (waiting (pc s)) i \<le> (if pending e then 0 else 1)"
    using waiting_count [OF inv e(1)] e(2) by simp
  have "i < ts_next_id (sched s)" using inv e by (auto simp: timer_inv_def table_inv_def)
  moreover have "ts_next_id x = ts_next_id (sched s)" using x by (elim disjE conjE) simp_all
  ultimately have "i < ts_next_id x" by simp
  moreover have c: "\<forall>e' \<in> set (ts_timers x). entry_id e' = i \<longrightarrow> entry_state e' = Timer_CANCELLED"
    using x by (elim disjE conjE) (simp_all add: ball_Un)
  then have "\<not> (\<exists>e' \<in> set (ts_timers x). entry_id e' = i \<and> pending e')" by (auto simp: pending_def)
  then have "shots i ?s = count_list (fired s) i + count_list (waiting (pc s)) i"
    unfolding shots_def by (subst if_not_P) simp_all
  then have "shots i ?s \<le> count_list (fired s) i + (if pending e then 0 else 1)"
    using w by linarith
  ultimately have "finite_inv i (count_list (fired s) i + (if pending e then 0 else 1)) ?s"
    using inv_cancel [OF inv assms(2)] c unfolding finite_inv_def by simp
  from finite_steps [OF assms(3) this] FindEntry_distinct [OF d e(1)] e(2) show ?thesis
    by (auto simp: finite_inv_def shots_def pending_def)
qed

theorem timer_cancel_final_witness:
  "count_list (fired (demo_call\<lparr>sched := snd (TimerScheduler_Cancel 1 demo_running)\<rparr>)) 1 \<le> 2"
proof -
  have "TimerScheduler_Cancel 1 (sched demo_call) =
      (Timer_SUCCESS, snd (TimerScheduler_Cancel 1 demo_running))"
    by (simp add: TimerScheduler_Cancel_def TimerId_IsValid_def demo_call_def demo_running_def demo_sched_def)
  from timer_cancel_final [OF demo_call_reachable this rtranclp.rtrancl_refl] show ?thesis
    by (auto simp: demo_call_def demo_running_def demo_sched_def)
qed

text \<open>A one-shot timer runs at most once: after \<open>ScheduleOneShot\<close> returns its id, no sequence of
  steps of the scheduler and its clients starts its callback twice.\<close>

theorem timer_oneshot_at_most_once:
  assumes "reaches timer_init timer_step s" "ts_next_id (sched s) + 1 \<noteq> 0"
    and "TimerScheduler_ScheduleOneShot (clock s) delay cb (sched s) = (Timer_SUCCESS, Some i, x)"
    and "timer_step\<^sup>*\<^sup>* (s\<lparr>sched := x\<rparr>) s'"
  shows "count_list (fired s') i \<le> 1"
proof -
  have fi: "fired_inv s" by (rule fired_sys.reaches_inv [OF assms(1)])
  then have inv: "timer_inv s" by (simp add: fired_inv_def)
  have a: "appends (clock s) (sched s) x" "i = ts_next_id (sched s)"
    "entry_mode (last (ts_timers x)) = ONE_SHOT"
    using oneshot_cases [OF assms(3)] by auto
  from a(1) obtain e where e: "ts_timers x = ts_timers (sched s) @ [e]"
    "ts_next_id x = ts_next_id (sched s) + 1" unfolding appends_def by blast
  have "i \<notin> set (fired s)" using fi a(2) by (auto simp: fired_inv_def)
  moreover have "i \<notin> set (waiting (pc s))"
    using waiting_batch [of "pc s"] batch_below [OF inv] a(2) by fastforce
  moreover have "i < ts_next_id x" using assms(2) a(2) e(2) by unat_arith
  moreover have "entry_id e' \<noteq> i" if "e' \<in> set (ts_timers (sched s))" for e'
    using inv that a(2) by (auto simp: timer_inv_def table_inv_def)
  ultimately have "finite_inv i 1 (s\<lparr>sched := x\<rparr>)"
    using inv_appends [OF inv a(1) assms(2)] a(3) e(1)
    by (auto simp: finite_inv_def shots_def count_list_0_iff)
  from finite_steps [OF assms(4) this] show ?thesis by (auto simp: finite_inv_def shots_def)
qed

theorem timer_oneshot_at_most_once_witness:
  "count_list (fired (demo_started\<lparr>sched := snd (snd (TimerScheduler_ScheduleOneShot 0 5 (Some 3)
     (sched demo_started)))\<rparr>)) 1 \<le> 1"
proof -
  have "TimerScheduler_ScheduleOneShot (clock demo_started) 5 (Some 3) (sched demo_started) =
      (Timer_SUCCESS, Some 1, snd (snd (TimerScheduler_ScheduleOneShot 0 5 (Some 3) (sched demo_started))))"
    by (simp add: TimerScheduler_ScheduleOneShot_def demo_started_def TimerScheduler_new_def kMaxTimers_def
        Let_def)
  moreover have "ts_next_id (sched demo_started) + 1 \<noteq> 0"
    by (simp add: demo_started_def TimerScheduler_new_def)
  ultimately show ?thesis
    using timer_oneshot_at_most_once [OF demo_started_reachable _ _ rtranclp.rtrancl_refl] by blast
qed

text \<open>C21: What one batch does to the table: timers that were waiting stay as they are; a
  periodic timer that was neither cancelled nor thrown out of is armed again, strictly in the
  future, no earlier than one period after its old deadline, exactly there for a fixed rate
  that is not late and one period from now otherwise; every other timer of the batch
  (one-shot, cancelled, callback threw) is gone, so that afterwards every timer is pending.\<close>

theorem timer_batch_reconciled:
  assumes "reaches timer_init timer_step s" "pc s = Executing [] (map fst ts)"
    and "\<forall>(t, now) \<in> set ts. clock s \<le> now"
    and "reconcile ts (ts_timers (sched s)) = (timers, err)"
  shows "set timers = {e \<in> set (ts_timers (sched s)). entry_state e = Timer_PENDING} \<union>
      {rearm now t e | t now e. (t, now) \<in> set ts \<and> e \<in> set (ts_timers (sched s)) \<and> survives t e} \<and>
    (\<forall>(t, now) \<in> set ts. \<forall>e \<in> set (ts_timers (sched s)). survives t e \<longrightarrow>
      now < next_fire (rearm now t e) \<and>
      next_fire e + ns_of_ms (entry_period e) \<le> next_fire (rearm now t e) \<and>
      next_fire (rearm now t e) =
        (if entry_period_mode e = FIXED_RATE \<and> now < next_fire e + ns_of_ms (entry_period e)
         then next_fire e else now) + ns_of_ms (entry_period e))"
proof -
  let ?es = "ts_timers (sched s)"
  have inv: "timer_inv s" by (rule timer_sys.reaches_inv [OF assms(1)])
  then have d: "distinct (map entry_id ?es)" and b: "batch_inv (Executing [] (map fst ts)) (clock s) ?es"
    using assms(2) by (auto simp: timer_inv_def table_inv_def)
  have set: "set timers = {e \<in> set ?es. entry_state e = Timer_PENDING} \<union>
      {rearm now t e | t now e. (t, now) \<in> set ts \<and> e \<in> set ?es \<and> survives t e}" (is "_ = ?R")
  proof
    show "set timers \<subseteq> ?R"
      using reconcile_pending [OF b d assms(4)] by (fastforce simp: pending_def)
    show "?R \<subseteq> set timers"
      using reconcile_complete [OF b d assms(4)] by (auto simp: pending_def)
  qed
  have "now < next_fire (rearm now t e) \<and>
      next_fire e + ns_of_ms (entry_period e) \<le> next_fire (rearm now t e) \<and>
      next_fire (rearm now t e) =
        (if entry_period_mode e = FIXED_RATE \<and> now < next_fire e + ns_of_ms (entry_period e)
         then next_fire e else now) + ns_of_ms (entry_period e)"
    if "(t, now) \<in> set ts" and "e \<in> set ?es" and "survives t e" for t now e
    using rearm_bounds [OF inv assms(2) that] assms(3) that(1) by auto
  with set show ?thesis by auto
qed

text \<open>The demonstration batch once its callback has returned.\<close>

definition demo_done :: "nat TimerSys" where
  "demo_done = demo_call\<lparr>pc := Executing [] [task_of (hd (ts_timers demo_sched))]\<rparr>"

lemma demo_returns: "loop_step demo_call demo_done"
  using step_return [of demo_call "task_of (hd (ts_timers demo_sched))" "[]" "[]" Callback_returned _ "[]"]
  by (simp add: demo_done_def demo_call_def demo_sys_def)

lemma demo_done_reachable: "reaches timer_init timer_step demo_done"
  using reaches_step [OF demo_call_reachable] demo_returns by (simp add: timer_step_def)

theorem timer_batch_reconciled_witness:
  "set (fst (reconcile [(task_of (hd (ts_timers demo_sched)), 6000000)] (ts_timers demo_running))) =
     {(hd (ts_timers demo_sched))\<lparr>next_fire := 10000000\<rparr>}"
proof -
  let ?t = "task_of (hd (ts_timers demo_sched))"
  have p: "pc demo_done = Executing [] (map fst [(?t, 6000000)])" "sched demo_done = demo_running"
    "\<forall>(t, now) \<in> set [(?t, 6000000)]. clock demo_done \<le> now"
    by (simp_all add: demo_done_def demo_call_def demo_sys_def)
  have "set (fst (reconcile [(?t, 6000000)] (ts_timers demo_running))) =
    {e \<in> set (ts_timers demo_running). entry_state e = Timer_PENDING} \<union>
    {rearm now t e | t now e. (t, now) \<in> set [(?t, 6000000)] \<and> e \<in> set (ts_timers demo_running) \<and> survives t e}"
    using timer_batch_reconciled [OF demo_done_reachable p(1,3) surjective_pairing] unfolding p(2) by blast
  moreover have "{e \<in> set (ts_timers demo_running). entry_state e = Timer_PENDING} = {}"
    by (auto simp: demo_running_def demo_sched_def)
  moreover have "{rearm now t e | t now e. (t, now) \<in> set [(?t, 6000000)] \<and>
      e \<in> set (ts_timers demo_running) \<and> survives t e} =
    {(hd (ts_timers demo_sched))\<lparr>next_fire := 10000000\<rparr>}"
    by (simp add: demo_running_def demo_sched_def survives_def task_of_def rearm_def ns_of_ms_def Let_def)
  ultimately show ?thesis by (simp only: Un_empty_left)
qed

text \<open>How many steps a stopped scheduler thread is away from its return.\<close>

fun stop_rank :: "'cb LoopPc \<Rightarrow> nat" where
  "stop_rank Loop_head = 1"
| "stop_rank Wait_any = 2"
| "stop_rank (Wait_until d) = 2"
| "stop_rank (Executing todo done_ts) = 2 + 2 * length todo"
| "stop_rank (In_callback t todo done_ts) = 3 + 2 * length todo"
| "stop_rank _ = 0"

lemma stop_rank_step:
  assumes "timer_inv s" "\<not> ts_running (sched s)" "loop_step s s'"
  shows "stop_rank (pc s') < stop_rank (pc s) \<and> \<not> ts_running (sched s')"
  using assms(3,1,2)
proof (induction rule: loop_step.induct)
  case (step_any s l x)
  then show ?case by (auto simp: resume_any_def wait_predicate_def)
next
  case (step_until s d l x)
  then show ?case by (auto simp: resume_until_def wait_predicate_def after_wait_until_def Let_def)
qed (auto simp: loop_head_def)

lemma stop_enabled:
  assumes "timer_inv s" "\<not> ts_running (sched s)" "pc s \<noteq> Loop_none" "pc s \<noteq> Loop_exit"
  shows "\<exists>s'. loop_step s s'"
proof (cases "pc s")
  case Loop_head
  then show ?thesis by (metis loop_step.step_head surj_pair)
next
  case Wait_any
  with assms have "ts_notified (sched s)" by (auto simp: timer_inv_def wait_predicate_def)
  then show ?thesis using Wait_any by (metis loop_step.step_any surj_pair)
next
  case (Wait_until d)
  with assms have "ts_notified (sched s)" by (auto simp: timer_inv_def wait_predicate_def)
  then show ?thesis using Wait_until by (metis loop_step.step_until surj_pair)
next
  case (Executing todo ds)
  show ?thesis
  proof (cases todo)
    case Nil
    have "pc s = Executing [] (map fst (map (\<lambda>t. (t, clock s)) ds))" using Executing Nil by (simp add: comp_def)
    from step_reconcile [OF this, of "clock s"] show ?thesis by (cases "reconcile (map (\<lambda>t. (t, clock s)) ds) (ts_timers (sched s))") auto
  qed (use Executing step_call in blast)
next
  case (In_callback t todo ds)
  then show ?thesis by (metis loop_step.step_return surj_pair)
qed (use assms in auto)

text \<open>C29: After \<open>Stop\<close> the scheduler thread always returns, so \<open>Join\<close> does: in every reachable state
  with the running flag clear, the thread has returned or can take a step of its own, however
  it is blocked, and each of its steps brings it strictly closer to its return, by at most two
  steps per callback still to run; it reaches the return without the help of any other thread.\<close>

theorem timer_stop_terminates:
  assumes "reaches timer_init timer_step s" "\<not> ts_running (sched s)"
  shows "(pc s = Loop_none \<or> pc s = Loop_exit \<or> (\<exists>s'. loop_step s s')) \<and>
    (\<forall>s'. loop_step s s' \<longrightarrow> stop_rank (pc s') < stop_rank (pc s) \<and> \<not> ts_running (sched s')) \<and>
    (\<exists>s'. loop_step\<^sup>*\<^sup>* s s' \<and> (pc s' = Loop_exit \<or> pc s' = Loop_none))"
proof -
  have inv: "timer_inv s" by (rule timer_sys.reaches_inv [OF assms(1)])
  have "\<exists>s'. loop_step\<^sup>*\<^sup>* s s' \<and> (pc s' = Loop_exit \<or> pc s' = Loop_none)"
    using inv assms(2)
  proof (induction "stop_rank (pc s)" arbitrary: s rule: less_induct)
    case less
    show ?case
    proof (cases "pc s = Loop_none \<or> pc s = Loop_exit")
      case False
      with stop_enabled [OF less(2,3)] obtain s1 where s1: "loop_step s s1" by blast
      from stop_rank_step [OF less(2,3) s1] timer_inv_loop [OF s1 less(2)] less(1) [of s1]
      obtain s' where "loop_step\<^sup>*\<^sup>* s1 s'" "pc s' = Loop_exit \<or> pc s' = Loop_none" by blast
      with s1 show ?thesis by (meson converse_rtranclp_into_rtranclp)
    qed blast
  qed
  with stop_enabled [OF inv assms(2)] stop_rank_step [OF inv assms(2)] show ?thesis by blast
qed

theorem timer_stop_terminates_witness:
  "\<exists>s'. loop_step\<^sup>*\<^sup>* (demo_call\<lparr>sched := snd (TimerScheduler_Stop demo_running)\<rparr>) s' \<and>
     (pc s' = Loop_exit \<or> pc s' = Loop_none)"
proof -
  let ?s = "demo_call\<lparr>sched := snd (TimerScheduler_Stop demo_running)\<rparr>"
  have "sched demo_call = demo_running" by (simp add: demo_call_def)
  then have "reaches timer_init timer_step ?s"
    using client_stop [of demo_call, OF surjective_pairing]
    by (intro reaches_step [OF demo_call_reachable]) (simp add: timer_step_def)
  moreover have "\<not> ts_running (sched ?s)"
    by (simp add: TimerScheduler_Stop_def demo_running_def demo_sched_def notify_all_timers_def)
  ultimately show ?thesis using timer_stop_terminates by blast
qed

text \<open>The table is bounded and its ids identify timers: in every reachable state there are at
  most 64 timers with distinct valid ids, and a well-formed schedule request on a running
  scheduler is refused with \<open>TIMER_LIMIT_REACHED\<close>, leaving everything unchanged, exactly when all 64
  are taken; otherwise it hands out an id no timer has.\<close>

theorem timer_table_bounded:
  assumes "reaches timer_init timer_step s" "ts_running (sched s)" "0 < period"
    and "TimerScheduler_SchedulePeriodic now period mode (Some cb) (sched s) = (e, out, x)"
  shows "length (ts_timers (sched s)) \<le> 64 \<and> distinct (map entry_id (ts_timers (sched s))) \<and>
    (\<forall>en \<in> set (ts_timers (sched s)). TimerId_IsValid (entry_id en)) \<and>
    (if length (ts_timers (sched s)) = 64 then e = TIMER_LIMIT_REACHED \<and> out = None \<and> x = sched s
     else e = Timer_SUCCESS \<and> (\<exists>i. out = Some i \<and> FindEntry i (ts_timers (sched s)) = None \<and>
       FindEntry i (ts_timers x) \<noteq> None))"
proof -
  have inv: "table_inv (sched s)" using timer_sys.reaches_inv [OF assms(1)] by (simp add: timer_inv_def)
  have new: "FindEntry (ts_next_id (sched s)) (ts_timers (sched s)) = None"
    using inv by (auto simp: FindEntry_find find_None_iff table_inv_def)
  have found: "\<exists>y. FindEntry i (es @ [en]) = Some y" if "entry_id en = i" for i en and es :: "'a TimerEntry list"
    using that by (induction es) auto
  show ?thesis
    using inv assms(2,3,4) new
    by (auto simp: table_inv_def TimerId_IsValid_def kMaxTimers_def found notify_all_timers_def
        TimerScheduler_SchedulePeriodic_def Let_def split: if_splits)
qed

theorem timer_table_bounded_witness:
  "fst (TimerScheduler_SchedulePeriodic 0 9 FIXED_DELAY (Some 4) demo_sched) = Timer_SUCCESS"
proof -
  have "ts_running (sched demo_sys)" "sched demo_sys = demo_sched" "length (ts_timers demo_sched) = 1"
    by (simp_all add: demo_sys_def demo_sched_def)
  moreover obtain e out x where r:
    "TimerScheduler_SchedulePeriodic 0 9 FIXED_DELAY (Some 4) (sched demo_sys) = (e, out, x)"
    by (metis prod_cases3)
  ultimately show ?thesis using timer_table_bounded [OF demo_sys_reachable _ _ r] by simp
qed

text \<open>Restarting a scheduler that was stopped but not joined is fatal: \<open>Start\<close> tests only the
  running flag, so once the platform provides the new thread its assignment over the joinable
  one terminates the process, while with \<open>Join\<close> in between it succeeds.\<close>

theorem timer_restart_needs_join:
  assumes "ts_running x" "ts_thread x = Some t" "TimerScheduler_Stop x = (e, y)"
    and "TimerScheduler_Join y = (j, z)"
  shows "e = Timer_SUCCESS \<and> TimerScheduler_Start (Some t') y = None \<and> j = Inr t \<and>
    map_option fst (TimerScheduler_Start (Some t') z) = Some Timer_SUCCESS"
  using assms by (auto simp: timer_op_defs)

theorem timer_restart_needs_join_witness:
  "TimerScheduler_Start (Some 8) (snd (TimerScheduler_Stop demo_sched)) = None"
  using timer_restart_needs_join [of demo_sched 7, OF _ _ surjective_pairing surjective_pairing]
  by (simp add: demo_sched_def)

end
