(* ===== verification/Timer_Spec.thy ===== *)
theory Timer_Spec
  imports Timer_Scheduler
begin

text \<open>
  What \<open>TimerScheduler\<close> promises about one timer, as an abstract alarm clock, and the proof that
  each timer of the scheduler refines it, whatever its thread, its clients and the other timers
  do.
\<close>

section \<open>The alarm\<close>

text \<open>An alarm is not set yet; armed for a deadline, with a period if it repeats; claimed, because its
  deadline has passed (the flag says that it has not been cancelled meanwhile); rung; or over.\<close>

datatype AlarmPhase =
    Unset
  | Armed nsec "msec option"
  | Claimed nsec "msec option" bool
  | Rung nsec "msec option" bool
  | Over

record Alarm =
  al_clock :: nsec
  al_phase :: AlarmPhase
  rings :: nat

definition alarm_init :: "Alarm \<Rightarrow> bool" where
  "alarm_init a \<longleftrightarrow> rings a = 0 \<and> al_phase a \<in> {Unset, Over}"

inductive alarm_step :: "Alarm \<Rightarrow> Alarm \<Rightarrow> bool" where
  al_tick: "al_clock a \<le> c \<Longrightarrow> alarm_step a (a\<lparr>al_clock := c\<rparr>)"
| al_arm: "al_phase a = Unset \<Longrightarrow> al_clock a < d \<Longrightarrow> alarm_step a (a\<lparr>al_phase := Armed d p\<rparr>)"
| al_cancel: "al_phase a = Armed d p \<Longrightarrow> alarm_step a (a\<lparr>al_phase := Over\<rparr>)"
| al_cancel_claimed: "al_phase a = Claimed d p True \<Longrightarrow> alarm_step a (a\<lparr>al_phase := Claimed d p False\<rparr>)"
| al_cancel_rung: "al_phase a = Rung d p True \<Longrightarrow> alarm_step a (a\<lparr>al_phase := Rung d p False\<rparr>)"
| al_claim: "al_phase a = Armed d p \<Longrightarrow> d \<le> al_clock a \<Longrightarrow> alarm_step a (a\<lparr>al_phase := Claimed d p True\<rparr>)"
| al_ring: "al_phase a = Claimed d p b \<Longrightarrow> alarm_step a (a\<lparr>al_phase := Rung d p b, rings := Suc (rings a)\<rparr>)"
| al_rearm: "al_phase a = Rung d (Some n) True \<Longrightarrow> al_clock a \<le> c \<Longrightarrow> al_clock a < d' \<Longrightarrow> d + ns_of_ms n \<le> d' \<Longrightarrow>
    alarm_step a (a\<lparr>al_clock := c, al_phase := Armed d' (Some n)\<rparr>)"
| al_end: "al_phase a = Rung d p b \<Longrightarrow> al_clock a \<le> c \<Longrightarrow> alarm_step a (a\<lparr>al_clock := c, al_phase := Over\<rparr>)"

text \<open>What the alarm guarantees by itself: it never rings early, and a single one at most once.\<close>

definition alarm_ok :: "Alarm \<Rightarrow> bool" where
  "alarm_ok a \<longleftrightarrow> (case al_phase a of
       Unset \<Rightarrow> rings a = 0
     | Armed d p \<Rightarrow> p = None \<longrightarrow> rings a = 0
     | Claimed d p b \<Rightarrow> d \<le> al_clock a \<and> (p = None \<longrightarrow> rings a = 0)
     | Rung d p b \<Rightarrow> d \<le> al_clock a \<and> 0 < rings a \<and> (p = None \<longrightarrow> rings a = 1)
     | Over \<Rightarrow> True)"

interpretation alarm_sys: inductive_invariant alarm_init alarm_step alarm_ok
proof
  show "alarm_ok a" if "alarm_init a" for a
    using that by (auto simp: alarm_init_def alarm_ok_def split: AlarmPhase.splits)
  show "alarm_ok b" if "alarm_step a b" "alarm_ok a" for a b
    using that by (induction rule: alarm_step.induct) (auto simp: alarm_ok_def split: AlarmPhase.splits)
qed

lemma alarm_over_step: "alarm_step a b \<Longrightarrow> al_phase a = Over \<Longrightarrow> al_phase b = Over \<and> rings b = rings a"
  by (induction rule: alarm_step.induct) auto

lemma alarm_over_final: "alarm_step\<^sup>*\<^sup>* a b \<Longrightarrow> al_phase a = Over \<Longrightarrow> al_phase b = Over \<and> rings b = rings a"
  by (induction rule: rtranclp_induct) (auto dest: alarm_over_step)

section \<open>The alarm of a timer\<close>

definition repeats :: "'cb TimerEntry \<Rightarrow> msec option" where
  "repeats e = (if entry_mode e = PERIODIC then Some (entry_period e) else None)"

definition phase_of :: "bool \<Rightarrow> 'cb TimerEntry \<Rightarrow> AlarmPhase" where
  "phase_of waits e =
     (if pending e then Armed (next_fire e) (repeats e)
      else (if waits then Claimed else Rung) (next_fire e) (repeats e) (entry_state e \<noteq> Timer_CANCELLED))"

definition alarm_of :: "TimerId \<Rightarrow> 'cb TimerSys \<Rightarrow> Alarm" where
  "alarm_of i s = \<lparr>al_clock = clock s,
     al_phase = (case FindEntry i (ts_timers (sched s)) of
         None \<Rightarrow> if i < ts_next_id (sched s) then Over else Unset
       | Some e \<Rightarrow> phase_of (i \<in> set (waiting (pc s))) e),
     rings = count_list (fired s) i\<rparr>"

lemma FindEntry_append [simp]:
  "FindEntry i (es @ es') = (case FindEntry i es of None \<Rightarrow> FindEntry i es' | Some e \<Rightarrow> Some e)"
  by (induction es) auto

lemma FindEntry_map: "(\<And>e. entry_id (f e) = entry_id e) \<Longrightarrow> FindEntry i (map f es) = map_option f (FindEntry i es)"
  by (induction es) auto

lemma FindEntry_filter: "FindEntry i (filter (\<lambda>e. entry_id e \<noteq> j) es) = (if i = j then None else FindEntry i es)"
  by (induction es) auto

lemma FindEntry_None: "FindEntry i es = None \<longleftrightarrow> i \<notin> entry_id ` set es"
  by (induction es) auto

lemma alarm_same:
  assumes "clock s' = clock s" "ts_timers (sched s') = ts_timers (sched s)" "ts_next_id (sched s') = ts_next_id (sched s)"
    "fired s' = fired s" "waiting (pc s') = waiting (pc s)"
  shows "alarm_of i s' = alarm_of i s"
  using assms by (simp add: alarm_of_def split: option.split)

text \<open>Each step moves the alarm of a timer at most one step.\<close>

abbreviation alarm_move :: "Alarm \<Rightarrow> Alarm \<Rightarrow> bool" where
  "alarm_move a b \<equiv> b = a \<or> alarm_step a b"

lemma alarm_claims:
  assumes inv: "timer_inv s" and b: "batch (pc s) = []" and r: "after_wait_until (clock s) (sched s) = (l, y)"
  shows "alarm_move (alarm_of i s) (alarm_of i (s\<lparr>pc := l, sched := y\<rparr>))"
proof (cases "ts_running (sched s)")
  case True
  let ?f = "\<lambda>e. if due (clock s) e then e\<lparr>entry_state := Timer_RUNNING\<rparr> else e"
  let ?es = "ts_timers (sched s)"
  have l: "l = Executing (map task_of (filter (due (clock s)) ?es)) []"
    and y: "y = (sched s)\<lparr>ts_reschedule := False, ts_timers := map ?f ?es\<rparr>"
    using r True by (auto simp: after_wait_until_def Let_def collect_due_eq)
  have fe: "FindEntry i (map ?f ?es) = map_option ?f (FindEntry i ?es)" by (rule FindEntry_map) simp
  have d: "distinct (map entry_id ?es)" using inv by (simp add: timer_inv_def table_inv_def)
  have p: "pending e" if "e \<in> set ?es" for e
    using inv b that by (auto simp: timer_inv_def batch_inv_def filter_empty_conv)
  have w: "i \<in> set (waiting l) \<longleftrightarrow> (\<exists>e \<in> set ?es. entry_id e = i \<and> due (clock s) e)"
    by (auto simp: l task_of_def)
  show ?thesis
  proof (cases "FindEntry i ?es")
    case None
    then show ?thesis using fe by (simp add: alarm_of_def y)
  next
    case (Some e)
    then have e: "e \<in> set ?es" "entry_id e = i" by (auto dest: FindEntry_SomeD)
    have a: "al_phase (alarm_of i s) = Armed (next_fire e) (repeats e)"
      using Some p [OF e(1)] by (simp add: alarm_of_def phase_of_def)
    show ?thesis
    proof (cases "due (clock s) e")
      case True
      then have "i \<in> set (waiting l)" using w e by blast
      then have "alarm_of i (s\<lparr>pc := l, sched := y\<rparr>) = (alarm_of i s)\<lparr>al_phase := Claimed (next_fire e) (repeats e) True\<rparr>"
        using Some fe True by (simp add: alarm_of_def y phase_of_def pending_def repeats_def)
      moreover have "next_fire e \<le> al_clock (alarm_of i s)" using True by (simp add: due_def alarm_of_def)
      ultimately show ?thesis using al_claim [OF a] by simp
    next
      case False
      then show ?thesis using Some fe p [OF e(1)] by (simp add: alarm_of_def y phase_of_def)
    qed
  qed
next
  case False
  then have "y = (sched s)\<lparr>ts_reschedule := False\<rparr>" "l = Loop_exit"
    using r by (auto simp: after_wait_until_def Let_def)
  moreover have "waiting (pc s) = []" using b by (cases "pc s") auto
  ultimately show ?thesis by (intro disjI1 alarm_same) simp_all
qed

lemma alarm_rearms:
  assumes inv: "timer_inv s" and pc: "pc s = Executing [] (map fst ts)"
    and now: "\<forall>(t, now) \<in> set ts. clock s \<le> now \<and> now \<le> c" "clock s \<le> c"
    and r: "reconcile ts (ts_timers (sched s)) = (timers, err)"
    and s': "s' = s\<lparr>pc := Loop_head, sched := (sched s)\<lparr>ts_timers := timers\<rparr>, clock := c, timer_stderr := er\<rparr>"
    and run: "FindEntry i (ts_timers (sched s)) = Some e" "\<not> pending e" and Some: "FindEntry i timers = Some e'"
  shows "alarm_move (alarm_of i s) (alarm_of i s')"
proof -
  let ?es = "ts_timers (sched s)" and ?a = "alarm_of i s"
  have d: "distinct (map entry_id ?es)" and b: "batch_inv (Executing [] (map fst ts)) (clock s) ?es"
    using inv pc by (auto simp: timer_inv_def table_inv_def)
  have tick: "al_clock ?a \<le> c" using now(2) by (simp add: alarm_of_def)
  have e: "e \<in> set ?es" "entry_id e = i" using run(1) by (auto dest: FindEntry_SomeD)
  have a: "al_phase ?a = Rung (next_fire e) (repeats e) (entry_state e \<noteq> Timer_CANCELLED)"
    using run by (simp add: alarm_of_def phase_of_def pc)
  have e': "e' \<in> set timers" "entry_id e' = i" using Some by (auto dest: FindEntry_SomeD)
  from reconcile_pending [OF b d r e'(1)] have pe: "pending e'" by blast
  have "e' \<notin> set ?es" using distinct_key_eq [OF d _ e(1)] e'(2) e(2) run(2) pe by metis
  with reconcile_pending [OF b d r e'(1)] obtain t n e0 where t: "(t, n) \<in> set ts" "e0 \<in> set ?es" "survives t e0"
    "e' = rearm n t e0" by auto
  have "e0 = e" using distinct_key_eq [OF d t(2) e(1)] e'(2) e(2) t(4) by simp
  note t = t [unfolded this]
  have n: "clock s \<le> n" using now(1) t(1) by auto
  note rb = rearm_bounds [OF inv pc t(1-3) n]
  have "t \<in> set (batch (Executing [] (map fst ts)))" using t(1) by force
  from batch_entry [OF b d this e(1)] t(3) have k: "task_key t = entry_key e" by (simp add: survives_def)
  have rp: "repeats e = Some (entry_period e)" "entry_state e \<noteq> Timer_CANCELLED"
    using t(3) k by (auto simp: survives_def repeats_def task_key_def entry_key_def)
  have "alarm_of i s' = ?a\<lparr>al_clock := c, al_phase := Armed (next_fire e') (Some (entry_period e))\<rparr>"
    using Some pe rp(1) by (auto simp: alarm_of_def s' phase_of_def t(4) repeats_def split: if_splits)
  moreover have "al_clock ?a < next_fire e'" "next_fire e + ns_of_ms (entry_period e) \<le> next_fire e'"
    using rb n by (auto simp: t(4) alarm_of_def)
  ultimately show ?thesis using al_rearm [OF _ tick] a rp by simp
qed

lemma alarm_reconciles:
  assumes inv: "timer_inv s" and pc: "pc s = Executing [] (map fst ts)"
    and now: "\<forall>(t, now) \<in> set ts. clock s \<le> now \<and> now \<le> c" "clock s \<le> c"
    and r: "reconcile ts (ts_timers (sched s)) = (timers, err)"
    and s': "s' = s\<lparr>pc := Loop_head, sched := (sched s)\<lparr>ts_timers := timers\<rparr>, clock := c, timer_stderr := er\<rparr>"
  shows "alarm_move (alarm_of i s) (alarm_of i s')"
proof -
  let ?es = "ts_timers (sched s)" and ?a = "alarm_of i s"
  have d: "distinct (map entry_id ?es)" and b: "batch_inv (Executing [] (map fst ts)) (clock s) ?es"
    using inv pc by (auto simp: timer_inv_def table_inv_def)
  obtain P where P: "map entry_id timers = filter P (map entry_id ?es)"
    using reconcile_spec(1) [OF d reconcile_batch(2) [OF b d] r] by blast
  then have dt: "distinct (map entry_id timers)" and sub: "entry_id ` set timers \<subseteq> entry_id ` set ?es"
    using d by (simp, metis P filter_is_subset image_set)
  have tick: "al_clock ?a \<le> c" using now(2) by (simp add: alarm_of_def)
  consider (none) "FindEntry i ?es = None" | (pend) e where "FindEntry i ?es = Some e" "pending e"
    | (run) e where "FindEntry i ?es = Some e" "\<not> pending e" by (cases "FindEntry i ?es") auto
  then show ?thesis
  proof cases
    case none
    then have "FindEntry i timers = None" using sub by (auto simp: FindEntry_None)
    with none have "alarm_of i s' = ?a\<lparr>al_clock := c\<rparr>" by (simp add: alarm_of_def s')
    with al_tick [OF tick] show ?thesis by simp
  next
    case pend
    have "e \<in> set timers" "entry_id e = i"
      using reconcile_complete(1) [OF b d r] pend by (auto dest: FindEntry_SomeD)
    then have "FindEntry i timers = Some e" using FindEntry_distinct [OF dt] by blast
    with pend have "alarm_of i s' = ?a\<lparr>al_clock := c\<rparr>" by (simp add: alarm_of_def s' phase_of_def)
    with al_tick [OF tick] show ?thesis by simp
  next
    case run
    then have e: "e \<in> set ?es" "entry_id e = i" by (auto dest: FindEntry_SomeD)
    have a: "al_phase ?a = Rung (next_fire e) (repeats e) (entry_state e \<noteq> Timer_CANCELLED)"
      using run by (simp add: alarm_of_def phase_of_def pc)
    show ?thesis
    proof (cases "FindEntry i timers")
      case None
      have "i < ts_next_id (sched s)" using inv e by (auto simp: timer_inv_def table_inv_def)
      then have "alarm_of i s' = ?a\<lparr>al_clock := c, al_phase := Over\<rparr>" using None run by (simp add: alarm_of_def s')
      with al_end [OF a tick] show ?thesis by simp
    next
      case (Some e')
      with assms run show ?thesis by (intro alarm_rearms)
    qed
  qed
qed

lemma alarm_sets:
  assumes inv: "timer_inv s" and a: "appends (clock s) (sched s) y" and nw: "ts_next_id (sched s) + 1 \<noteq> 0"
  shows "alarm_move (alarm_of i s) (alarm_of i (s\<lparr>sched := y\<rparr>))"
proof -
  from a obtain e where e: "ts_timers y = ts_timers (sched s) @ [e]" "pending e" "entry_id e = ts_next_id (sched s)"
    "clock s < next_fire e" "ts_next_id y = ts_next_id (sched s) + 1"
    unfolding appends_def by blast
  have fresh: "FindEntry (ts_next_id (sched s)) (ts_timers (sched s)) = None"
    using inv by (force simp: timer_inv_def table_inv_def FindEntry_None)
  have lt: "i < ts_next_id (sched s) + 1 \<longleftrightarrow> i < ts_next_id (sched s)" if "i \<noteq> ts_next_id (sched s)"
    using that nw by unat_arith
  show ?thesis
  proof (cases "i = ts_next_id (sched s)")
    case True
    then have u: "al_phase (alarm_of i s) = Unset" using fresh by (simp add: alarm_of_def)
    have "alarm_of i (s\<lparr>sched := y\<rparr>) = (alarm_of i s)\<lparr>al_phase := Armed (next_fire e) (repeats e)\<rparr>"
      using True fresh e by (simp add: alarm_of_def phase_of_def)
    with al_arm [OF u] e(4) show ?thesis by (simp add: alarm_of_def)
  next
    case False
    then show ?thesis using e lt by (simp add: alarm_of_def split: option.split)
  qed
qed

text \<open>\<open>Cancel\<close> of a pending timer takes it off the table, of a running one marks it.\<close>

lemma alarm_drops:
  assumes inv: "timer_inv s" and drop: "en \<in> set (ts_timers (sched s))" "entry_id en = j" "pending en"
    "y = (sched s)\<lparr>ts_timers := filter (\<lambda>e. entry_id e \<noteq> j) (ts_timers (sched s)), ts_reschedule := True, ts_notified := True\<rparr>"
  shows "alarm_move (alarm_of i s) (alarm_of i (s\<lparr>sched := y\<rparr>))"
proof -
  let ?x = "sched s" and ?a = "alarm_of i s"
  have d: "distinct (map entry_id (ts_timers ?x))" using inv by (simp add: timer_inv_def table_inv_def)
  show ?thesis
  proof (cases "i = j")
    case True
    have f: "FindEntry i (ts_timers ?x) = Some en" using FindEntry_distinct [OF d drop(1)] drop(2) True by simp
    have "i < ts_next_id ?x" using inv drop(1,2) True by (auto simp: timer_inv_def table_inv_def)
    then have "alarm_of i (s\<lparr>sched := y\<rparr>) = ?a\<lparr>al_phase := Over\<rparr>"
      using True by (simp add: alarm_of_def drop(4) FindEntry_filter)
    moreover have "al_phase ?a = Armed (next_fire en) (repeats en)" using f drop(3) by (simp add: alarm_of_def phase_of_def)
    ultimately show ?thesis using al_cancel by simp
  next
    case False
    then show ?thesis by (simp add: alarm_of_def drop(4) FindEntry_filter cong: option.case_cong)
  qed
qed

lemma alarm_marks:
  assumes inv: "timer_inv s" and mark: "en \<in> set (ts_timers (sched s))" "entry_id en = j" "entry_state en = Timer_RUNNING"
    "y = (sched s)\<lparr>ts_timers := map (\<lambda>e. if entry_id e = j then e\<lparr>entry_state := Timer_CANCELLED\<rparr> else e) (ts_timers (sched s))\<rparr>"
  shows "alarm_move (alarm_of i s) (alarm_of i (s\<lparr>sched := y\<rparr>))"
proof -
  let ?x = "sched s" and ?a = "alarm_of i s"
  have d: "distinct (map entry_id (ts_timers ?x))" using inv by (simp add: timer_inv_def table_inv_def)
  let ?f = "\<lambda>e. if entry_id e = j then e\<lparr>entry_state := Timer_CANCELLED\<rparr> else e"
  have fe: "FindEntry i (map ?f (ts_timers ?x)) = map_option ?f (FindEntry i (ts_timers ?x))"
    by (rule FindEntry_map) simp
  show ?thesis
  proof (cases "i = j")
    case True
    have f: "FindEntry i (ts_timers ?x) = Some en" using FindEntry_distinct [OF d mark(1)] mark(2) True by simp
    let ?ph = "if i \<in> set (waiting (pc s)) then Claimed else Rung"
    have "alarm_of i (s\<lparr>sched := y\<rparr>) = ?a\<lparr>al_phase := ?ph (next_fire en) (repeats en) False\<rparr>"
      using True f fe mark(2) by (simp add: alarm_of_def mark(4) phase_of_def pending_def repeats_def)
    moreover have "al_phase ?a = ?ph (next_fire en) (repeats en) True"
      using f mark(3) by (simp add: alarm_of_def phase_of_def pending_def)
    ultimately show ?thesis using al_cancel_claimed al_cancel_rung by (simp split: if_splits)
  next
    case False
    then have "FindEntry i (map ?f (ts_timers ?x)) = FindEntry i (ts_timers ?x)"
      using fe by (cases "FindEntry i (ts_timers ?x)") (auto dest: FindEntry_SomeD)
    then show ?thesis by (simp add: alarm_of_def mark(4) cong: option.case_cong)
  qed
qed

lemma alarm_cancels:
  assumes inv: "timer_inv s" and c: "TimerScheduler_Cancel j (sched s) = (e, y)"
  shows "alarm_move (alarm_of i s) (alarm_of i (s\<lparr>sched := y\<rparr>))"
proof -
  have "distinct (map entry_id (ts_timers (sched s)))" using inv by (simp add: timer_inv_def table_inv_def)
  from cancel_cases [OF c this] consider "y = sched s"
    | en where "en \<in> set (ts_timers (sched s))" "entry_id en = j" "pending en"
        "y = (sched s)\<lparr>ts_timers := filter (\<lambda>e. entry_id e \<noteq> j) (ts_timers (sched s)), ts_reschedule := True, ts_notified := True\<rparr>"
    | en where "en \<in> set (ts_timers (sched s))" "entry_id en = j" "entry_state en = Timer_RUNNING"
        "y = (sched s)\<lparr>ts_timers := map (\<lambda>e. if entry_id e = j then e\<lparr>entry_state := Timer_CANCELLED\<rparr> else e) (ts_timers (sched s))\<rparr>"
    by blast
  then show ?thesis
  proof cases
    case (2 en)
    then show ?thesis by (rule alarm_drops [OF inv])
  next
    case (3 en)
    then show ?thesis by (rule alarm_marks [OF inv])
  qed simp
qed

lemma alarm_rings:
  assumes inv: "timer_inv s" and pc: "pc s = Executing (t # todo) done_ts"
  shows "alarm_move (alarm_of i s) (alarm_of i (s\<lparr>pc := In_callback t todo done_ts, fired := fired s @ [task_id t]\<rparr>))"
proof (cases "i = task_id t")
  case True
  let ?es = "ts_timers (sched s)"
  have d: "distinct (map entry_id ?es)" and b: "batch_inv (pc s) (clock s) ?es"
    using inv by (auto simp: timer_inv_def table_inv_def)
  have ids: "map task_id (done_ts @ t # todo) = map entry_id (filter (\<lambda>e. \<not> pending e) ?es)"
    using batch_ids [OF b] by (simp add: pc)
  have "task_id t \<in> set (map entry_id (filter (\<lambda>e. \<not> pending e) ?es))" unfolding ids [symmetric] by simp
  then obtain e where e: "e \<in> set ?es" "entry_id e = i" "\<not> pending e" using True by auto
  have f: "FindEntry i ?es = Some e" using FindEntry_distinct [OF d e(1)] e(2) by simp
  have "distinct (map task_id (done_ts @ t # todo))" unfolding ids using d by (rule distinct_map_filter)
  then have "i \<notin> task_id ` set todo" using True by auto
  then have "alarm_of i (s\<lparr>pc := In_callback t todo done_ts, fired := fired s @ [task_id t]\<rparr>) =
      (alarm_of i s)\<lparr>al_phase := Rung (next_fire e) (repeats e) (entry_state e \<noteq> Timer_CANCELLED), rings := Suc (rings (alarm_of i s))\<rparr>"
    using f e(3) True by (simp add: alarm_of_def phase_of_def)
  moreover have "al_phase (alarm_of i s) = Claimed (next_fire e) (repeats e) (entry_state e \<noteq> Timer_CANCELLED)"
    using f e(3) True by (simp add: alarm_of_def phase_of_def pc)
  ultimately show ?thesis using al_ring by simp
next
  case False
  then show ?thesis by (simp add: alarm_of_def pc split: option.split)
qed

lemma alarm_loop_step: "loop_step s s' \<Longrightarrow> timer_inv s \<Longrightarrow> alarm_move (alarm_of i s) (alarm_of i s')"
proof (induction rule: loop_step.induct)
  case (step_head s l x)
  then show ?case using alarm_claims [OF step_head(3), of l x i]
    by (auto simp: loop_head_def split: option.splits if_splits intro!: alarm_same)
next
  case (step_any s l x)
  then show ?case by (auto simp: resume_any_def split: if_splits intro!: alarm_same)
next
  case (step_until s d l x)
  then show ?case using alarm_claims [OF step_until(4), of l x i]
    by (auto simp: resume_until_def split: if_splits intro!: alarm_same)
next
  case (step_call s t todo done_ts)
  then show ?case using alarm_rings by blast
next
  case (step_return s t todo done_ts out t' err)
  then show ?case by (intro disjI1 alarm_same) simp_all
next
  case (step_reconcile s ts c timers err)
  then show ?case using alarm_reconciles [OF step_reconcile(5,1-4) refl] by blast
qed

lemma alarm_client_step: "client_step s s' \<Longrightarrow> timer_inv s \<Longrightarrow> alarm_move (alarm_of i s) (alarm_of i s')"
proof (induction rule: client_step.induct)
  case (client_start s created e x)
  then show ?case
    by (auto simp: TimerScheduler_Start_def split: if_splits option.splits intro!: alarm_same)
next
  case (client_stop s e x)
  then show ?case by (auto simp: timer_op_defs split: if_splits intro!: alarm_same)
next
  case (client_join s e x)
  then show ?case by (auto simp: timer_op_defs split: option.splits intro!: alarm_same)
next
  case (client_oneshot s delay cb e out x)
  then show ?case using oneshot_cases [OF client_oneshot(2)] alarm_sets by fastforce
next
  case (client_periodic s period mode cb e out x)
  then show ?case using periodic_cases [OF client_periodic(2)] alarm_sets by fastforce
next
  case (client_cancel i s e x)
  then show ?case using alarm_cancels by blast
next
  case (client_tick s c)
  then have "alarm_of i (s\<lparr>clock := c\<rparr>) = (alarm_of i s)\<lparr>al_clock := c\<rparr>" "al_clock (alarm_of i s) \<le> c"
    by (simp_all add: alarm_of_def cong: option.case_cong)
  then show ?case using al_tick by simp
next
  case (client_spurious s)
  then show ?case by (intro disjI1 alarm_same) simp_all
qed

interpretation timer_alarm: simulation timer_init timer_step timer_inv "alarm_of i" alarm_init alarm_step for i
proof
  show "alarm_init (alarm_of i s)" if "timer_init s" for s :: "'a TimerSys"
    using that by (simp add: timer_init_def alarm_init_def alarm_of_def TimerScheduler_new_def)
  show "alarm_move (alarm_of i s) (alarm_of i t)" if "timer_step s t" "timer_inv s" for s t :: "'a TimerSys"
    using that alarm_loop_step alarm_client_step unfolding timer_step_def by blast
qed

section \<open>Properties\<close>

text \<open>C4: Each timer refines the abstract alarm: for every id and every interleaving of the scheduler
  thread, the callbacks, the clients, the clock and spurious wake-ups, what happens to that timer
  is a run of the alarm. It is armed once, for the future; claimed only when its deadline has
  passed, rung once per claim, armed again only if it repeats and has not been cancelled, then at
  least one period later and in the future; and over for good otherwise. So it never rings early,
  a single alarm rings at most once, and one that is over never rings again.\<close>

theorem timer_refines_alarm:
  assumes "reaches timer_init timer_step s" "timer_step\<^sup>*\<^sup>* s s'"
  shows "reaches alarm_init alarm_step (alarm_of i s) \<and> alarm_step\<^sup>*\<^sup>* (alarm_of i s) (alarm_of i s') \<and>
    alarm_ok (alarm_of i s') \<and>
    (al_phase (alarm_of i s) = Over \<longrightarrow> count_list (fired s') i = count_list (fired s) i)"
proof -
  have r: "reaches alarm_init alarm_step (alarm_of i s)" by (rule timer_alarm.reaches_abs [OF assms(1)])
  have st: "alarm_step\<^sup>*\<^sup>* (alarm_of i s) (alarm_of i s')"
    by (rule timer_alarm.steps_abs [OF assms(2) timer_sys.reaches_inv [OF assms(1)]])
  have "alarm_ok (alarm_of i s')" by (rule alarm_sys.steps_inv [OF st alarm_sys.reaches_inv [OF r]])
  moreover have "count_list (fired s') i = count_list (fired s) i" if "al_phase (alarm_of i s) = Over"
    using alarm_over_final [OF st that] by (simp add: alarm_of_def)
  ultimately show ?thesis using r st by blast
qed

theorem timer_refines_alarm_witness:
  "al_phase (alarm_of 1 demo_call) = Rung 5000000 (Some 5) True \<and>
   reaches alarm_init alarm_step (alarm_of 1 demo_call) \<and> alarm_ok (alarm_of 1 demo_call) \<and> rings (alarm_of 1 demo_call) = 1"
  using timer_refines_alarm [OF demo_call_reachable rtranclp.rtrancl_refl, of 1]
  by (simp add: alarm_of_def demo_call_def demo_running_def demo_sched_def demo_sys_def phase_of_def pending_def repeats_def)

end
