(* ===== verification/Timer_Clock.thy ===== *)
theory Timer_Clock
  imports Timer_Scheduler
begin

text \<open>
  The clock arithmetic of the timer scheduler at its machine width. \<open>Timer_Scheduler\<close> computes
  deadlines with mathematical integers; here every addition of \<open>timer_scheduler.cpp\<close> is the checked
  64-bit one, and an operation whose addition overflows has no result. As long as the clock and the
  delays stay below a bound, the two agree in every reachable state.
\<close>

section \<open>The operations at machine width\<close>

definition ScheduleOneShot64 ::
  "nsec \<Rightarrow> msec \<Rightarrow> 'cb option \<Rightarrow> 'cb TimerScheduler \<Rightarrow>
   (TimerError \<times> TimerId option \<times> 'cb TimerScheduler) option" where
  "ScheduleOneShot64 now delay callback s =
     (case callback of
        None \<Rightarrow> Some (Timer_INVALID_ARGUMENT, None, s)
      | Some cb \<Rightarrow>
          if delay \<le> 0 then Some (Timer_INVALID_ARGUMENT, None, s)
          else if \<not> ts_running s then Some (Timer_NOT_RUNNING, None, s)
          else if length (ts_timers s) \<ge> kMaxTimers then Some (TIMER_LIMIT_REACHED, None, s)
          else
            case clock_add now delay of
              None \<Rightarrow> None
            | Some fire \<Rightarrow>
                let i = ts_next_id s;
                    entry = \<lparr>entry_id = i, entry_callback = cb, entry_mode = ONE_SHOT,
                             entry_period_mode = FIXED_DELAY, entry_period = 0,
                             next_fire = fire, entry_state = Timer_PENDING\<rparr>
                in Some (Timer_SUCCESS, Some i,
                    notify_all_timers
                      (s\<lparr>ts_next_id := i + 1, ts_timers := ts_timers s @ [entry],
                         ts_reschedule := True\<rparr>)))"

definition SchedulePeriodic64 ::
  "nsec \<Rightarrow> msec \<Rightarrow> PeriodMode \<Rightarrow> 'cb option \<Rightarrow> 'cb TimerScheduler \<Rightarrow>
   (TimerError \<times> TimerId option \<times> 'cb TimerScheduler) option" where
  "SchedulePeriodic64 now period mode callback s =
     (case callback of
        None \<Rightarrow> Some (Timer_INVALID_ARGUMENT, None, s)
      | Some cb \<Rightarrow>
          if period \<le> 0 then Some (Timer_INVALID_ARGUMENT, None, s)
          else if \<not> ts_running s then Some (Timer_NOT_RUNNING, None, s)
          else if length (ts_timers s) \<ge> kMaxTimers then Some (TIMER_LIMIT_REACHED, None, s)
          else
            case clock_add now period of
              None \<Rightarrow> None
            | Some fire \<Rightarrow>
                let i = ts_next_id s;
                    entry = \<lparr>entry_id = i, entry_callback = cb, entry_mode = PERIODIC,
                             entry_period_mode = mode, entry_period = period,
                             next_fire = fire, entry_state = Timer_PENDING\<rparr>
                in Some (Timer_SUCCESS, Some i,
                    notify_all_timers
                      (s\<lparr>ts_next_id := i + 1, ts_timers := ts_timers s @ [entry],
                         ts_reschedule := True\<rparr>)))"

text \<open>Re-arming a periodic timer: one or two additions, depending on the mode and on the clock.\<close>

definition rearm64 :: "nsec \<Rightarrow> 'cb ExecutingTimer \<Rightarrow> 'cb TimerEntry \<Rightarrow> 'cb TimerEntry option" where
  "rearm64 now task entry =
     (if task_period_mode task = FIXED_DELAY
      then map_option (\<lambda>fire. entry\<lparr>next_fire := fire, entry_state := Timer_PENDING\<rparr>)
             (clock_add now (task_period task))
      else
        case clock_add (next_fire entry) (task_period task) of
          None \<Rightarrow> None
        | Some candidate \<Rightarrow>
            map_option (\<lambda>fire. entry\<lparr>next_fire := fire, entry_state := Timer_PENDING\<rparr>)
              (if candidate \<le> now then clock_add now (task_period task) else Some candidate))"

fun reconcile_loop64 ::
  "('cb ExecutingTimer \<times> nsec) list \<Rightarrow> 'cb TimerEntry list \<Rightarrow> TimerId list \<Rightarrow> string list \<Rightarrow>
   ('cb TimerEntry list \<times> TimerId list \<times> string list) option" where
  "reconcile_loop64 [] timers to_erase err = Some (timers, to_erase, err)"
| "reconcile_loop64 ((task, now) # ts) timers to_erase err =
     (case FindEntry (task_id task) timers of
        None \<Rightarrow> reconcile_loop64 ts timers to_erase err
      | Some entry \<Rightarrow>
          if entry_state entry = Timer_CANCELLED then
            reconcile_loop64 ts timers (to_erase @ [task_id task]) err
          else if callback_threw task then
            reconcile_loop64 ts timers (to_erase @ [task_id task])
              (err @ [''[TimerScheduler] cancelling timer after callback threw an exception''])
          else if task_mode task = ONE_SHOT then
            reconcile_loop64 ts timers (to_erase @ [task_id task]) err
          else
            case rearm64 now task entry of
              None \<Rightarrow> None
            | Some entry' \<Rightarrow>
                reconcile_loop64 ts (modify_entry (task_id task) (\<lambda>_. entry') timers) to_erase err)"

definition reconcile64 ::
  "('cb ExecutingTimer \<times> nsec) list \<Rightarrow> 'cb TimerEntry list \<Rightarrow>
   ('cb TimerEntry list \<times> string list) option" where
  "reconcile64 ts timers =
     map_option (\<lambda>(timers', to_erase, err). (filter (\<lambda>e. entry_id e \<notin> set to_erase) timers', err))
       (reconcile_loop64 ts timers [] [])"

section \<open>Runs within a bound\<close>

text \<open>Steps of the clients that ask for no delay above \<open>P\<close> milliseconds; a step that makes no timer
  leaves the id counter alone.\<close>

inductive client_within :: "msec \<Rightarrow> 'cb TimerSys \<Rightarrow> 'cb TimerSys \<Rightarrow> bool" for P where
  within_other: "client_step s s' \<Longrightarrow> ts_next_id (sched s') = ts_next_id (sched s) \<Longrightarrow> client_within P s s'"
| within_oneshot: "ts_next_id (sched s) + 1 \<noteq> 0 \<Longrightarrow> delay \<le> P \<Longrightarrow>
    TimerScheduler_ScheduleOneShot (clock s) delay cb (sched s) = (e, out, x) \<Longrightarrow>
    client_within P s (s\<lparr>sched := x\<rparr>)"
| within_periodic: "ts_next_id (sched s) + 1 \<noteq> 0 \<Longrightarrow> period \<le> P \<Longrightarrow>
    TimerScheduler_SchedulePeriodic (clock s) period mode cb (sched s) = (e, out, x) \<Longrightarrow>
    client_within P s (s\<lparr>sched := x\<rparr>)"

text \<open>Any interleaving of the scheduler thread and such clients while the clock is at most \<open>T\<close>.\<close>

definition timer_step_within :: "nsec \<Rightarrow> msec \<Rightarrow> 'cb TimerSys \<Rightarrow> 'cb TimerSys \<Rightarrow> bool" where
  "timer_step_within T P s s' \<longleftrightarrow> (loop_step s s' \<or> client_within P s s') \<and> clock s' \<le> T"

definition timer_init_within :: "nsec \<Rightarrow> msec \<Rightarrow> 'cb TimerSys \<Rightarrow> bool" where
  "timer_init_within T P s \<longleftrightarrow> timer_init s \<and> 0 \<le> clock s \<and> clock s \<le> T \<and> 0 \<le> P"

lemma client_within_step: "client_within P s s' \<Longrightarrow> client_step s s'"
  by (induction rule: client_within.induct) (auto intro: client_step.intros)

lemma timer_step_within_step: "timer_step_within T P s s' \<Longrightarrow> timer_step s s'"
  by (auto simp: timer_step_within_def timer_step_def intro: client_within_step)

section \<open>Where deadlines can be\<close>

definition entry_within :: "nsec \<Rightarrow> msec \<Rightarrow> 'cb TimerEntry \<Rightarrow> bool" where
  "entry_within now P e \<longleftrightarrow> 0 \<le> next_fire e \<and> next_fire e \<le> now + ns_of_ms P \<and> 0 \<le> entry_period e \<and>
     entry_period e \<le> P"

definition range_inv :: "nsec \<Rightarrow> msec \<Rightarrow> 'cb TimerSys \<Rightarrow> bool" where
  "range_inv T P s \<longleftrightarrow> timer_inv s \<and> 0 \<le> clock s \<and> clock s \<le> T \<and> 0 \<le> P \<and>
     (\<forall>e \<in> set (ts_timers (sched s)). entry_within (clock s) P e)"

lemma entry_within_later: "entry_within now P e \<Longrightarrow> now \<le> now' \<Longrightarrow> entry_within now' P e"
  by (simp add: entry_within_def)

lemma entry_within_state [simp]: "entry_within now P (e\<lparr>entry_state := st\<rparr>) = entry_within now P e"
  by (simp add: entry_within_def)

text \<open>What the loop does while it holds the mutex changes states only.\<close>

lemma after_wait_within:
  assumes "after_wait_until now x = (l, y)" "\<forall>e \<in> set (ts_timers x). entry_within c P e"
  shows "\<forall>e \<in> set (ts_timers y). entry_within c P e"
  using assms by (auto simp: after_wait_until_def Let_def collect_due_eq split: if_splits)

lemma reconcile_within:
  assumes inv: "range_inv T P s" and pc: "pc s = Executing [] (map fst ts)"
    and now: "\<forall>(t, now) \<in> set ts. clock s \<le> now \<and> now \<le> c" and c: "clock s \<le> c"
    and r: "reconcile ts (ts_timers (sched s)) = (es, err)" and e': "e' \<in> set es"
  shows "entry_within c P e'"
proof -
  have ti: "timer_inv s" and w: "\<forall>e \<in> set (ts_timers (sched s)). entry_within (clock s) P e"
    and z: "0 \<le> clock s" using inv by (auto simp: range_inv_def)
  have d: "distinct (map entry_id (ts_timers (sched s)))"
    and b: "batch_inv (Executing [] (map fst ts)) (clock s) (ts_timers (sched s))"
    using ti pc by (auto simp: timer_inv_def table_inv_def)
  from reconcile_pending [OF b d r e'] consider "e' \<in> set (ts_timers (sched s))"
    | t n e where "(t, n) \<in> set ts" "e \<in> set (ts_timers (sched s))" "survives t e" "\<not> pending e" "e' = rearm n t e"
    by auto
  then show ?thesis
  proof cases
    case 1
    with w c show ?thesis by (blast intro: entry_within_later)
  next
    case (2 t n e)
    have n: "clock s \<le> n" "n \<le> c" using now 2(1) by auto
    have "next_fire e \<le> clock s" using b 2(2,4) by (simp add: batch_inv_def)
    moreover have "entry_within (clock s) P e" using w 2(2) by blast
    ultimately show ?thesis
      using rearm_bounds [OF ti pc 2(1,2,3) n(1)] n z
      by (auto simp: entry_within_def 2(5) ns_of_ms_def split: if_splits)
  qed
qed

lemma range_inv_loop:
  assumes "loop_step s s'" "range_inv T P s" "clock s' \<le> T"
  shows "range_inv T P s'"
proof -
  have "timer_inv s'" using assms(1,2) timer_inv_loop by (auto simp: range_inv_def)
  moreover have "clock s \<le> clock s' \<and> (\<forall>e \<in> set (ts_timers (sched s')). entry_within (clock s') P e)"
    using assms(1,2)
  proof (cases rule: loop_step.cases)
    case (step_reconcile ts c timers err)
    with assms(2) reconcile_within show ?thesis by auto
  qed (auto simp: range_inv_def loop_head_def resume_any_def resume_until_def
      split: option.splits if_splits dest: after_wait_within)
  ultimately show ?thesis using assms(2,3) by (auto simp: range_inv_def)
qed

lemma range_inv_client:
  assumes "client_within P s s'" "range_inv T P s" "clock s' \<le> T"
  shows "range_inv T P s'"
proof -
  have "timer_inv s'" using timer_inv_client [OF client_within_step [OF assms(1)]] assms(2) by (simp add: range_inv_def)
  moreover have "clock s \<le> clock s' \<and> (\<forall>e \<in> set (ts_timers (sched s')). entry_within (clock s') P e)"
    using assms(1,2)
  proof (induction rule: client_within.induct)
    case (within_other s s')
    from within_other(1) within_other(2-) show ?case
    proof (induction rule: client_step.induct)
      case (client_cancel i s e x)
      then have "distinct (map entry_id (ts_timers (sched s)))" by (simp add: range_inv_def timer_inv_def table_inv_def)
      from cancel_cases [OF client_cancel(1) this] client_cancel(3) show ?case
        by (auto simp: range_inv_def)
    qed (auto simp: range_inv_def timer_op_defs Let_def entry_within_def split: option.splits if_splits)
  qed (auto simp: range_inv_def timer_op_defs Let_def entry_within_def ns_of_ms_def split: option.splits if_splits)
  ultimately show ?thesis using assms(2,3) by (auto simp: range_inv_def)
qed

interpretation timer_range: inductive_invariant "timer_init_within T P" "timer_step_within T P" "range_inv T P"
proof unfold_locales
  fix s assume "timer_init_within T P s"
  then show "range_inv T P s"
    using timer_sys.inv_init [of s]
    by (auto simp: timer_init_within_def range_inv_def timer_init_def TimerScheduler_new_def)
qed (auto simp: timer_step_within_def intro: range_inv_loop range_inv_client)

section \<open>Agreement of the two widths\<close>

lemma oneshot64_exact:
  assumes "0 \<le> now" "now + ns_of_ms delay < 2 ^ 63"
  shows "ScheduleOneShot64 now delay cb x = Some (TimerScheduler_ScheduleOneShot now delay cb x)"
  using assms by (simp add: ScheduleOneShot64_def TimerScheduler_ScheduleOneShot_def clock_add_eq Let_def split: option.splits)

lemma periodic64_exact:
  assumes "0 \<le> now" "now + ns_of_ms period < 2 ^ 63"
  shows "SchedulePeriodic64 now period mode cb x = Some (TimerScheduler_SchedulePeriodic now period mode cb x)"
  using assms by (simp add: SchedulePeriodic64_def TimerScheduler_SchedulePeriodic_def clock_add_eq Let_def split: option.splits)

lemma rearm64_exact:
  assumes "0 \<le> now" "0 \<le> next_fire e" "0 \<le> task_period t"
    "max now (next_fire e) + ns_of_ms (task_period t) < 2 ^ 63"
  shows "rearm64 now t e = Some (rearm now t e)"
  using assms by (simp add: rearm64_def rearm_def clock_add_eq Let_def max_def split: if_splits)

lemma modify_entry_found: "FindEntry i es = Some e \<Longrightarrow> modify_entry i (\<lambda>_. f e) es = modify_entry i f es"
  by (induction es) (auto split: if_splits)

lemma set_modify_entry:
  "e \<in> set (modify_entry i f es) \<Longrightarrow> e \<in> set es \<or> (\<exists>e0 \<in> set es. entry_id e0 = i \<and> e = f e0)"
  by (induction es) (auto split: if_splits)

lemma reconcile_loop64_exact:
  assumes "distinct (map (\<lambda>x. task_id (fst x)) ts)"
    and "\<And>t n e. (t, n) \<in> set ts \<Longrightarrow> e \<in> set es \<Longrightarrow> entry_id e = task_id t \<Longrightarrow> rearm64 n t e = Some (rearm n t e)"
  shows "reconcile_loop64 ts es er err = Some (reconcile_loop ts es er err)"
  using assms
proof (induction ts es er err rule: reconcile_loop.induct)
  case (2 task now ts es er err)
  have later: "rearm64 n t e = Some (rearm n t e)"
    if "(t, n) \<in> set ts" "e \<in> set (modify_entry (task_id task) (rearm now task) es)" "entry_id e = task_id t" for t n e
  proof -
    have "task_id t \<noteq> task_id task" using 2(6) that(1) by force
    with set_modify_entry [OF that(2)] that(3) have "e \<in> set es" by auto
    with 2(7) that show ?thesis by simp
  qed
  have "rearm64 now task e = Some (rearm now task e)" if "FindEntry (task_id task) es = Some e" for e
    using 2(7) FindEntry_SomeD [OF that] by simp
  with 2 later show ?case by (auto simp: modify_entry_found split: option.splits)
qed simp

lemma reconcile64_exact:
  assumes inv: "range_inv T P s" and T: "T + ns_of_ms P < 2 ^ 63" and pc: "pc s = Executing [] (map fst ts)"
    and now: "\<forall>(t, now) \<in> set ts. clock s \<le> now \<and> now \<le> T"
  shows "reconcile64 ts (ts_timers (sched s)) = Some (reconcile ts (ts_timers (sched s)))"
proof -
  have d: "distinct (map entry_id (ts_timers (sched s)))"
    and b: "batch_inv (Executing [] (map fst ts)) (clock s) (ts_timers (sched s))"
    using inv pc by (auto simp: range_inv_def timer_inv_def table_inv_def)
  have "rearm64 n t e = Some (rearm n t e)"
    if "(t, n) \<in> set ts" "e \<in> set (ts_timers (sched s))" "entry_id e = task_id t" for t n e
  proof (rule rearm64_exact)
    have "t \<in> set (batch (Executing [] (map fst ts)))" using that(1) by force
    from batch_entry [OF b d this that(2,3)] have p: "task_period t = entry_period e" "\<not> pending e"
      by (auto simp: task_key_def entry_key_def)
    have "entry_within (clock s) P e" "next_fire e \<le> clock s" "0 \<le> clock s" "clock s \<le> n" "n \<le> T"
      using inv that(1,2) b p(2) now by (auto simp: range_inv_def batch_inv_def)
    then show "0 \<le> n" "0 \<le> next_fire e" "0 \<le> task_period t"
      "max n (next_fire e) + ns_of_ms (task_period t) < 2 ^ 63"
      using T by (auto simp: entry_within_def p(1) ns_of_ms_def)
  qed
  then have "reconcile_loop64 ts (ts_timers (sched s)) [] [] = Some (reconcile_loop ts (ts_timers (sched s)) [] [])"
    by (intro reconcile_loop64_exact [OF reconcile_batch(2) [OF b d]])
  then show ?thesis by (simp only: reconcile64_def reconcile_def option.map)
qed

section \<open>Properties\<close>

text \<open>C26: No deadline overflows: while the clock is at most \<open>T\<close> nanoseconds and no client asks for more
  than \<open>P\<close> milliseconds, with \<open>T\<close> plus \<open>P\<close> inside 64 bits, every deadline in the table lies between 0
  and the clock plus \<open>P\<close> in every reachable state, however often periodic timers have been armed
  again, and the 64-bit arithmetic of both schedule operations and of the re-arming phase gives
  exactly what the unbounded model computes.\<close>

theorem timer_clock_exact:
  assumes "reaches (timer_init_within T P) (timer_step_within T P) s" "T + ns_of_ms P < 2 ^ 63"
  shows "(\<forall>e \<in> set (ts_timers (sched s)). 0 \<le> next_fire e \<and> next_fire e \<le> clock s + ns_of_ms P) \<and>
    (delay \<le> P \<longrightarrow> ScheduleOneShot64 (clock s) delay cb (sched s) =
       Some (TimerScheduler_ScheduleOneShot (clock s) delay cb (sched s)) \<and>
     SchedulePeriodic64 (clock s) delay mode cb (sched s) =
       Some (TimerScheduler_SchedulePeriodic (clock s) delay mode cb (sched s))) \<and>
    (pc s = Executing [] (map fst ts) \<and> (\<forall>(t, now) \<in> set ts. clock s \<le> now \<and> now \<le> T) \<longrightarrow>
     reconcile64 ts (ts_timers (sched s)) = Some (reconcile ts (ts_timers (sched s))))"
proof -
  have inv: "range_inv T P s" by (rule timer_range.reaches_inv [OF assms(1)])
  have "0 \<le> clock s" "clock s + ns_of_ms delay < 2 ^ 63" if "delay \<le> P"
    using inv assms(2) that by (auto simp: range_inv_def ns_of_ms_def)
  with inv reconcile64_exact [OF inv assms(2)] show ?thesis
    by (auto simp: range_inv_def entry_within_def oneshot64_exact periodic64_exact)
qed

text \<open>The run of the demonstration timer stays below 6 ms.\<close>

lemma demo_done_within: "reaches (timer_init_within 6000000 5) (timer_step_within 6000000 5) demo_done"
proof -
  let ?w = "timer_step_within 6000000 5 :: nat TimerSys \<Rightarrow> nat TimerSys \<Rightarrow> bool"
  have 0: "timer_init_within 6000000 5 demo_new" by (simp add: timer_init_within_def timer_init_def demo_new_def)
  have 1: "?w demo_new demo_started"
    using within_other [OF demo_starts] by (simp add: timer_step_within_def demo_new_def demo_started_def)
  have 2: "?w demo_started (demo_started\<lparr>sched := demo_sched\<rparr>)"
    using within_periodic [OF _ _ demo_schedules, of 5]
    by (simp add: timer_step_within_def demo_started_def TimerScheduler_new_def)
  have 3: "?w (demo_started\<lparr>sched := demo_sched\<rparr>) demo_sys"
    using within_other [OF demo_ticks] by (simp add: timer_step_within_def demo_sys_def)
  have 4: "?w demo_sys demo_collected" "?w demo_collected demo_call"
    using demo_collects demo_calls by (simp_all add: timer_step_within_def demo_collected_def demo_call_def demo_sys_def)
  have 5: "?w demo_call demo_done"
    using demo_returns by (simp add: timer_step_within_def demo_done_def demo_call_def demo_sys_def)
  have "reaches (timer_init_within 6000000 5) ?w demo_new" using 0 by (rule reaches_init)
  note r = reaches_step [OF reaches_step [OF reaches_step [OF this 1] 2] 3]
  show ?thesis by (rule reaches_step [OF reaches_step [OF reaches_step [OF r 4(1)] 4(2)] 5])
qed

theorem timer_clock_exact_witness:
  "reconcile64 [(task_of (hd (ts_timers demo_sched)), 5500000)] (ts_timers demo_running) =
     Some ([(hd (ts_timers demo_sched))\<lparr>next_fire := 10000000\<rparr>], [])"
proof -
  have "reconcile64 [(task_of (hd (ts_timers demo_sched)), 5500000)] (ts_timers (sched demo_done)) =
      Some (reconcile [(task_of (hd (ts_timers demo_sched)), 5500000)] (ts_timers (sched demo_done)))"
    using timer_clock_exact [OF demo_done_within, of 0 None FIXED_RATE "[(task_of (hd (ts_timers demo_sched)), 5500000)]"]
    by (simp add: ns_of_ms_def demo_done_def demo_call_def demo_sys_def)
  then show ?thesis
    by (simp add: demo_done_def demo_call_def demo_running_def demo_sched_def reconcile_def task_of_def rearm_def
        ns_of_ms_def Let_def)
qed

text \<open>Nothing enforces such a bound: a running scheduler accepts every positive delay, and its
  deadline overflows exactly when it lies beyond the 64-bit clock.\<close>

theorem timer_delay_overflow_exact:
  assumes "0 \<le> now" "0 < delay" "ts_running x" "length (ts_timers x) < kMaxTimers"
  shows "ScheduleOneShot64 now delay (Some cb) x = None \<longleftrightarrow> 2 ^ 63 \<le> now + ns_of_ms delay"
    and "SchedulePeriodic64 now delay mode (Some cb) x = None \<longleftrightarrow> 2 ^ 63 \<le> now + ns_of_ms delay"
  using assms clock_add_eq [of now delay]
  by (auto simp: ScheduleOneShot64_def SchedulePeriodic64_def Let_def split: option.splits)

end
