(* ===== verification/Config_Store.thy ===== *)
theory Config_Store
  imports Logger "HOL-Library.Char_ord" "HOL-Library.List_Lexorder"
begin

text \<open>
  \<open>services/config\<close>: the INI parser and the typed readers. \<open>entries_\<close> (a \<open>std::map\<close>) is the list of
  its pairs in key order; \<open>std::string\<close> is \<open>string\<close>, whose characters are bytes. The
  file is its contents, or \<open>None\<close> when it cannot be opened, and the logger is threaded through
  every operation that logs. An out parameter that is not assigned keeps its value.
\<close>

section \<open>Strings\<close>

definition is_ws :: "char \<Rightarrow> bool" where
  "is_ws c \<longleftrightarrow> c \<in> {CHR '' '', CHR 0x09, CHR 0x0D, CHR 0x0A}"

text \<open>\<open>std::string\<close>: \<open>find_first_not_of\<close>, \<open>find_last_not_of\<close> (\<open>None\<close> is \<open>npos\<close>), \<open>find\<close>, \<open>substr\<close>.\<close>

fun find_index :: "('a \<Rightarrow> bool) \<Rightarrow> 'a list \<Rightarrow> nat option" where
  "find_index P [] = None"
| "find_index P (x # xs) = (if P x then Some 0 else map_option Suc (find_index P xs))"

definition find_first_not_of :: "string \<Rightarrow> nat option" where
  "find_first_not_of s = find_index (\<lambda>c. \<not> is_ws c) s"

definition find_last_not_of :: "string \<Rightarrow> nat option" where
  "find_last_not_of s = map_option (\<lambda>i. length s - 1 - i) (find_index (\<lambda>c. \<not> is_ws c) (rev s))"

definition substr :: "nat \<Rightarrow> nat \<Rightarrow> string \<Rightarrow> string" where
  "substr pos n s = take n (drop pos s)"

definition Trim :: "string \<Rightarrow> string" where
  "Trim s =
     (case find_first_not_of s of
        None \<Rightarrow> ''''
      | Some start \<Rightarrow>
          case find_last_not_of s of
            None \<Rightarrow> ''''
          | Some stop \<Rightarrow> substr start (stop - start + 1) s)"

definition tolower_char :: "char \<Rightarrow> char" where
  "tolower_char c =
     (if CHR ''A'' \<le> c \<and> c \<le> CHR ''Z'' then char_of (of_char c + 32 :: nat) else c)"

definition ToLower :: "string \<Rightarrow> string" where
  "ToLower s = map tolower_char s"

section \<open>Data\<close>

datatype ConfigError = Config_SUCCESS | Config_INVALID_ARGUMENT | FILE_NOT_FOUND

record ConfigEntry =
  entry_value :: string
  entry_line :: nat

record Config =
  entries :: "(string \<times> ConfigEntry) list"

definition Config_new :: Config where
  "Config_new = \<lparr>entries = []\<rparr>"

text \<open>\<open>entries_[key] = entry\<close> in an ordered map.\<close>

fun map_assign :: "'k::linorder \<Rightarrow> 'v \<Rightarrow> ('k \<times> 'v) list \<Rightarrow> ('k \<times> 'v) list" where
  "map_assign k v [] = [(k, v)]"
| "map_assign k v ((k', v') # es) =
     (if k < k' then (k, v) # (k', v') # es
      else if k = k' then (k, v) # es
      else (k', v') # map_assign k v es)"

section \<open>Load\<close>

text \<open>\<open>std::getline\<close> until it fails: a last line without a newline counts, an empty one does not.\<close>

fun read_lines :: "string \<Rightarrow> string \<Rightarrow> string list" where
  "read_lines cur [] = (if cur = [] then [] else [rev cur])"
| "read_lines cur (c # cs) =
     (if c = CHR 0x0A then rev cur # read_lines [] cs else read_lines (c # cur) cs)"

record LoadState =
  current_section :: string
  load_entries :: "(string \<times> ConfigEntry) list"
  load_logger :: Logger

definition warn :: "LogEnv \<Rightarrow> string \<Rightarrow> LoadState \<Rightarrow> LoadState" where
  "warn env message st = st\<lparr>load_logger := snd (Logger_Warn env message (load_logger st))\<rparr>"

definition quoted :: "string \<Rightarrow> string" where
  "quoted s = [CHR 0x27] @ s @ [CHR 0x27]"

text \<open>One iteration of the loop, for line number \<open>n\<close>.\<close>

definition load_line :: "LogEnv \<Rightarrow> nat \<Rightarrow> string \<Rightarrow> LoadState \<Rightarrow> LoadState" where
  "load_line env n line st =
     (let trimmed = Trim line in
      if trimmed = [] then st
      else if hd trimmed = CHR ''#'' \<or> hd trimmed = CHR '';'' then st
      else if hd trimmed = CHR ''['' then
        if last trimmed \<noteq> CHR '']'' then
          warn env (''[Config] malformed section header at line '' @ show_nat n @ '': '' @ quoted trimmed) st
        else
          let name = Trim (substr 1 (length trimmed - 2) trimmed) in
          if name = [] then warn env (''[Config] empty section name at line '' @ show_nat n) st
          else if CHR ''['' \<in> set name \<or> CHR '']'' \<in> set name then
            warn env (''[Config] invalid character in section name at line '' @ show_nat n @ '': '' @
              quoted name) st
          else st\<lparr>current_section := name\<rparr>
      else
        case find_index (\<lambda>c. c = CHR ''='') trimmed of
          None \<Rightarrow>
            warn env (''[Config] malformed line at line '' @ show_nat n @ '': '' @ quoted trimmed) st
        | Some eq \<Rightarrow>
            let key = Trim (substr 0 eq trimmed);
                val = Trim (drop (eq + 1) trimmed) in
            if key = [] then warn env (''[Config] empty key at line '' @ show_nat n) st
            else
              let full_key = (if current_section st = [] then key else current_section st @ ''.'' @ key);
                  st1 =
                    (case map_of (load_entries st) full_key of
                       None \<Rightarrow> st
                     | Some existing \<Rightarrow>
                         warn env (''[Config] duplicate key '' @ quoted full_key @
                           '' at line '' @ show_nat n @ '' (overrides value from line '' @
                           show_nat (entry_line existing) @ '')'') st)
              in st1\<lparr>load_entries :=
                   map_assign full_key \<lparr>entry_value = val, entry_line = n\<rparr> (load_entries st1)\<rparr>)"

text \<open>The loop; \<open>env n\<close> is what the platform supplies to the log call of line \<open>n\<close>.\<close>

fun load_loop :: "(nat \<Rightarrow> LogEnv) \<Rightarrow> nat \<Rightarrow> string list \<Rightarrow> LoadState \<Rightarrow> LoadState" where
  "load_loop env line_number [] st = st"
| "load_loop env line_number (l # ls) st =
     load_loop env (line_number + 1) ls (load_line (env (line_number + 1)) (line_number + 1) l st)"

definition Config_Load ::
  "(nat \<Rightarrow> LogEnv) \<Rightarrow> (string \<Rightarrow> string option) \<Rightarrow> string \<Rightarrow> Config \<Rightarrow> Logger \<Rightarrow>
   ConfigError \<times> Config \<times> Logger" where
  "Config_Load env files path cfg logger =
     (if path = [] then (Config_INVALID_ARGUMENT, cfg, logger)
      else
        case files path of
          None \<Rightarrow> (FILE_NOT_FOUND, cfg, logger)
        | Some contents \<Rightarrow>
            let st = load_loop env 0 (read_lines [] contents)
                       \<lparr>current_section = [], load_entries = [], load_logger = logger\<rparr>
            in (Config_SUCCESS, cfg\<lparr>entries := load_entries st\<rparr>, load_logger st))"

definition Config_Clear :: "Config \<Rightarrow> Config" where
  "Config_Clear cfg = cfg\<lparr>entries := []\<rparr>"

section \<open>Introspection and parsers\<close>

definition Config_Size :: "Config \<Rightarrow> nat" where
  "Config_Size cfg = length (entries cfg)"

definition Config_Has :: "string \<Rightarrow> Config \<Rightarrow> bool" where
  "Config_Has key cfg \<longleftrightarrow> map_of (entries cfg) key \<noteq> None"

definition Config_Keys :: "Config \<Rightarrow> string list" where
  "Config_Keys cfg = map fst (entries cfg)"

definition Config_Find :: "string \<Rightarrow> Config \<Rightarrow> ConfigEntry option" where
  "Config_Find key cfg = map_of (entries cfg) key"

text \<open>\<open>std::from_chars\<close> for a 32-bit \<open>int\<close>: the value and the unread rest, or an error code.\<close>

datatype FromChars = Chars_value int string | Chars_invalid | Chars_out_of_range

definition is_digit :: "char \<Rightarrow> bool" where
  "is_digit c \<longleftrightarrow> CHR ''0'' \<le> c \<and> c \<le> CHR ''9''"

definition digits_value :: "string \<Rightarrow> nat" where
  "digits_value ds = foldl (\<lambda>acc c. 10 * acc + (of_char c - 48)) 0 ds"

definition int_range :: "int \<Rightarrow> bool" where
  "int_range z \<longleftrightarrow> - (2 ^ 31) \<le> z \<and> z \<le> 2 ^ 31 - 1"

definition from_chars :: "string \<Rightarrow> FromChars" where
  "from_chars s =
     (let neg = (s \<noteq> [] \<and> hd s = CHR ''-'');
          body = (if neg then tl s else s);
          ds = takeWhile is_digit body;
          v = (if neg then - int (digits_value ds) else int (digits_value ds))
      in if ds = [] then Chars_invalid
         else if \<not> int_range v then Chars_out_of_range
         else Chars_value v (dropWhile is_digit body))"

text \<open>The parsers: \<open>None\<close> is \<open>false\<close> with the out parameter untouched.\<close>

definition ParseInt :: "string \<Rightarrow> int option" where
  "ParseInt raw =
     (if raw = [] then None
      else
        case from_chars raw of
          Chars_value v rest \<Rightarrow> (if rest \<noteq> [] then None else Some v)
        | _ \<Rightarrow> None)"

definition ParseBool :: "string \<Rightarrow> bool option" where
  "ParseBool raw =
     (let lower = ToLower raw in
      if lower = ''true'' \<or> lower = ''yes'' \<or> lower = ''1'' \<or> lower = ''on'' then Some True
      else if lower = ''false'' \<or> lower = ''no'' \<or> lower = ''0'' \<or> lower = ''off'' then Some False
      else None)"

definition ParseDurationMs :: "string \<Rightarrow> msec option" where
  "ParseDurationMs raw =
     (case ParseInt raw of
        None \<Rightarrow> None
      | Some v \<Rightarrow> if v < 0 then None else Some v)"

section \<open>Readers\<close>

definition Config_GetString ::
  "LogEnv \<Rightarrow> string \<Rightarrow> string \<Rightarrow> Config \<Rightarrow> Logger \<Rightarrow> string \<times> Logger" where
  "Config_GetString env key default_value cfg lg =
     (case Config_Find key cfg of
        None \<Rightarrow>
          (default_value,
           snd (Logger_Debug env (''[Config] missing key '' @ quoted key @ '', using default'') lg))
      | Some entry \<Rightarrow> (entry_value entry, lg))"

definition Config_GetInt :: "LogEnv \<Rightarrow> string \<Rightarrow> int \<Rightarrow> Config \<Rightarrow> Logger \<Rightarrow> int \<times> Logger" where
  "Config_GetInt env key default_value cfg lg =
     (case Config_Find key cfg of
        None \<Rightarrow>
          (default_value,
           snd (Logger_Debug env (''[Config] missing key '' @ quoted key @ '', using default'') lg))
      | Some entry \<Rightarrow>
          case ParseInt (entry_value entry) of
            None \<Rightarrow>
              (default_value,
               snd (Logger_Warn env (''[Config] invalid int for '' @ quoted key @ '' at line '' @
                 show_nat (entry_line entry) @ '': '' @ quoted (entry_value entry)) lg))
          | Some parsed \<Rightarrow> (parsed, lg))"

definition Config_GetBool :: "LogEnv \<Rightarrow> string \<Rightarrow> bool \<Rightarrow> Config \<Rightarrow> Logger \<Rightarrow> bool \<times> Logger" where
  "Config_GetBool env key default_value cfg lg =
     (case Config_Find key cfg of
        None \<Rightarrow>
          (default_value,
           snd (Logger_Debug env (''[Config] missing key '' @ quoted key @ '', using default'') lg))
      | Some entry \<Rightarrow>
          case ParseBool (entry_value entry) of
            None \<Rightarrow>
              (default_value,
               snd (Logger_Warn env (''[Config] invalid bool for '' @ quoted key @ '' at line '' @
                 show_nat (entry_line entry) @ '': '' @ quoted (entry_value entry)) lg))
          | Some parsed \<Rightarrow> (parsed, lg))"

definition Config_GetDurationMs ::
  "LogEnv \<Rightarrow> string \<Rightarrow> msec \<Rightarrow> Config \<Rightarrow> Logger \<Rightarrow> msec \<times> Logger" where
  "Config_GetDurationMs env key default_value cfg lg =
     (case Config_Find key cfg of
        None \<Rightarrow>
          (default_value,
           snd (Logger_Debug env (''[Config] missing key '' @ quoted key @ '', using default'') lg))
      | Some entry \<Rightarrow>
          case ParseDurationMs (entry_value entry) of
            None \<Rightarrow>
              (default_value,
               snd (Logger_Warn env (''[Config] invalid duration for '' @ quoted key @ '' at line '' @
                 show_nat (entry_line entry) @ '': '' @ quoted (entry_value entry)) lg))
          | Some parsed \<Rightarrow> (parsed, lg))"

definition Config_RequireString ::
  "LogEnv \<Rightarrow> string \<Rightarrow> string \<Rightarrow> Config \<Rightarrow> Logger \<Rightarrow> bool \<times> string \<times> Logger" where
  "Config_RequireString env key out cfg lg =
     (case Config_Find key cfg of
        None \<Rightarrow>
          (False, out, snd (Logger_Error env (''[Config] required key '' @ quoted key @ '' is missing'') lg))
      | Some entry \<Rightarrow> (True, entry_value entry, lg))"

definition Config_RequireInt ::
  "LogEnv \<Rightarrow> string \<Rightarrow> int \<Rightarrow> Config \<Rightarrow> Logger \<Rightarrow> bool \<times> int \<times> Logger" where
  "Config_RequireInt env key out cfg lg =
     (case Config_Find key cfg of
        None \<Rightarrow>
          (False, out, snd (Logger_Error env (''[Config] required key '' @ quoted key @ '' is missing'') lg))
      | Some entry \<Rightarrow>
          case ParseInt (entry_value entry) of
            None \<Rightarrow>
              (False, out,
               snd (Logger_Error env (''[Config] required key '' @ quoted key @ '' has invalid int at line '' @
                 show_nat (entry_line entry) @ '': '' @ quoted (entry_value entry)) lg))
          | Some parsed \<Rightarrow> (True, parsed, lg))"

definition Config_RequireBool ::
  "LogEnv \<Rightarrow> string \<Rightarrow> bool \<Rightarrow> Config \<Rightarrow> Logger \<Rightarrow> bool \<times> bool \<times> Logger" where
  "Config_RequireBool env key out cfg lg =
     (case Config_Find key cfg of
        None \<Rightarrow>
          (False, out, snd (Logger_Error env (''[Config] required key '' @ quoted key @ '' is missing'') lg))
      | Some entry \<Rightarrow>
          case ParseBool (entry_value entry) of
            None \<Rightarrow>
              (False, out,
               snd (Logger_Error env (''[Config] required key '' @ quoted key @ '' has invalid bool at line '' @
                 show_nat (entry_line entry) @ '': '' @ quoted (entry_value entry)) lg))
          | Some parsed \<Rightarrow> (True, parsed, lg))"

definition Config_RequireDurationMs ::
  "LogEnv \<Rightarrow> string \<Rightarrow> msec \<Rightarrow> Config \<Rightarrow> Logger \<Rightarrow> bool \<times> msec \<times> Logger" where
  "Config_RequireDurationMs env key out cfg lg =
     (case Config_Find key cfg of
        None \<Rightarrow>
          (False, out, snd (Logger_Error env (''[Config] required key '' @ quoted key @ '' is missing'') lg))
      | Some entry \<Rightarrow>
          case ParseDurationMs (entry_value entry) of
            None \<Rightarrow>
              (False, out,
               snd (Logger_Error env (''[Config] required key '' @ quoted key @ '' has invalid duration at line '' @
                 show_nat (entry_line entry) @ '': '' @ quoted (entry_value entry)) lg))
          | Some parsed \<Rightarrow> (True, parsed, lg))"

section \<open>Facts about the string helpers\<close>

lemma find_index_eq:
  "find_index P xs = (if \<exists>x \<in> set xs. P x then Some (length (takeWhile (\<lambda>x. \<not> P x) xs)) else None)"
  by (induction xs) auto

lemma find_index_append:
  "\<forall>x \<in> set xs. \<not> P x \<Longrightarrow> P y \<Longrightarrow> find_index P (xs @ y # ys) = Some (length xs)"
  by (induction xs) auto

lemma Trim_dropWhile: "Trim s = rev (dropWhile is_ws (rev (dropWhile is_ws s)))"
proof (cases "\<exists>c \<in> set s. \<not> is_ws c")
  case True
  define a b where "a = length (takeWhile is_ws s)" and "b = length (takeWhile is_ws (rev s))"
  have d: "dropWhile is_ws s = drop a s" by (simp add: a_def dropWhile_eq_drop)
  have s: "s = takeWhile is_ws s @ drop a s" using d by (metis takeWhile_dropWhile_id)
  have "drop a s \<noteq> []" using True d by (metis dropWhile_eq_Nil_conv)
  moreover have "\<not> is_ws (hd (drop a s))" using hd_dropWhile [of is_ws s] d calculation by simp
  ultimately have "\<exists>c \<in> set (rev (drop a s)). \<not> is_ws c" by (metis hd_in_set set_rev)
  then have "takeWhile is_ws (rev (drop a s) @ rev (takeWhile is_ws s)) = takeWhile is_ws (rev (drop a s))"
    by (metis takeWhile_append1)
  then have b: "b = length (takeWhile is_ws (rev (drop a s)))" unfolding b_def by (metis s rev_append)
  have "b \<le> length s - a" unfolding b by (metis length_drop length_rev length_takeWhile_le)
  moreover have "b \<noteq> length s - a"
    unfolding b using \<open>\<exists>c \<in> set (rev (drop a s)). \<not> is_ws c\<close>
    by (metis length_drop length_rev takeWhile_eq_all_conv takeWhile_eq_take take_all_iff order_refl)
  ultimately have lt: "b < length s - a" by simp
  have "Trim s = take (length s - a - b) (drop a s)"
    using True lt
    by (auto simp: Trim_def find_first_not_of_def find_last_not_of_def find_index_eq substr_def a_def b_def
        algebra_simps Suc_diff_Suc)
  also have "\<dots> = rev (drop b (rev (drop a s)))" 
    using rev_drop [of b "rev (drop a s)"] by (simp only: rev_rev_ident length_rev length_drop)
  also have "\<dots> = rev (dropWhile is_ws (rev (drop a s)))" by (simp add: b dropWhile_eq_drop)
  finally show ?thesis by (simp add: d)
next
  case False
  then have e: "dropWhile is_ws s = []" by (simp add: dropWhile_eq_Nil_conv)
  from False show ?thesis by (simp add: Trim_def find_first_not_of_def find_index_eq e)
qed

text \<open>A string with no white space at either end.\<close>

definition trimmed_str :: "string \<Rightarrow> bool" where
  "trimmed_str s \<longleftrightarrow> s = [] \<or> \<not> is_ws (hd s) \<and> \<not> is_ws (last s)"

lemma Trim_id: "trimmed_str s \<Longrightarrow> Trim s = s"
proof (cases "s = []")
  case False
  assume "trimmed_str s"
  with False have e: "\<not> is_ws (hd s)" "\<not> is_ws (hd (rev s))" by (simp_all add: trimmed_str_def hd_rev)
  have "dropWhile is_ws s = s" using e(1) False by (cases s) auto
  moreover have "dropWhile is_ws (rev s) = rev s" using e(2) False by (cases "rev s") auto
  ultimately show ?thesis by (simp add: Trim_dropWhile)
qed (simp add: Trim_dropWhile)

lemma Trim_trimmed: "trimmed_str (Trim s)"
proof -
  define t where "t = dropWhile is_ws s"
  have "rev (dropWhile is_ws (rev t)) = [] \<or> \<not> is_ws (last (rev (dropWhile is_ws (rev t))))"
    by (metis hd_dropWhile last_rev rev_is_Nil_conv)
  moreover have "hd (rev (dropWhile is_ws (rev t))) = hd t" if "rev (dropWhile is_ws (rev t)) \<noteq> []"
    using that by (metis hd_append2 rev_append rev_rev_ident takeWhile_dropWhile_id)
  moreover have "t = [] \<or> \<not> is_ws (hd t)" unfolding t_def by (metis hd_dropWhile)
  moreover have "t = [] \<Longrightarrow> rev (dropWhile is_ws (rev t)) = []" by simp
  ultimately show ?thesis unfolding Trim_dropWhile trimmed_str_def t_def [symmetric] by metis
qed

lemma Trim_space_right: "is_ws c \<Longrightarrow> Trim (s @ [c]) = Trim s"
  by (cases "\<forall>x \<in> set s. is_ws x") (auto simp: Trim_dropWhile dropWhile_append dropWhile_eq_Nil_conv [THEN iffD2])

lemma Trim_space_left: "is_ws c \<Longrightarrow> Trim (c # s) = Trim s"
  by (simp add: Trim_dropWhile)

lemma map_assign_lookup: "map_of (map_assign k v es) = (map_of es)(k \<mapsto> v)"
  by (induction es) (auto simp: fun_eq_iff)

lemma map_assign_keys: "fst ` set (map_assign k v es) = insert k (fst ` set es)"
  by (induction k v es rule: map_assign.induct) (simp_all add: insert_commute)

lemma map_assign_sorted:
  "sorted_wrt (<) (map fst es) \<Longrightarrow> sorted_wrt (<) (map fst (map_assign k v es))"
proof (induction es)
  case (Cons p es)
  have "\<forall>k' \<in> fst ` set (map_assign k v es). fst p < k'" if "fst p < k"
    unfolding map_assign_keys using Cons.prems that by auto
  with Cons show ?case by (cases p) (auto dest: order.strict_trans)
qed simp

lemma map_assign_length:
  assumes "sorted_wrt (<) (map fst es)"
  shows "length (map_assign k v es) = length es + (if map_of es k = None then 1 else 0)"
  using assms
proof (induction es)
  case (Cons p es)
  then show ?case by (cases p) (auto simp: map_of_eq_None_iff dest: order.strict_trans)
qed simp

section \<open>Numerals\<close>

lemma of_char_digit [simp]: "d < 10 \<Longrightarrow> of_char (digit_char d) = 48 + d"
  by (simp add: digit_char_def)

lemma is_digit_digit_char [simp]: "d < 10 \<Longrightarrow> is_digit (digit_char d)"
  by (simp add: is_digit_def less_eq_char_def)

lemma digits_value_snoc: "digits_value (ds @ [c]) = 10 * digits_value ds + (of_char c - 48)"
  by (simp add: digits_value_def)

lemma show_nat_digits: "\<forall>c \<in> set (show_nat n). is_digit c"
  by (induction n rule: show_nat.induct) (subst show_nat.simps, auto)

lemma digits_value_show_nat [simp]: "digits_value (show_nat n) = n"
proof (induction n rule: show_nat.induct)
  case (1 n)
  show ?case
  proof (cases "n < 10")
    case True
    then show ?thesis by (simp add: show_nat.simps [of n] digits_value_def)
  next
    case False
    with 1 show ?thesis by (simp add: show_nat.simps [of n] digits_value_snoc)
  qed
qed

lemma minus_not_digit: "\<not> is_digit (CHR ''-'')"
  by (simp add: is_digit_def less_eq_char_def)

lemma ParseInt_iff:
  "ParseInt raw = Some z \<longleftrightarrow>
    (\<exists>neg ds. raw = (if neg then ''-'' else []) @ ds \<and> ds \<noteq> [] \<and> (\<forall>c \<in> set ds. is_digit c) \<and>
       z = (if neg then - int (digits_value ds) else int (digits_value ds)) \<and> int_range z)"
  (is "_ \<longleftrightarrow> ?R")
proof
  assume p: "ParseInt raw = Some z"
  define neg where "neg = (raw \<noteq> [] \<and> hd raw = CHR ''-'')"
  define body where "body = (if neg then tl raw else raw)"
  have b: "body \<noteq> []" "takeWhile is_digit body = body" "int_range z"
    "z = (if neg then - int (digits_value body) else int (digits_value body))"
    using p
    by (auto simp: ParseInt_def from_chars_def Let_def neg_def body_def dropWhile_eq_Nil_conv
        takeWhile_eq_all_conv [THEN iffD2] split: if_splits FromChars.splits)
  moreover have "raw = (if neg then ''-'' else []) @ body"
    by (cases raw) (auto simp: neg_def body_def)
  ultimately show ?R by (metis takeWhile_eq_all_conv)
next
  assume ?R
  then obtain neg ds where r: "raw = (if neg then ''-'' else []) @ ds" "ds \<noteq> []" "\<forall>c \<in> set ds. is_digit c"
    "z = (if neg then - int (digits_value ds) else int (digits_value ds))" "int_range z" by blast
  then have "hd ds \<noteq> CHR ''-''" using minus_not_digit by (metis hd_in_set)
  moreover have tw: "takeWhile is_digit ds = ds" "dropWhile is_digit ds = []"
    using r(3) by (simp_all only: takeWhile_eq_all_conv dropWhile_eq_Nil_conv)
  ultimately show "ParseInt raw = Some z"
    using r(1,2,4,5) unfolding ParseInt_def from_chars_def Let_def by (cases neg) (simp_all add: tw)
qed

section \<open>What a file means\<close>

text \<open>The grammar of one line, and the assignments a file makes, in file order.\<close>

datatype IniLine = Ini_blank | Ini_section string | Ini_assign string string | Ini_bad

definition classify :: "string \<Rightarrow> IniLine" where
  "classify line =
     (let s = Trim line in
      if s = [] \<or> hd s \<in> {CHR ''#'', CHR '';''} then Ini_blank
      else if hd s = CHR ''['' then
        let name = Trim (butlast (tl s)) in
        if last s = CHR '']'' \<and> name \<noteq> [] \<and> set name \<inter> {CHR ''['', CHR '']''} = {} then Ini_section name
        else Ini_bad
      else
        let key = Trim (takeWhile (\<lambda>c. c \<noteq> CHR ''='') s) in
        if CHR ''='' \<in> set s \<and> key \<noteq> [] then Ini_assign key (Trim (tl (dropWhile (\<lambda>c. c \<noteq> CHR ''='') s)))
        else Ini_bad)"

definition qualify :: "string \<Rightarrow> string \<Rightarrow> string" where
  "qualify sec key = (if sec = [] then key else sec @ ''.'' @ key)"

fun assignments :: "string \<Rightarrow> nat \<Rightarrow> string list \<Rightarrow> (string \<times> ConfigEntry) list" where
  "assignments sec n [] = []"
| "assignments sec n (l # ls) =
     (case classify l of
        Ini_section name \<Rightarrow> assignments name (n + 1) ls
      | Ini_assign key v \<Rightarrow>
          (qualify sec key, \<lparr>entry_value = v, entry_line = n + 1\<rparr>) # assignments sec (n + 1) ls
      | _ \<Rightarrow> assignments sec (n + 1) ls)"

definition bad_lines :: "string list \<Rightarrow> nat" where
  "bad_lines ls = length (filter (\<lambda>l. classify l = Ini_bad) ls)"

definition line_effect :: "LogEnv \<Rightarrow> nat \<Rightarrow> string \<Rightarrow> string \<Rightarrow> LoadState \<Rightarrow> LoadState" where
  "line_effect env n msg line st =
     (case classify line of
        Ini_blank \<Rightarrow> st
      | Ini_section name \<Rightarrow> st\<lparr>current_section := name\<rparr>
      | Ini_bad \<Rightarrow> warn env msg st
      | Ini_assign key v \<Rightarrow>
          let k = qualify (current_section st) key;
              st1 = (if map_of (load_entries st) k = None then st else warn env msg st)
          in st1\<lparr>load_entries := map_assign k \<lparr>entry_value = v, entry_line = n\<rparr> (load_entries st1)\<rparr>)"

lemma substr_inner: "substr 1 (length s - 2) s = butlast (tl s)"
  by (cases s) (simp_all add: substr_def butlast_conv_take)

lemma find_eq_split:
  assumes "find_index (\<lambda>c. c = x) s = Some i"
  shows "x \<in> set s \<and> substr 0 i s = takeWhile (\<lambda>c. c \<noteq> x) s \<and> drop (i + 1) s = tl (dropWhile (\<lambda>c. c \<noteq> x) s)"
proof -
  have i: "x \<in> set s" "i = length (takeWhile (\<lambda>c. c \<noteq> x) s)"
    using assms by (auto simp: find_index_eq split: if_splits)
  have "takeWhile (\<lambda>c. c \<noteq> x) s = take i s" unfolding i(2) by (rule takeWhile_eq_take)
  moreover have "dropWhile (\<lambda>c. c \<noteq> x) s = drop i s" unfolding i(2) by (rule dropWhile_eq_drop)
  ultimately show ?thesis using i(1) by (simp add: substr_def drop_Suc tl_drop)
qed

text \<open>One line, by the kind of its first character.\<close>

lemma load_header_effect:
  assumes header: "Trim line \<noteq> []" "hd (Trim line) = CHR ''[''"
  shows "\<exists>msg. load_line env n line st = line_effect env n msg line st"
proof -
  define s where "s = Trim line"
  note header = header [folded s_def]
  define name where "name = Trim (butlast (tl s))"
  have c: "classify line = (if last s = CHR '']'' \<and> name \<noteq> [] \<and> \<not> (CHR ''['' \<in> set name \<or> CHR '']'' \<in> set name)
      then Ini_section name else Ini_bad)"
    using header by (auto simp: classify_def s_def [symmetric] name_def Let_def)
  have l: "\<exists>m1 m2 m3. load_line env n line st =
      (if last s \<noteq> CHR '']'' then warn env m1 st else if name = [] then warn env m2 st
       else if CHR ''['' \<in> set name \<or> CHR '']'' \<in> set name then warn env m3 st
       else st\<lparr>current_section := name\<rparr>)"
    unfolding load_line_def s_def [symmetric] Let_def substr_inner name_def [symmetric]
    using header by (simp only: if_True if_False char.inject simp_thms) auto
  then show ?thesis unfolding line_effect_def c by (auto split: if_splits)
qed

lemma load_assign_effect:
  assumes assign: "Trim line \<noteq> []" "hd (Trim line) \<noteq> CHR ''#''" "hd (Trim line) \<noteq> CHR '';''" "hd (Trim line) \<noteq> CHR ''[''"
  shows "\<exists>msg. load_line env n line st = line_effect env n msg line st"
proof -
  define s where "s = Trim line"
  note assign = assign [folded s_def]
  let ?k = "Trim (takeWhile (\<lambda>c. c \<noteq> CHR ''='') s)" and ?v = "Trim (tl (dropWhile (\<lambda>c. c \<noteq> CHR ''='') s))"
  show ?thesis
  proof (cases "find_index (\<lambda>c. c = CHR ''='') s")
    case None
    then have "CHR ''='' \<notin> set s" by (auto simp: find_index_eq split: if_splits)
    then have "classify line = Ini_bad" using assign by (auto simp: classify_def s_def [symmetric] Let_def)
    moreover have "\<exists>m. load_line env n line st = warn env m st"
      unfolding load_line_def s_def [symmetric] Let_def using assign None by (auto simp: None)
    ultimately show ?thesis by (simp add: line_effect_def)
  next
    case (Some i)
    note sp = conjunct1 [OF find_eq_split [OF Some]] conjunct2 [OF find_eq_split [OF Some]]
    have c: "classify line = (if ?k \<noteq> [] then Ini_assign ?k ?v else Ini_bad)"
      using assign sp by (auto simp: classify_def s_def [symmetric] Let_def)
    show ?thesis
    proof (cases "?k = []")
      case True
      then have "\<exists>m. load_line env n line st = warn env m st"
        unfolding load_line_def s_def [symmetric] Let_def using assign Some sp by auto
      then show ?thesis by (simp add: line_effect_def c True)
    next
      case False
      have "load_line env n line st = (let k = qualify (current_section st) ?k;
          st1 = (case map_of (load_entries st) k of None \<Rightarrow> st
            | Some existing \<Rightarrow> warn env (''[Config] duplicate key '' @ quoted k @ '' at line '' @ show_nat n @
                '' (overrides value from line '' @ show_nat (entry_line existing) @ '')'') st)
        in st1\<lparr>load_entries := map_assign k \<lparr>entry_value = ?v, entry_line = n\<rparr> (load_entries st1)\<rparr>)"
        unfolding load_line_def s_def [symmetric] Let_def qualify_def Some option.case conjunct1 [OF sp(2)] conjunct2 [OF sp(2)]
        using assign False by simp
      then show ?thesis
        by (simp add: line_effect_def c False Let_def del: append.simps split: option.splits) blast
    qed
  qed
qed

lemma load_line_effect: "\<exists>msg. load_line env n line st = line_effect env n msg line st"
proof (cases "Trim line = [] \<or> hd (Trim line) = CHR ''#'' \<or> hd (Trim line) = CHR '';''")
  case True
  then have "classify line = Ini_blank" "load_line env n line st = st"
    by (auto simp: classify_def load_line_def Let_def)
  then show ?thesis by (simp add: line_effect_def)
next
  case False
  then show ?thesis using load_header_effect load_assign_effect by metis
qed

section \<open>The loop against the meaning\<close>

definition assign_all :: "(string \<times> ConfigEntry) list \<Rightarrow> (string \<times> ConfigEntry) list \<Rightarrow> (string \<times> ConfigEntry) list" where
  "assign_all as es = fold (\<lambda>(k, e). map_assign k e) as es"

lemma assign_all_simps [simp]:
  "assign_all [] es = es" "assign_all ((k, e) # as) es = assign_all as (map_assign k e es)"
  by (simp_all add: assign_all_def)

lemma assign_all_lookup: "map_of (assign_all as es) k = (map_of es ++ map_of (rev as)) k"
proof (induction as arbitrary: es)
  case (Cons a as)
  then show ?case by (cases a) (simp add: map_assign_lookup map_add_def fun_upd_apply split: option.splits)
qed simp

lemma assign_all_sorted: "sorted_wrt (<) (map fst es) \<Longrightarrow> sorted_wrt (<) (map fst (assign_all as es))"
  by (induction as arbitrary: es) (auto simp: map_assign_sorted)

lemma assign_all_keys: "fst ` set (assign_all as es) = fst ` set es \<union> fst ` set as"
proof (induction as arbitrary: es)
  case (Cons a as)
  then show ?case by (cases a) (simp add: map_assign_keys)
qed simp

lemma warn_frame [simp]:
  "load_entries (warn env m st) = load_entries st" "current_section (warn env m st) = current_section st"
  "initialized (load_logger (warn env m st)) = initialized (load_logger st)"
  "log_config (load_logger (warn env m st)) = log_config (load_logger st)"
  by (simp_all add: warn_def Logger_Warn_def)

definition warns :: "Logger \<Rightarrow> bool" where
  "warns lg \<longleftrightarrow> initialized lg \<and> min_level (log_config lg) \<le> WARN"

lemma warn_count:
  "warns (load_logger st) \<Longrightarrow>
    length (console (load_logger (warn env m st))) = length (console (load_logger st)) + 1"
  by (simp add: warns_def warn_def Logger_Warn_def Logger_Log_def less_eq_LogLevel_def)

lemma warns_warn [simp]: "warns (load_logger (warn env m st)) = warns (load_logger st)"
  by (simp add: warns_def)

lemma line_effect_spec:
  assumes "sorted_wrt (<) (map fst (load_entries st))" and st': "st' = line_effect env (n + 1) msg l st"
  shows "assignments (current_section st) n (l # ls) =
      assignments (current_section st) n [l] @ assignments (current_section st') (n + 1) ls"
    and "load_entries st' = assign_all (assignments (current_section st) n [l]) (load_entries st)"
    and "warns (load_logger st) \<Longrightarrow> warns (load_logger st') \<and>
      length (console (load_logger st')) + length (load_entries st') =
      length (console (load_logger st)) + length (load_entries st) + bad_lines [l] +
        length (assignments (current_section st) n [l])"
  using assms(1) unfolding st' line_effect_def bad_lines_def
  by (auto simp: Let_def warn_count map_assign_length split: IniLine.splits)

lemma load_loop_spec:
  assumes "sorted_wrt (<) (map fst (load_entries st))" and st': "st' = load_loop env n ls st"
  shows "load_entries st' = assign_all (assignments (current_section st) n ls) (load_entries st) \<and>
    (warns (load_logger st) \<longrightarrow>
      length (console (load_logger st')) + length (load_entries st') =
      length (console (load_logger st)) + length (load_entries st) + bad_lines ls +
        length (assignments (current_section st) n ls))"
  using assms(1) unfolding st'
proof (induction ls arbitrary: n st)
  case (Cons l ls)
  obtain msg where m: "load_line (env (n + 1)) (n + 1) l st = line_effect (env (n + 1)) (n + 1) msg l st"
    using load_line_effect by blast
  note spec = line_effect_spec [OF Cons.prems refl, where env = "env (n + 1)" and n = n and msg = msg and l = l]
  have s: "sorted_wrt (<) (map fst (load_entries (line_effect (env (n + 1)) (n + 1) msg l st)))"
    unfolding spec(2) by (rule assign_all_sorted [OF Cons.prems])
  have b: "bad_lines (l # ls) = bad_lines [l] + bad_lines ls" by (simp add: bad_lines_def)
  have as: "assign_all (xs @ ys) es = assign_all ys (assign_all xs es)" for xs ys es
    by (simp add: assign_all_def)
  note IH = Cons.IH [OF s, of "n + 1"]
  show ?case
    unfolding load_loop.simps m b spec(1) [of ls]
  proof (intro conjI impI)
    assume w: "warns (load_logger st)"
    from spec(3) [OF w] conjunct2 [OF IH] show "length (console (load_logger
        (load_loop env (n + 1) ls (line_effect (env (n + 1)) (n + 1) msg l st)))) +
      length (load_entries (load_loop env (n + 1) ls (line_effect (env (n + 1)) (n + 1) msg l st))) =
      length (console (load_logger st)) + length (load_entries st) + (bad_lines [l] + bad_lines ls) +
      length (assignments (current_section st) n [l] @
        assignments (current_section (line_effect (env (n + 1)) (n + 1) msg l st)) (n + 1) ls)"
      unfolding length_append by linarith
  qed (simp only: as IH spec(2))
qed (simp add: bad_lines_def)

lemma load_loop_quiet:
  assumes "bad_lines ls = 0" "distinct (map fst (assignments (current_section st) n ls))"
    "fst ` set (load_entries st) \<inter> fst ` set (assignments (current_section st) n ls) = {}"
  shows "load_logger (load_loop env n ls st) = load_logger st"
  using assms
proof (induction ls arbitrary: n st)
  case (Cons l ls)
  obtain msg where m: "load_line (env (n + 1)) (n + 1) l st = line_effect (env (n + 1)) (n + 1) msg l st"
    using load_line_effect by blast
  let ?st = "line_effect (env (n + 1)) (n + 1) msg l st"
  have b: "bad_lines ls = 0" "classify l \<noteq> Ini_bad" using Cons.prems(1) by (auto simp: bad_lines_def split: if_splits)
  have "distinct (map fst (assignments (current_section ?st) (n + 1) ls)) \<and>
      fst ` set (load_entries ?st) \<inter> fst ` set (assignments (current_section ?st) (n + 1) ls) = {} \<and>
      load_logger ?st = load_logger st"
    using Cons.prems(2,3) b(2)
    by (cases "classify l")
      (auto simp: line_effect_def Let_def map_assign_keys map_of_eq_None_iff)
  with Cons.IH [OF b(1), of ?st "n + 1"] show ?case by (simp add: m [simplified])
qed simp

section \<open>Printing\<close>

text \<open>A configuration file with sections, as an operator would write it.\<close>

type_synonym ini = "(string \<times> (string \<times> string) list) list"

definition render_pair :: "string \<times> string \<Rightarrow> string" where
  "render_pair p = fst p @ '' = '' @ snd p"

definition ini_lines :: "ini \<Rightarrow> string list" where
  "ini_lines ini = concat (map (\<lambda>(name, kvs). (''['' @ name @ '']'') # map render_pair kvs) ini)"

definition render :: "ini \<Rightarrow> string" where
  "render ini = concat (map (\<lambda>l. l @ [CHR 0x0A]) (ini_lines ini))"

definition wf_name :: "string \<Rightarrow> bool" where
  "wf_name s \<longleftrightarrow> s \<noteq> [] \<and> trimmed_str s \<and> set s \<inter> {CHR ''['', CHR '']'', CHR 0x0A} = {}"

definition wf_key :: "string \<Rightarrow> bool" where
  "wf_key s \<longleftrightarrow> s \<noteq> [] \<and> trimmed_str s \<and> set s \<inter> {CHR ''='', CHR 0x0A} = {} \<and>
     hd s \<notin> {CHR ''#'', CHR '';'', CHR ''[''}"

definition wf_value :: "string \<Rightarrow> bool" where
  "wf_value s \<longleftrightarrow> trimmed_str s \<and> CHR 0x0A \<notin> set s"

definition wf_ini :: "ini \<Rightarrow> bool" where
  "wf_ini ini \<longleftrightarrow> (\<forall>(name, kvs) \<in> set ini. wf_name name \<and> (\<forall>(k, v) \<in> set kvs. wf_key k \<and> wf_value v))"

definition flatten :: "ini \<Rightarrow> (string \<times> string) list" where
  "flatten ini = concat (map (\<lambda>(name, kvs). map (\<lambda>(k, v). (qualify name k, v)) kvs) ini)"

lemma read_lines_line:
  "CHR 0x0A \<notin> set l \<Longrightarrow> read_lines cur (l @ CHR 0x0A # rest) = (rev cur @ l) # read_lines [] rest"
  by (induction l arbitrary: cur) auto

lemma read_render:
  "\<forall>l \<in> set ls. CHR 0x0A \<notin> set l \<Longrightarrow> read_lines [] (concat (map (\<lambda>l. l @ [CHR 0x0A]) ls)) = ls"
  by (induction ls) (auto simp: read_lines_line)

lemma classify_header:
  assumes "wf_name name"
  shows "classify (''['' @ name @ '']'') = Ini_section name"
proof -
  have "trimmed_str (''['' @ name @ '']'')" by (simp add: trimmed_str_def is_ws_def)
  then have "Trim (''['' @ name @ '']'') = ''['' @ name @ '']''" by (rule Trim_id)
  then show ?thesis
    using assms Trim_id [of name] by (auto simp: classify_def Let_def wf_name_def butlast_append)
qed

lemma classify_pair:
  assumes "wf_key k" "wf_value v"
  shows "classify (render_pair (k, v)) = Ini_assign k v"
proof -
  let ?s = "k @ '' ='' @ (if v = [] then [] else '' '' @ v)"
  have hd: "hd (k @ xs) = hd k" for xs using assms(1) by (simp add: wf_key_def)
  have "trimmed_str ?s"
    using assms by (auto simp: trimmed_str_def wf_key_def wf_value_def is_ws_def hd)
  moreover have "Trim (render_pair (k, v)) = Trim ?s"
    using Trim_space_right [of "CHR '' ''" "k @ '' =''"] by (simp add: render_pair_def is_ws_def)
  ultimately have s: "Trim (render_pair (k, v)) = ?s" by (simp add: Trim_id)
  have ne: "\<forall>c \<in> set k. c \<noteq> CHR ''=''" using assms(1) by (auto simp: wf_key_def)
  have "takeWhile (\<lambda>c. c \<noteq> CHR ''='') ?s = k @ '' ''"
    using ne by (subst takeWhile_append2) auto
  moreover have "tl (dropWhile (\<lambda>c. c \<noteq> CHR ''='') ?s) = (if v = [] then [] else '' '' @ v)"
    using ne by (subst dropWhile_append2) auto
  moreover have "Trim (k @ '' '') = k"
    using Trim_space_right [of "CHR '' ''" k] Trim_id [of k] assms(1) by (simp add: is_ws_def wf_key_def)
  moreover have "Trim (if v = [] then [] else '' '' @ v) = v"
    using Trim_space_left [of "CHR '' ''" v] Trim_id [of v] assms(2)
    by (auto simp: is_ws_def wf_value_def trimmed_str_def)
  ultimately show ?thesis
    using assms(1) unfolding classify_def s Let_def by (simp add: wf_key_def hd)
qed

lemma assignments_pairs:
  assumes "\<forall>(k, v) \<in> set kvs. wf_key k \<and> wf_value v"
  shows "map (\<lambda>(k, e). (k, entry_value e)) (assignments sec n (map render_pair kvs @ ls)) =
    map (\<lambda>(k, v). (qualify sec k, v)) kvs @
    map (\<lambda>(k, e). (k, entry_value e)) (assignments sec (n + length kvs) ls)"
  using assms by (induction kvs arbitrary: n) (auto simp: classify_pair)

lemma assignments_ini:
  assumes "wf_ini ini"
  shows "map (\<lambda>(k, e). (k, entry_value e)) (assignments sec n (ini_lines ini)) = flatten ini"
  using assms
proof (induction ini arbitrary: sec n)
  case (Cons s ini)
  obtain name kvs where s: "s = (name, kvs)" by (cases s)
  have w: "wf_name name" "\<forall>(k, v) \<in> set kvs. wf_key k \<and> wf_value v" "wf_ini ini"
    using Cons.prems by (auto simp: wf_ini_def s)
  have l: "ini_lines (s # ini) = (''['' @ name @ '']'') # (map render_pair kvs @ ini_lines ini)"
    by (simp add: ini_lines_def s)
  have c: "assignments sec n (ini_lines (s # ini)) =
      assignments name (n + 1) (map render_pair kvs @ ini_lines ini)"
    unfolding l assignments.simps classify_header [OF w(1)] by simp
  show ?case
    unfolding c assignments_pairs [OF w(2)] Cons.IH [OF w(3)] by (simp add: flatten_def s)
qed (simp add: ini_lines_def flatten_def)

lemma ini_line_cases:
  assumes "wf_ini ini" "l \<in> set (ini_lines ini)"
  obtains name where "wf_name name" "l = ''['' @ name @ '']''"
    | k v where "wf_key k" "wf_value v" "l = render_pair (k, v)"
proof -
  from assms(2) obtain name kvs where s: "(name, kvs) \<in> set ini"
    "l = ''['' @ name @ '']'' \<or> l \<in> render_pair ` set kvs"
    by (auto simp: ini_lines_def)
  from assms(1) s(1) have "wf_name name" "\<forall>(k, v) \<in> set kvs. wf_key k \<and> wf_value v"
    by (auto simp: wf_ini_def)
  with s(2) show ?thesis
  proof (elim disjE)
    assume "wf_name name" "l = ''['' @ name @ '']''"
    then show ?thesis by (rule that(1))
  next
    assume kv: "\<forall>(k, v) \<in> set kvs. wf_key k \<and> wf_value v" and "l \<in> render_pair ` set kvs"
    then obtain k v where "(k, v) \<in> set kvs" "l = render_pair (k, v)" by auto
    with kv show ?thesis by (intro that(2)) auto
  qed
qed

lemma bad_ini:
  assumes "wf_ini ini"
  shows "bad_lines (ini_lines ini) = 0"
proof -
  have "classify l \<noteq> Ini_bad" if "l \<in> set (ini_lines ini)" for l
    using assms that by (rule ini_line_cases) (simp_all only: classify_header classify_pair IniLine.simps not_False_eq_True)
  then show ?thesis by (simp add: bad_lines_def filter_empty_conv)
qed

lemma ini_no_newline:
  assumes "wf_ini ini"
  shows "\<forall>l \<in> set (ini_lines ini). CHR 0x0A \<notin> set l"
proof
  fix l assume "l \<in> set (ini_lines ini)"
  with assms show "CHR 0x0A \<notin> set l"
    by (rule ini_line_cases) (auto simp: wf_name_def wf_key_def wf_value_def render_pair_def)
qed

section \<open>Properties\<close>

lemma sorted_wrt_less_distinct: "sorted_wrt (<) (xs :: 'a::linorder list) \<Longrightarrow> sorted xs \<and> distinct xs"
  by (simp add: strict_sorted_iff)

text \<open>C16: What \<open>Load\<close> computes, for every file: each key holds the value and line number of its
  last assignment in the file (section names prefixed), keys never assigned are absent, and the
  keys come out sorted and without duplicates; every malformed line and every override of an
  earlier assignment, and nothing else, adds exactly one line to the log of a logger that lets warnings through.\<close>

theorem config_load_last_wins:
  assumes "Config_Load env files path cfg lg = (Config_SUCCESS, cfg', lg')" "files path = Some contents"
  shows "Config_Find key cfg' = map_of (rev (assignments [] 0 (read_lines [] contents))) key \<and>
    sorted (Config_Keys cfg') \<and> distinct (Config_Keys cfg') \<and>
    set (Config_Keys cfg') = fst ` set (assignments [] 0 (read_lines [] contents)) \<and>
    (warns lg \<longrightarrow> length (console lg') + Config_Size cfg' = length (console lg) +
       bad_lines (read_lines [] contents) + length (assignments [] 0 (read_lines [] contents)))"
proof -
  let ?st = "\<lparr>current_section = [], load_entries = [], load_logger = lg\<rparr>"
  have r: "entries cfg' = load_entries (load_loop env 0 (read_lines [] contents) ?st)"
    "lg' = load_logger (load_loop env 0 (read_lines [] contents) ?st)"
    using assms by (auto simp: Config_Load_def Let_def split: if_splits)
  note spec = load_loop_spec [of ?st _ env 0 "read_lines [] contents", OF _ refl, simplified]
  have e: "entries cfg' = assign_all (assignments [] 0 (read_lines [] contents)) []"
    using spec r by simp
  have w: "warns lg \<longrightarrow> length (console lg') + length (entries cfg') = length (console lg) +
      bad_lines (read_lines [] contents) + length (assignments [] 0 (read_lines [] contents))"
    using spec unfolding r by blast
  have "sorted_wrt (<) (map fst (entries cfg'))" unfolding e by (rule assign_all_sorted) simp
  moreover have "fst ` set (entries cfg') = fst ` set (assignments [] 0 (read_lines [] contents))"
    unfolding e assign_all_keys by simp
  moreover have "map_of (entries cfg') key = map_of (rev (assignments [] 0 (read_lines [] contents))) key"
    unfolding e assign_all_lookup by simp
  ultimately show ?thesis
    using w sorted_wrt_less_distinct [of "map fst (entries cfg')"]
    by (simp add: Config_Find_def Config_Keys_def Config_Size_def)
qed

text \<open>A logger and a platform for the examples.\<close>

definition sample_logger :: Logger where
  "sample_logger = \<lparr>initialized = True, log_config = default_config, console = []\<rparr>"

definition sample_env :: LogEnv where
  "sample_env = \<lparr>local_date = ''d'', epoch_millis = 0, thread_id = 1\<rparr>"

definition sample_file :: string where
  "sample_file = ''a=1'' @ [CHR 0x0A] @ ''a=2''"

theorem config_load_last_wins_witness:
  "map_option entry_value (Config_Find ''a'' (fst (snd (Config_Load (\<lambda>_. sample_env) (\<lambda>_. Some sample_file)
     ''f'' Config_new sample_logger)))) = Some ''2''"
proof -
  obtain e cfg lg where l: "Config_Load (\<lambda>_. sample_env) (\<lambda>_. Some sample_file) ''f'' Config_new sample_logger =
      (e, cfg, lg)" by (metis prod_cases3)
  then have "e = Config_SUCCESS" by (simp add: Config_Load_def Let_def)
  with config_load_last_wins [of "\<lambda>_. sample_env" "\<lambda>_. Some sample_file" "''f''" Config_new sample_logger cfg lg
      sample_file "''a''"] l
  have "Config_Find ''a'' cfg = map_of (rev (assignments [] 0 (read_lines [] sample_file))) ''a''" by simp
  then show ?thesis
    unfolding l by (simp add: sample_file_def classify_def Trim_dropWhile is_ws_def Let_def qualify_def)
qed

text \<open>C17: Round trip: a well-formed configuration of sections, keys and values, written in the
  documented format, is loaded back as exactly the same set of (section-qualified key, value)
  pairs, with its keys in order and without a single log line, whenever no qualified key
  occurs twice.\<close>

theorem config_render_roundtrip:
  assumes "wf_ini ini" "distinct (map fst (flatten ini))" "path \<noteq> []" "files path = Some (render ini)"
    and "Config_Load env files path cfg lg = (e, cfg', lg')"
  shows "e = Config_SUCCESS \<and> lg' = lg \<and>
    set (map (\<lambda>(k, en). (k, entry_value en)) (entries cfg')) = set (flatten ini) \<and>
    Config_Keys cfg' = sort (map fst (flatten ini))"
proof -
  let ?st = "\<lparr>current_section = [], load_entries = [], load_logger = lg\<rparr>"
  let ?as = "assignments [] 0 (ini_lines ini)" and ?f = "\<lambda>(k, en). (k, entry_value en)"
  have rd: "read_lines [] (render ini) = ini_lines ini"
    unfolding render_def by (rule read_render [OF ini_no_newline [OF assms(1)]])
  have r: "e = Config_SUCCESS" "entries cfg' = load_entries (load_loop env 0 (ini_lines ini) ?st)"
    "lg' = load_logger (load_loop env 0 (ini_lines ini) ?st)"
    using assms(3-5) by (auto simp: Config_Load_def Let_def rd)
  have en: "entries cfg' = assign_all ?as []"
    using load_loop_spec [of ?st _ env 0 "ini_lines ini", OF _ refl] r(2) by simp
  have as: "map ?f ?as = flatten ini" by (rule assignments_ini [OF assms(1)])
  have "map fst ?as = map fst (map ?f ?as)" by (simp add: comp_def case_prod_beta)
  then have ks: "map fst ?as = map fst (flatten ini)" unfolding as .
  then have d: "distinct (map fst ?as)" using assms(2) by simp
  have "lg' = lg"
    using load_loop_quiet [OF bad_ini [OF assms(1)], of ?st 0 env] d r(3) by simp
  moreover have s: "sorted_wrt (<) (map fst (entries cfg'))" unfolding en by (rule assign_all_sorted) simp
  moreover have eq: "set (entries cfg') = set ?as"
  proof -
    have "map_of (entries cfg') = map_of (rev ?as)"
      by (rule ext) (simp add: en assign_all_lookup)
    moreover have "distinct (map fst (rev ?as))" using d by (simp add: rev_map [symmetric])
    ultimately have "set (entries cfg') = set (rev ?as)"
      using sorted_wrt_less_distinct [OF s] by (metis map_of_inject_set)
    then show ?thesis by simp
  qed
  moreover have "sort (map fst (flatten ini)) = map fst (entries cfg')"
  proof (rule sorted_distinct_set_unique)
    show "set (sort (map fst (flatten ini))) = set (map fst (entries cfg'))"
      unfolding set_sort ks [symmetric] by (simp add: eq)
  qed (use sorted_wrt_less_distinct [OF s] assms(2) in auto)
  moreover have "set (map ?f (entries cfg')) = set (flatten ini)" unfolding as [symmetric] by (simp add: eq)
  ultimately show ?thesis using r(1) by (simp add: Config_Keys_def)
qed

definition sample_ini :: ini where
  "sample_ini = [(''net'', [(''port'', ''80''), (''host'', [])]), (''b'', [(''x'', ''a=b'')])]"

theorem config_render_roundtrip_witness:
  "Config_Keys (fst (snd (Config_Load (\<lambda>_. sample_env) (\<lambda>_. Some (render sample_ini)) ''f'' Config_new
     sample_logger))) = [''b.x'', ''net.host'', ''net.port'']"
proof -
  have w: "wf_ini sample_ini"
    by (simp add: wf_ini_def sample_ini_def wf_name_def wf_key_def wf_value_def trimmed_str_def is_ws_def)
  have f: "map fst (flatten sample_ini) = [''net.port'', ''net.host'', ''b.x'']"
    by (simp add: flatten_def sample_ini_def qualify_def)
  obtain e cfg lg where l: "Config_Load (\<lambda>_. sample_env) (\<lambda>_. Some (render sample_ini)) ''f'' Config_new
      sample_logger = (e, cfg, lg)" by (metis prod_cases3)
  have "Config_Keys cfg = sort (map fst (flatten sample_ini))"
    using config_render_roundtrip [OF w _ _ _ l] f by simp
  also have "\<dots> = [''b.x'', ''net.host'', ''net.port'']"
    unfolding f by (simp add: sort_key_def insort_key.simps less_eq_char_def less_char_def)
  finally show ?thesis unfolding l by simp
qed

text \<open>C35: \<open>ParseInt\<close> accepts exactly an optional minus sign followed by one or more digits whose
  value fits a 32-bit int, and returns that value; in particular it reads back every printed
  int and rejects every printed integer outside the range (no sign \<open>+\<close>, spaces or trailing
  characters, no wrap-around).\<close>

theorem parse_int_exact:
  "(ParseInt raw = Some z \<longleftrightarrow>
    (\<exists>neg ds. raw = (if neg then ''-'' else []) @ ds \<and> ds \<noteq> [] \<and> list_all is_digit ds \<and>
       z = (if neg then - int (digits_value ds) else int (digits_value ds)) \<and> int_range z)) \<and>
   ParseInt (show_int n) = (if - (2 ^ 31) \<le> n \<and> n < 2 ^ 31 then Some n else None)"
proof
  show "ParseInt raw = Some z \<longleftrightarrow>
    (\<exists>neg ds. raw = (if neg then ''-'' else []) @ ds \<and> ds \<noteq> [] \<and> list_all is_digit ds \<and>
       z = (if neg then - int (digits_value ds) else int (digits_value ds)) \<and> int_range z)"
    unfolding list_all_iff by (rule ParseInt_iff)
  have d: "show_nat k \<noteq> []" "\<forall>c \<in> set (show_nat k). is_digit c" for k by (simp_all add: show_nat_digits)
  have "ParseInt (show_int n) = Some n" if "int_range n"
    unfolding ParseInt_iff using that d
    by (intro exI [of _ "n < 0"] exI [of _ "show_nat (nat \<bar>n\<bar>)"]) (simp add: show_int_def)
  moreover have "z = n" if p: "ParseInt (show_int n) = Some z" for z
  proof -
    from p obtain neg ds where ds: "show_int n = (if neg then ''-'' else []) @ ds" "\<forall>c \<in> set ds. is_digit c" "ds \<noteq> []"
      "z = (if neg then - int (digits_value ds) else int (digits_value ds))"
      unfolding ParseInt_iff by blast
    have "hd (show_nat (nat n)) \<noteq> CHR ''-''" "hd ds \<noteq> CHR ''-''"
      using d ds minus_not_digit by (metis hd_in_set)+
    with ds d show ?thesis by (cases neg) (auto simp: show_int_def split: if_splits)
  qed
  moreover have "int_range z" if "ParseInt (show_int n) = Some z" for z
    using that unfolding ParseInt_iff by blast
  ultimately show "ParseInt (show_int n) = (if - (2 ^ 31) \<le> n \<and> n < 2 ^ 31 then Some n else None)"
    by (cases "ParseInt (show_int n)") (auto simp: int_range_def)
qed

text \<open>The value a reader of a type with parser \<open>parse\<close> should see, if any.\<close>

definition readable :: "(string \<Rightarrow> 'a option) \<Rightarrow> string \<Rightarrow> Config \<Rightarrow> 'a option" where
  "readable parse key cfg =
     (case Config_Find key cfg of None \<Rightarrow> None | Some entry \<Rightarrow> parse (entry_value entry))"

text \<open>The contract of a pair of readers.\<close>

definition readers_agree ::
  "(string \<Rightarrow> 'a option) \<Rightarrow> string \<Rightarrow> Config \<Rightarrow> Logger \<Rightarrow> LogEnv \<Rightarrow>
   ('a \<Rightarrow> 'a \<times> Logger) \<Rightarrow> ('a \<Rightarrow> bool \<times> 'a \<times> Logger) \<Rightarrow> bool" where
  "readers_agree parse key cfg lg env get_x require_x \<longleftrightarrow>
     (case readable parse key cfg of
        Some v \<Rightarrow> (\<forall>d. get_x d = (v, lg)) \<and> (\<forall>out. require_x out = (True, v, lg))
      | None \<Rightarrow>
          (\<forall>d. \<exists>m. get_x d = (d, snd (Logger_Log env (if Config_Has key cfg then WARN else DEBUG) m lg))) \<and>
          (\<forall>out. \<exists>m. require_x out = (False, out, snd (Logger_Error env m lg))))"

text \<open>The two reader families agree for every type: when the key is present and its value
  parses, \<open>GetX\<close> and \<open>RequireX\<close> return the same value and log nothing; otherwise \<open>GetX\<close> returns its
  default, logging once at DEBUG for a missing key and at WARN for an invalid value, and \<open>RequireX\<close>
  returns false, leaves its out parameter untouched and logs exactly once at ERROR. A duration
  is never negative.\<close>

theorem config_readers_agree:
  "readers_agree Some key cfg lg env
     (\<lambda>d. Config_GetString env key d cfg lg) (\<lambda>out. Config_RequireString env key out cfg lg) \<and>
   readers_agree ParseInt key cfg lg env
     (\<lambda>d. Config_GetInt env key d cfg lg) (\<lambda>out. Config_RequireInt env key out cfg lg) \<and>
   readers_agree ParseBool key cfg lg env
     (\<lambda>d. Config_GetBool env key d cfg lg) (\<lambda>out. Config_RequireBool env key out cfg lg) \<and>
   readers_agree ParseDurationMs key cfg lg env
     (\<lambda>d. Config_GetDurationMs env key d cfg lg) (\<lambda>out. Config_RequireDurationMs env key out cfg lg) \<and>
   ParseDurationMs raw \<noteq> Some (- 1 - int n)"
proof (intro conjI)
  show "readers_agree Some key cfg lg env
     (\<lambda>d. Config_GetString env key d cfg lg) (\<lambda>out. Config_RequireString env key out cfg lg)"
    unfolding readers_agree_def readable_def Config_GetString_def Config_RequireString_def Config_Has_def
      Config_Find_def Logger_Debug_def by (cases "map_of (entries cfg) key") auto
  show "readers_agree ParseInt key cfg lg env
     (\<lambda>d. Config_GetInt env key d cfg lg) (\<lambda>out. Config_RequireInt env key out cfg lg)"
    unfolding readers_agree_def readable_def Config_GetInt_def Config_RequireInt_def Config_Has_def
      Config_Find_def Logger_Debug_def Logger_Warn_def
    by (cases "map_of (entries cfg) key"; cases "ParseInt (entry_value (the (map_of (entries cfg) key)))") auto
  show "readers_agree ParseBool key cfg lg env
     (\<lambda>d. Config_GetBool env key d cfg lg) (\<lambda>out. Config_RequireBool env key out cfg lg)"
    unfolding readers_agree_def readable_def Config_GetBool_def Config_RequireBool_def Config_Has_def
      Config_Find_def Logger_Debug_def Logger_Warn_def
    by (cases "map_of (entries cfg) key"; cases "ParseBool (entry_value (the (map_of (entries cfg) key)))") auto
  show "readers_agree ParseDurationMs key cfg lg env
     (\<lambda>d. Config_GetDurationMs env key d cfg lg) (\<lambda>out. Config_RequireDurationMs env key out cfg lg)"
    unfolding readers_agree_def readable_def Config_GetDurationMs_def Config_RequireDurationMs_def Config_Has_def
      Config_Find_def Logger_Debug_def Logger_Warn_def
    by (cases "map_of (entries cfg) key"; cases "ParseDurationMs (entry_value (the (map_of (entries cfg) key)))") auto
  show "ParseDurationMs raw \<noteq> Some (- 1 - int n)"
    by (auto simp: ParseDurationMs_def split: option.splits if_splits)
qed

end

