(* ===== verification/Watchdog.thy ===== *)
theory Watchdog
  imports Logger Thread_Manager
begin

text \<open>
  \<open>framework/watchdog\<close>: the two devices behind \<open>IWatchdogDevice\<close>, the monitor loop and the object
  that composes them with a \<open>ThreadManager\<close>. The interface is a locale, interpreted on both
  implementations and on the virtual dispatch. What the system calls return, clock readings
  and the verdicts of the health checkers are inputs; a Linux device keeps the list of the
  system calls it made (a history no code reads).
\<close>

section \<open>Devices\<close>

datatype DevCall = Sys_open int | Sys_settimeout int | Sys_keepalive | Sys_write char | Sys_close int

record LinuxWatchdogDevice =
  device_path :: string
  dev_fd :: int
  dev_calls :: "DevCall list"

record NullWatchdogDevice =
  null_open :: bool
  null_timeout :: int
  null_kicks :: int
  null_closed :: bool

text \<open>What the platform answers to \<open>Open\<close>: the descriptor (negative: failure) and the ioctl.\<close>

record OpenIO =
  open_fd :: int
  settimeout_ok :: bool

definition kMagicCloseChar :: char where
  "kMagicCloseChar = CHR ''V''"

definition LinuxWatchdogDevice_new :: "string \<Rightarrow> LinuxWatchdogDevice" where
  "LinuxWatchdogDevice_new path = \<lparr>device_path = path, dev_fd = -1, dev_calls = []\<rparr>"

definition LinuxWatchdogDevice_Open ::
  "OpenIO \<Rightarrow> int \<Rightarrow> LinuxWatchdogDevice \<Rightarrow> bool \<times> LinuxWatchdogDevice" where
  "LinuxWatchdogDevice_Open io timeout_seconds d =
     (if dev_fd d \<ge> 0 then (False, d)
      else if timeout_seconds \<le> 0 then (False, d)
      else
        let d1 = d\<lparr>dev_fd := open_fd io, dev_calls := dev_calls d @ [Sys_open (open_fd io)]\<rparr> in
        if dev_fd d1 < 0 then (False, d1)
        else
          let d2 = d1\<lparr>dev_calls := dev_calls d1 @ [Sys_settimeout timeout_seconds]\<rparr> in
          if \<not> settimeout_ok io
          then (False, d2\<lparr>dev_calls := dev_calls d2 @ [Sys_close (dev_fd d2)], dev_fd := -1\<rparr>)
          else (True, d2))"

definition LinuxWatchdogDevice_Kick :: "bool \<Rightarrow> LinuxWatchdogDevice \<Rightarrow> bool \<times> LinuxWatchdogDevice" where
  "LinuxWatchdogDevice_Kick keepalive_ok d =
     (if dev_fd d < 0 then (False, d)
      else (keepalive_ok, d\<lparr>dev_calls := dev_calls d @ [Sys_keepalive]\<rparr>))"

definition LinuxWatchdogDevice_Close :: "LinuxWatchdogDevice \<Rightarrow> LinuxWatchdogDevice" where
  "LinuxWatchdogDevice_Close d =
     (if dev_fd d < 0 then d
      else d\<lparr>dev_calls := dev_calls d @ [Sys_write kMagicCloseChar, Sys_close (dev_fd d)], dev_fd := -1\<rparr>)"

definition LinuxWatchdogDevice_destroy :: "LinuxWatchdogDevice \<Rightarrow> LinuxWatchdogDevice" where
  "LinuxWatchdogDevice_destroy d = LinuxWatchdogDevice_Close d"

definition LinuxWatchdogDevice_IsOpen :: "LinuxWatchdogDevice \<Rightarrow> bool" where
  "LinuxWatchdogDevice_IsOpen d \<longleftrightarrow> dev_fd d \<ge> 0"

definition NullWatchdogDevice_new :: NullWatchdogDevice where
  "NullWatchdogDevice_new = \<lparr>null_open = False, null_timeout = 0, null_kicks = 0, null_closed = False\<rparr>"

definition NullWatchdogDevice_Open :: "int \<Rightarrow> NullWatchdogDevice \<Rightarrow> bool \<times> NullWatchdogDevice" where
  "NullWatchdogDevice_Open timeout_seconds d =
     (if timeout_seconds \<le> 0 then (False, d)
      else (True, d\<lparr>null_open := True, null_timeout := timeout_seconds\<rparr>))"

definition NullWatchdogDevice_Kick :: "NullWatchdogDevice \<Rightarrow> bool \<times> NullWatchdogDevice" where
  "NullWatchdogDevice_Kick d =
     (if \<not> null_open d then (False, d) else (True, d\<lparr>null_kicks := null_kicks d + 1\<rparr>))"

definition NullWatchdogDevice_Close :: "NullWatchdogDevice \<Rightarrow> NullWatchdogDevice" where
  "NullWatchdogDevice_Close d = d\<lparr>null_open := False, null_closed := True\<rparr>"

definition NullWatchdogDevice_IsOpen :: "NullWatchdogDevice \<Rightarrow> bool" where
  "NullWatchdogDevice_IsOpen d = null_open d"

definition NullWatchdogDevice_KickCount :: "NullWatchdogDevice \<Rightarrow> int" where
  "NullWatchdogDevice_KickCount d = null_kicks d"

definition NullWatchdogDevice_TimeoutSeconds :: "NullWatchdogDevice \<Rightarrow> int" where
  "NullWatchdogDevice_TimeoutSeconds d = null_timeout d"

definition NullWatchdogDevice_WasClosed :: "NullWatchdogDevice \<Rightarrow> bool" where
  "NullWatchdogDevice_WasClosed d = null_closed d"

text \<open>\<open>IWatchdogDevice\<close>: the virtual dispatch.\<close>

datatype Device = Linux_device LinuxWatchdogDevice | Null_device NullWatchdogDevice

fun Device_Open :: "OpenIO \<Rightarrow> int \<Rightarrow> Device \<Rightarrow> bool \<times> Device" where
  "Device_Open io t (Linux_device d) = map_prod id Linux_device (LinuxWatchdogDevice_Open io t d)"
| "Device_Open io t (Null_device d) = map_prod id Null_device (NullWatchdogDevice_Open t d)"

fun Device_Kick :: "bool \<Rightarrow> Device \<Rightarrow> bool \<times> Device" where
  "Device_Kick ok (Linux_device d) = map_prod id Linux_device (LinuxWatchdogDevice_Kick ok d)"
| "Device_Kick ok (Null_device d) = map_prod id Null_device (NullWatchdogDevice_Kick d)"

fun Device_Close :: "Device \<Rightarrow> Device" where
  "Device_Close (Linux_device d) = Linux_device (LinuxWatchdogDevice_Close d)"
| "Device_Close (Null_device d) = Null_device (NullWatchdogDevice_Close d)"

fun Device_IsOpen :: "Device \<Rightarrow> bool" where
  "Device_IsOpen (Linux_device d) = LinuxWatchdogDevice_IsOpen d"
| "Device_IsOpen (Null_device d) = NullWatchdogDevice_IsOpen d"

section \<open>The contract of a device\<close>

locale watchdog_device =
  fixes open_d :: "OpenIO \<Rightarrow> int \<Rightarrow> 'd \<Rightarrow> bool \<times> 'd"
    and kick_d :: "bool \<Rightarrow> 'd \<Rightarrow> bool \<times> 'd"
    and close_d :: "'d \<Rightarrow> 'd"
    and is_open_d :: "'d \<Rightarrow> bool"
  assumes open_ok: "open_d io t d = (True, d') \<Longrightarrow> is_open_d d' \<and> 0 < t"
    and open_fails: "open_d io t d = (False, d') \<Longrightarrow> is_open_d d' = is_open_d d"
    and kick_keeps: "is_open_d (snd (kick_d ok d)) = is_open_d d"
    and kick_needs_open: "fst (kick_d ok d) \<Longrightarrow> is_open_d d"
    and close_closes: "\<not> is_open_d (close_d d)"
begin

lemma kicks_keep: "is_open_d (fold (\<lambda>ok d. snd (kick_d ok d)) oks d) = is_open_d d"
  by (induction oks arbitrary: d) (simp_all add: kick_keeps)

lemma session:
  assumes "open_d io t d = (b, d')" "\<not> is_open_d d"
  shows "is_open_d (fold (\<lambda>ok d. snd (kick_d ok d)) oks d') = b"
  using assms open_ok open_fails by (cases b) (auto simp: kicks_keep)

lemma kick_after_close_fails: "\<not> fst (kick_d ok (close_d d))"
  using kick_needs_open close_closes by blast

end

lemmas linux_defs = LinuxWatchdogDevice_Open_def LinuxWatchdogDevice_Kick_def LinuxWatchdogDevice_Close_def
  LinuxWatchdogDevice_IsOpen_def
lemmas null_defs = NullWatchdogDevice_Open_def NullWatchdogDevice_Kick_def NullWatchdogDevice_Close_def
  NullWatchdogDevice_IsOpen_def

interpretation linux_dev: watchdog_device LinuxWatchdogDevice_Open LinuxWatchdogDevice_Kick
  LinuxWatchdogDevice_Close LinuxWatchdogDevice_IsOpen
  by unfold_locales (auto simp: linux_defs Let_def split: if_splits)

interpretation null_dev: watchdog_device "\<lambda>_. NullWatchdogDevice_Open" "\<lambda>_. NullWatchdogDevice_Kick"
  NullWatchdogDevice_Close NullWatchdogDevice_IsOpen
  by unfold_locales (auto simp: null_defs split: if_splits)

interpretation any_dev: watchdog_device Device_Open Device_Kick Device_Close Device_IsOpen
proof
  show "Device_IsOpen d' \<and> 0 < t" if "Device_Open io t d = (True, d')" for io t d d'
    using that linux_dev.open_ok null_dev.open_ok by (cases d) (auto simp: map_prod_def split: prod.splits)
  show "Device_IsOpen d' = Device_IsOpen d" if "Device_Open io t d = (False, d')" for io t d d'
    using that linux_dev.open_fails null_dev.open_fails
    by (cases d) (auto simp: map_prod_def split: prod.splits)
  show "Device_IsOpen (snd (Device_Kick ok d)) = Device_IsOpen d" for ok d
    using linux_dev.kick_keeps null_dev.kick_keeps by (cases d) auto
  show "Device_IsOpen d" if "fst (Device_Kick ok d)" for ok d
    using that linux_dev.kick_needs_open null_dev.kick_needs_open by (cases d) auto
  show "\<not> Device_IsOpen (Device_Close d)" for d
    using linux_dev.close_closes null_dev.close_closes by (cases d) auto
qed

section \<open>The watchdog object\<close>

record 'ck Watchdog =
  wd_device :: "Device option"
  wd_checkers :: "(string \<times> 'ck) list"
  wd_manager :: ThreadManager
  wd_timeout :: int
  wd_running :: bool

definition Watchdog_new :: "Device option \<Rightarrow> 'ck Watchdog" where
  "Watchdog_new dev =
     \<lparr>wd_device = dev, wd_checkers = [], wd_manager = ThreadManager_new, wd_timeout = 0,
      wd_running = False\<rparr>"

definition Watchdog_default :: "'ck Watchdog" where
  "Watchdog_default = Watchdog_new (Some (Linux_device (LinuxWatchdogDevice_new ''/dev/watchdog'')))"

text \<open>\<open>None\<close> for the checker is an empty function.\<close>

definition Watchdog_RegisterChecker ::
  "string \<Rightarrow> 'ck option \<Rightarrow> 'ck Watchdog \<Rightarrow> bool \<times> 'ck Watchdog" where
  "Watchdog_RegisterChecker name checker w =
     (if wd_running w then (False, w)
      else
        case checker of
          None \<Rightarrow> (False, w)
        | Some ck \<Rightarrow>
            if name = [] then (False, w)
            else if \<exists>existing \<in> set (wd_checkers w). fst existing = name then (False, w)
            else (True, w\<lparr>wd_checkers := wd_checkers w @ [(name, ck)]\<rparr>))"

text \<open>\<open>None\<close>: \<open>std::terminate\<close> inside \<open>ThreadManager::Start\<close>.\<close>

definition Watchdog_Start ::
  "OpenIO \<Rightarrow> bool \<Rightarrow> nat \<Rightarrow> int \<Rightarrow> 'ck Watchdog \<Rightarrow> (bool \<times> 'ck Watchdog) option" where
  "Watchdog_Start io created tid timeout_seconds w =
     (if wd_running w then Some (False, w)
      else if timeout_seconds \<le> 0 then Some (False, w)
      else if wd_checkers w = [] then Some (False, w)
      else
        case wd_device w of
          None \<Rightarrow> Some (False, w)
        | Some dev \<Rightarrow>
            case Device_Open io timeout_seconds dev of
              (opened, dev1) \<Rightarrow>
                if \<not> opened then Some (False, w\<lparr>wd_device := Some dev1\<rparr>)
                else
                  let w1 = w\<lparr>wd_device := Some dev1, wd_timeout := timeout_seconds, wd_running := True\<rparr> in
                  case ThreadManager_Start ''watchdog'' True created tid (wd_manager w1) of
                    None \<Rightarrow> None
                  | Some (result, m) \<Rightarrow>
                      if result \<noteq> Thread_SUCCESS
                      then Some (False, w1\<lparr>wd_manager := m, wd_device := Some (Device_Close dev1),
                                           wd_running := False\<rparr>)
                      else Some (True, w1\<lparr>wd_manager := m\<rparr>))"

definition Watchdog_Stop :: "'ck Watchdog \<Rightarrow> 'ck Watchdog" where
  "Watchdog_Stop w =
     (if \<not> wd_running w then w else w\<lparr>wd_manager := snd (ThreadManager_Stop (wd_manager w))\<rparr>)"

text \<open>
  \<open>Join\<close> asks the thread to stop and waits for it; \<open>None\<close> in the second component: it is still
  waiting, with the object as in the first.
\<close>

definition Watchdog_Join :: "'ck Watchdog \<Rightarrow> 'ck Watchdog \<times> 'ck Watchdog option" where
  "Watchdog_Join w =
     (let w1 = w\<lparr>wd_manager := snd (ThreadManager_Stop (wd_manager w))\<rparr>
      in (w1,
          case ThreadManager_Join (wd_manager w1) of
            None \<Rightarrow> None
          | Some (e, m, t) \<Rightarrow>
              Some (w1\<lparr>wd_manager := m,
                       wd_device := (case wd_device w1 of
                           None \<Rightarrow> None
                         | Some dev \<Rightarrow> Some (if Device_IsOpen dev then Device_Close dev else dev)),
                       wd_running := False\<rparr>)))"

text \<open>The destructor.\<close>

definition Watchdog_destroy :: "'ck Watchdog \<Rightarrow> 'ck Watchdog \<times> 'ck Watchdog option" where
  "Watchdog_destroy w = Watchdog_Join (Watchdog_Stop w)"

definition Watchdog_IsRunning :: "'ck Watchdog \<Rightarrow> bool" where
  "Watchdog_IsRunning w = wd_running w"

definition Watchdog_CheckerCount :: "'ck Watchdog \<Rightarrow> nat" where
  "Watchdog_CheckerCount w = length (wd_checkers w)"

section \<open>Monitoring\<close>

datatype Verdict = Healthy | Unhealthy | Check_threw string | Check_threw_unknown

fun check_loop ::
  "('ck \<Rightarrow> Verdict) \<Rightarrow> LogEnv \<Rightarrow> (string \<times> 'ck) list \<Rightarrow> Logger \<Rightarrow> bool \<times> Logger" where
  "check_loop verdict env [] lg = (True, lg)"
| "check_loop verdict env ((name, ck) # cs) lg =
     (case verdict ck of
        Check_threw what \<Rightarrow>
          (False, snd (Logger_Error env
             (''Watchdog: checker '' @ [CHR 0x27] @ name @ [CHR 0x27] @ '' threw: '' @ what) lg))
      | Check_threw_unknown \<Rightarrow>
          (False, snd (Logger_Error env
             (''Watchdog: checker '' @ [CHR 0x27] @ name @ [CHR 0x27] @ '' threw unknown exception'') lg))
      | Unhealthy \<Rightarrow>
          (False, snd (Logger_Error env
             (''Watchdog: checker '' @ [CHR 0x27] @ name @ [CHR 0x27] @ '' reports unhealthy '' @
              [CHR 0xE2, CHR 0x80, CHR 0x94] @ '' skipping kick'') lg))
      | Healthy \<Rightarrow> check_loop verdict env cs lg)"

definition CheckAllHealth ::
  "('ck \<Rightarrow> Verdict) \<Rightarrow> LogEnv \<Rightarrow> 'ck Watchdog \<Rightarrow> Logger \<Rightarrow> bool \<times> Logger" where
  "CheckAllHealth verdict env w lg =
     (if wd_checkers w = [] then (False, lg) else check_loop verdict env (wd_checkers w) lg)"

definition kick_interval :: "'ck Watchdog \<Rightarrow> nsec" where
  "kick_interval w = max 1 (wd_timeout w div 2) * 1000000000"

text \<open>One pass through the loop body, up to the sleep: the clock reading, the verdicts of the
  checkers and the answer of the device are inputs.\<close>

record 'ck Pass =
  pass_now :: nsec
  pass_verdict :: "'ck \<Rightarrow> Verdict"
  pass_env :: LogEnv
  pass_kick_ok :: bool

definition monitor_pass ::
  "'ck Pass \<Rightarrow> nsec \<Rightarrow> 'ck Watchdog \<Rightarrow> Logger \<Rightarrow> nsec \<times> 'ck Watchdog \<times> Logger" where
  "monitor_pass p next_kick w lg =
     (if pass_now p \<ge> next_kick then
        case CheckAllHealth (pass_verdict p) (pass_env p) w lg of
          (healthy, lg1) \<Rightarrow>
            (pass_now p + kick_interval w,
             (if healthy then w\<lparr>wd_device := map_option (\<lambda>d. snd (Device_Kick (pass_kick_ok p) d)) (wd_device w)\<rparr>
              else w),
             lg1)
      else (next_kick, w, lg))"

text \<open>
  \<open>MonitorLoop\<close> from a start at time \<open>t0\<close>, for the passes it makes before it finds the stop
  requested: the times of the health checks, and the final state.
\<close>

fun monitor_passes ::
  "'ck Pass list \<Rightarrow> nsec \<Rightarrow> 'ck Watchdog \<Rightarrow> Logger \<Rightarrow> nsec list \<times> 'ck Watchdog \<times> Logger" where
  "monitor_passes [] next_kick w lg = ([], w, lg)"
| "monitor_passes (p # ps) next_kick w lg =
     (case monitor_pass p next_kick w lg of
        (next_kick', w', lg') \<Rightarrow>
          (case monitor_passes ps next_kick' w' lg' of
             (checks, r) \<Rightarrow> (if pass_now p \<ge> next_kick then pass_now p # checks else checks, r)))"

definition MonitorLoop ::
  "nsec \<Rightarrow> 'ck Pass list \<Rightarrow> 'ck Watchdog \<Rightarrow> Logger \<Rightarrow> nsec list \<times> 'ck Watchdog \<times> Logger" where
  "MonitorLoop t0 ps w lg = monitor_passes ps (t0 + kick_interval w) w lg"

section \<open>The system\<close>

text \<open>The monitor thread: absent, created, at the head of its loop with a value of \<open>next_kick\<close>.\<close>

datatype MonitorPc = Monitor_none | Monitor_created | Monitor_at nsec

record 'ck WdSys =
  wd :: "'ck Watchdog"
  wd_logger :: Logger
  monitor :: MonitorPc

definition wd_init :: "'ck WdSys \<Rightarrow> bool" where
  "wd_init s \<longleftrightarrow> (\<exists>dev. wd s = Watchdog_new dev \<and> (\<forall>d. dev = Some d \<longrightarrow> \<not> Device_IsOpen d)) \<and>
     monitor s = Monitor_none"

text \<open>The owner's calls and the monitor thread, in any order.\<close>

inductive wd_step :: "'ck WdSys \<Rightarrow> 'ck WdSys \<Rightarrow> bool" where
  wd_register: "Watchdog_RegisterChecker name ck (wd s) = (b, w) \<Longrightarrow> wd_step s (s\<lparr>wd := w\<rparr>)"
| wd_start: "Watchdog_Start io created tid timeout (wd s) = Some (b, w) \<Longrightarrow>
    wd_step s (s\<lparr>wd := w, monitor := (if b then Monitor_created else monitor s)\<rparr>)"
| wd_stop: "wd_step s (s\<lparr>wd := Watchdog_Stop (wd s)\<rparr>)"
| wd_join_waits: "Watchdog_Join (wd s) = (w, None) \<Longrightarrow> wd_step s (s\<lparr>wd := w\<rparr>)"
| wd_join: "Watchdog_Join (wd s) = (w1, Some w) \<Longrightarrow> wd_step s (s\<lparr>wd := w\<rparr>)"
| mon_begin: "monitor s = Monitor_created \<Longrightarrow> wd_step s (s\<lparr>monitor := Monitor_at (now + kick_interval (wd s))\<rparr>)"
| mon_pass: "monitor s = Monitor_at nk \<Longrightarrow> \<not> StopToken_IsStopRequested (stop_token (wd_manager (wd s))) \<Longrightarrow>
    monitor_pass p nk (wd s) (wd_logger s) = (nk', w, lg) \<Longrightarrow>
    wd_step s (s\<lparr>monitor := Monitor_at nk', wd := w, wd_logger := lg\<rparr>)"
| mon_exit: "monitor s = Monitor_at nk \<Longrightarrow> StopToken_IsStopRequested (stop_token (wd_manager (wd s))) \<Longrightarrow>
    wd_step s (s\<lparr>monitor := Monitor_none,
      wd := (wd s)\<lparr>wd_manager := worker_epilogue (wd_manager (wd s))\<rparr>\<rparr>)"

section \<open>Invariant\<close>

definition device_open :: "'ck Watchdog \<Rightarrow> bool" where
  "device_open w \<longleftrightarrow> (case wd_device w of None \<Rightarrow> False | Some d \<Rightarrow> Device_IsOpen d)"

definition wd_inv :: "'ck WdSys \<Rightarrow> bool" where
  "wd_inv s \<longleftrightarrow>
     (let w = wd s; m = wd_manager w in
      (tm_running m \<longleftrightarrow> worker_thread m \<noteq> None) \<and> (wd_running w \<longleftrightarrow> tm_running m) \<and>
      (wd_running w \<longleftrightarrow> device_open w) \<and>
      distinct (map fst (wd_checkers w)) \<and> [] \<notin> fst ` set (wd_checkers w) \<and>
      (wd_running w \<longrightarrow> wd_checkers w \<noteq> [] \<and> 0 < wd_timeout w) \<and>
      (if monitor s = Monitor_none then tm_running m \<longrightarrow> worker_finished m
       else tm_running m \<and> \<not> worker_finished m))"

lemma wd_start_cases:
  assumes "Watchdog_Start io created tid timeout w = Some (b, w')" "wd_running w = tm_running (wd_manager w)"
  obtains (refused) "\<not> b" "wd_running w" "w' = w"
    | (failed) "\<not> b" "\<not> wd_running w" "\<not> wd_running w'" "device_open w' \<longrightarrow> device_open w"
        "wd_checkers w' = wd_checkers w" "worker_thread (wd_manager w') = worker_thread (wd_manager w)"
        "\<not> tm_running (wd_manager w')"
    | (started) "b" "\<not> wd_running w" "wd_running w'" "device_open w'" "wd_checkers w' = wd_checkers w"
        "wd_checkers w \<noteq> []" "0 < wd_timeout w'" "tm_running (wd_manager w')"
        "worker_thread (wd_manager w') = Some tid" "\<not> worker_finished (wd_manager w')"
        "\<not> stop_requested (stop_token (wd_manager w'))"
proof (cases "wd_running w")
  case True
  then show thesis using assms(1) by (intro refused) (auto simp: Watchdog_Start_def)
next
  case False
  then have r: "\<not> tm_running (wd_manager w)" using assms(2) by simp
  show thesis
  proof (cases "timeout \<le> 0 \<or> wd_checkers w = [] \<or> wd_device w = None")
    case True
    with assms(1) False have "\<not> b" "w' = w" by (auto simp: Watchdog_Start_def split: if_splits option.splits)
    then show thesis using False r by (intro failed) simp_all
  next
    case n: False
    then obtain dev where dev: "wd_device w = Some dev" by auto
    obtain opened dev1 where o: "Device_Open io timeout dev = (opened, dev1)" by fastforce
    show thesis
    proof (cases opened)
      case False
      with n assms(1) \<open>\<not> wd_running w\<close> dev o have "\<not> b" "w' = w\<lparr>wd_device := Some dev1\<rparr>"
        by (auto simp: Watchdog_Start_def)
      then show thesis
        using \<open>\<not> wd_running w\<close> r any_dev.open_fails o False dev
        by (intro failed) (auto simp: device_open_def)
    next
      case True
      have op: "Device_IsOpen dev1 \<and> 0 < timeout" using o True any_dev.open_ok by simp
      show thesis
      proof (cases created)
        case c: True
        with n assms(1) \<open>\<not> wd_running w\<close> dev o True r
        have "b" "w' = w\<lparr>wd_device := Some dev1, wd_timeout := timeout, wd_running := True,
            wd_manager := (wd_manager w)\<lparr>stop_token := StopToken_Reset (stop_token (wd_manager w)),
              worker_finished := False, thread_name := NormalizeName ''watchdog'',
              worker_thread := Some tid, tm_running := True\<rparr>\<rparr>"
          by (auto simp: Watchdog_Start_def ThreadManager_Start_def Let_def split: if_splits)
        then show thesis
          using \<open>\<not> wd_running w\<close> n op by (intro started) (simp_all add: device_open_def StopToken_Reset_def)
      next
        case c: False
        with n assms(1) \<open>\<not> wd_running w\<close> dev o True r
        have "\<not> b" "w' = w\<lparr>wd_device := Some (Device_Close dev1), wd_timeout := timeout, wd_running := False,
            wd_manager := (wd_manager w)\<lparr>stop_token := StopToken_Reset (stop_token (wd_manager w)),
              worker_finished := False, thread_name := NormalizeName ''watchdog'', tm_running := False\<rparr>\<rparr>"
          by (auto simp: Watchdog_Start_def ThreadManager_Start_def Let_def split: if_splits)
        then show thesis
          using \<open>\<not> wd_running w\<close> any_dev.close_closes by (intro failed) (simp_all add: device_open_def)
      qed
    qed
  qed
qed

lemma pass_frame:
  assumes "monitor_pass p nk w lg = (nk', w', lg')"
  shows "wd_checkers w' = wd_checkers w \<and> wd_manager w' = wd_manager w \<and> wd_timeout w' = wd_timeout w \<and>
    wd_running w' = wd_running w \<and> device_open w' = device_open w"
  using assms any_dev.kick_keeps
  by (auto simp: monitor_pass_def device_open_def split: if_splits prod.splits option.splits)

lemma wd_inv_step: "wd_step s s' \<Longrightarrow> wd_inv s \<Longrightarrow> wd_inv s'"
proof (induction rule: wd_step.induct)
  case (wd_register name ck s b w)
  then show ?case
    by (auto simp: Watchdog_RegisterChecker_def wd_inv_def Let_def device_open_def split: if_splits option.splits)
next
  case (wd_start io created tid timeout s b w)
  have eq: "wd_running (wd s) = tm_running (wd_manager (wd s))" using wd_start(2) by (simp add: wd_inv_def Let_def)
  show ?case
    using wd_start(1) eq
  proof (cases rule: wd_start_cases)
    case refused
    then show ?thesis using wd_start(2) by simp
  next
    case failed
    then show ?thesis using wd_start(2) by (auto simp: wd_inv_def Let_def split: if_splits)
  next
    case started
    then show ?thesis using wd_start(2) by (auto simp: wd_inv_def Let_def)
  qed
next
  case (wd_stop s)
  then show ?case
    by (auto simp: Watchdog_Stop_def wd_inv_def Let_def ThreadManager_Stop_def device_open_def split: if_splits)
next
  case (wd_join_waits s w)
  then show ?case
    by (auto simp: Watchdog_Join_def wd_inv_def Let_def ThreadManager_Stop_def device_open_def split: if_splits)
next
  case (wd_join s w1 w)
  then show ?case
    using any_dev.close_closes
    by (auto simp: Watchdog_Join_def wd_inv_def Let_def ThreadManager_Stop_def ThreadManager_Join_def join_wait_def
        ThreadManager_CompleteJoin_def device_open_def split: if_splits option.splits)
next
  case (mon_begin s now)
  then show ?case by (auto simp: wd_inv_def Let_def)
next
  case (mon_pass s nk p nk' w lg)
  then show ?case using pass_frame [OF mon_pass(3)] by (auto simp: wd_inv_def Let_def)
next
  case (mon_exit s nk)
  then show ?case by (auto simp: wd_inv_def Let_def worker_epilogue_def device_open_def)
qed

interpretation wd_sys: inductive_invariant wd_init wd_step wd_inv
proof
  show "wd_inv s" if "wd_init s" for s :: "'a WdSys"
    using that
    by (auto simp: wd_init_def wd_inv_def Let_def Watchdog_new_def ThreadManager_new_def device_open_def
        split: option.splits)
qed (rule wd_inv_step)

section \<open>Properties\<close>

text \<open>A null device, one checker, started.\<close>

definition demo_wd :: "nat WdSys" where
  "demo_wd =
     \<lparr>wd = \<lparr>wd_device = Some (Null_device (NullWatchdogDevice_new\<lparr>null_open := True, null_timeout := 4\<rparr>)),
            wd_checkers = [(''net'', 0)],
            wd_manager = \<lparr>worker_thread = Some 9, stop_token = StopToken_new, tm_running = True,
              worker_finished = False, thread_name = ''watchdog''\<rparr>,
            wd_timeout = 4, wd_running = True\<rparr>,
      wd_logger = Logger_new, monitor = Monitor_at 2000000000\<rparr>"

lemma demo_wd_reachable: "reaches wd_init wd_step demo_wd"
proof -
  define s0 :: "nat WdSys" where "s0 = \<lparr>wd = Watchdog_new (Some (Null_device NullWatchdogDevice_new)),
      wd_logger = Logger_new, monitor = Monitor_none\<rparr>"
  define s1 where "s1 = s0\<lparr>wd := (wd s0)\<lparr>wd_checkers := [(''net'', 0)]\<rparr>\<rparr>"
  define s2 where "s2 = s1\<lparr>wd := wd demo_wd, monitor := Monitor_created\<rparr>"
  have "reaches wd_init wd_step s0"
    by (rule reaches_init, unfold wd_init_def)
      (intro conjI exI [of _ "Some (Null_device NullWatchdogDevice_new)"],
       simp_all add: s0_def NullWatchdogDevice_IsOpen_def NullWatchdogDevice_new_def)
  moreover have "wd_step s0 s1"
    unfolding s1_def
    by (rule wd_register [of "''net''" "Some 0" s0 True])
      (simp add: Watchdog_RegisterChecker_def s0_def Watchdog_new_def)
  moreover have "Watchdog_Start io True 9 4 (wd s1) = Some (True, wd demo_wd)" for io
    by (simp add: Watchdog_Start_def s1_def s0_def Watchdog_new_def NullWatchdogDevice_Open_def
        NullWatchdogDevice_new_def ThreadManager_Start_def ThreadManager_new_def StopToken_new_def
        StopToken_Reset_def NormalizeName_def MAX_THREAD_NAME_LENGTH_def demo_wd_def)
  from wd_start [OF this] have "wd_step s1 s2" by (simp add: s2_def)
  moreover have "wd_step s2 demo_wd"
    using mon_begin [of s2 0] by (simp add: s2_def s1_def s0_def demo_wd_def kick_interval_def)
  ultimately show ?thesis by (meson reaches_step)
qed

text \<open>C30: The life of the watchdog, for every order of the owner's calls and the monitor thread:
  the object reports running exactly while its device is open and its thread is not joined; the
  monitor thread only ever runs with the device open and at least one checker (names non-empty
  and distinct); \<open>Join\<close> finishes exactly when the monitor thread is gone, and then the device is
  closed and the object can be started again.\<close>

theorem watchdog_lifecycle:
  assumes "reaches wd_init wd_step s"
  shows "(Watchdog_IsRunning (wd s) \<longleftrightarrow> device_open (wd s)) \<and>
    (Watchdog_IsRunning (wd s) \<longleftrightarrow> ThreadManager_IsRunning (wd_manager (wd s))) \<and>
    distinct (map fst (wd_checkers (wd s))) \<and> [] \<notin> set (map fst (wd_checkers (wd s))) \<and>
    (monitor s \<noteq> Monitor_none \<longrightarrow> device_open (wd s) \<and> Watchdog_CheckerCount (wd s) \<noteq> 0) \<and>
    (snd (Watchdog_Join (wd s)) \<noteq> None \<longleftrightarrow> monitor s = Monitor_none) \<and>
    (\<forall>w. snd (Watchdog_Join (wd s)) = Some w \<longrightarrow> \<not> Watchdog_IsRunning w \<and> \<not> device_open w \<and>
       worker_thread (wd_manager w) = None)"
proof -
  have inv: "wd_inv s" by (rule wd_sys.reaches_inv [OF assms])
  have "worker_thread (wd_manager w) = None \<and> \<not> wd_running w \<and> \<not> device_open w"
    if "snd (Watchdog_Join (wd s)) = Some w" for w
    using that inv any_dev.close_closes
    by (auto simp: Watchdog_Join_def Let_def wd_inv_def ThreadManager_Stop_def ThreadManager_Join_def join_wait_def
        ThreadManager_CompleteJoin_def device_open_def split: if_splits option.splits)
  moreover have "snd (Watchdog_Join (wd s)) \<noteq> None \<longleftrightarrow> monitor s = Monitor_none"
    using inv
    by (auto simp: Watchdog_Join_def Let_def wd_inv_def ThreadManager_Stop_def ThreadManager_Join_def join_wait_def
        ThreadManager_CompleteJoin_def split: if_splits option.splits)
  ultimately show ?thesis
    using inv by (auto simp: wd_inv_def Let_def Watchdog_IsRunning_def ThreadManager_IsRunning_def
        Watchdog_CheckerCount_def split: if_splits)
qed

theorem watchdog_lifecycle_witness:
  "device_open (wd demo_wd) \<and> snd (Watchdog_Join (wd demo_wd)) = None"
proof -
  have "monitor demo_wd \<noteq> Monitor_none" by (simp add: demo_wd_def)
  with watchdog_lifecycle [OF demo_wd_reachable] show ?thesis by blast
qed

lemma check_loop_true:
  "fst (check_loop verdict env cs lg) \<longleftrightarrow> list_all (\<lambda>(n, c). verdict c = Healthy) cs"
  by (induction cs) (auto split: Verdict.splits)

lemma check_loop_healthy: "fst (check_loop verdict env cs lg) \<Longrightarrow> snd (check_loop verdict env cs lg) = lg"
  by (induction cs) (auto split: Verdict.splits)

lemma check_loop_first:
  assumes "\<not> fst (check_loop verdict env cs lg)"
  shows "\<exists>pre name ck post m. cs = pre @ (name, ck) # post \<and> list_all (\<lambda>(n, c). verdict c = Healthy) pre \<and>
    verdict ck \<noteq> Healthy \<and> snd (check_loop verdict env cs lg) =
      snd (Logger_Error env (''Watchdog: checker '' @ [CHR 0x27] @ name @ [CHR 0x27] @ m) lg)"
  using assms
proof (induction cs)
  case (Cons c cs)
  obtain name ck where c: "c = (name, ck)" by (cases c)
  show ?case
  proof (cases "verdict ck = Healthy")
    case True
    with Cons c obtain pre n k post m where "cs = pre @ (n, k) # post" "list_all (\<lambda>(n, c). verdict c = Healthy) pre"
      "verdict k \<noteq> Healthy" "snd (check_loop verdict env cs lg) =
        snd (Logger_Error env (''Watchdog: checker '' @ [CHR 0x27] @ n @ [CHR 0x27] @ m) lg)"
      by auto
    with True c show ?thesis
      by (intro exI [of _ "c # pre"] exI [of _ n] exI [of _ k] exI [of _ post] exI [of _ m]) simp
  next
    case False
    have "\<exists>m. snd (check_loop verdict env (c # cs) lg) =
        snd (Logger_Error env (''Watchdog: checker '' @ [CHR 0x27] @ name @ [CHR 0x27] @ m) lg)"
      using False unfolding c check_loop.simps by (cases "verdict ck") (simp_all only: Verdict.case snd_conv, auto)
    then obtain m where "snd (check_loop verdict env (c # cs) lg) =
        snd (Logger_Error env (''Watchdog: checker '' @ [CHR 0x27] @ name @ [CHR 0x27] @ m) lg)" by blast
    with False c show ?thesis
      by (intro exI [of _ "[]"] exI [of _ name] exI [of _ ck] exI [of _ cs] exI [of _ m]) simp
  qed
qed simp

text \<open>C8: The monitor kicks exactly when it should: in every pass of a running watchdog, a due
  pass with every checker healthy makes one kick, on the open device, and logs nothing; in any
  other pass the device is not touched, and a due pass with an unhealthy or throwing checker
  logs exactly one error, for the first such checker.\<close>

theorem watchdog_kicks_iff_healthy:
  assumes "reaches wd_init wd_step s" "monitor s = Monitor_at nk"
    and "monitor_pass p nk (wd s) (wd_logger s) = (nk', w', lg')"
  shows "(if pass_now p \<ge> nk \<and> list_all (\<lambda>(n, c). pass_verdict p c = Healthy) (wd_checkers (wd s))
     then \<exists>d. wd_device (wd s) = Some d \<and> Device_IsOpen d \<and>
       w' = (wd s)\<lparr>wd_device := Some (snd (Device_Kick (pass_kick_ok p) d))\<rparr> \<and> lg' = wd_logger s
     else w' = wd s \<and>
       (if pass_now p \<ge> nk
        then \<exists>pre name ck post m. wd_checkers (wd s) = pre @ (name, ck) # post \<and>
          list_all (\<lambda>(n, c). pass_verdict p c = Healthy) pre \<and> pass_verdict p ck \<noteq> Healthy \<and>
          lg' = snd (Logger_Error (pass_env p) (''Watchdog: checker '' @ [CHR 0x27] @ name @ [CHR 0x27] @ m)
            (wd_logger s))
        else lg' = wd_logger s \<and> nk' = nk))"
proof -
  let ?cs = "wd_checkers (wd s)" and ?lg = "wd_logger s"
  have inv: "wd_inv s" by (rule wd_sys.reaches_inv [OF assms(1)])
  then have o: "device_open (wd s)" "?cs \<noteq> []"
    using assms(2) by (auto simp: wd_inv_def Let_def split: if_splits)
  let ?r = "check_loop (pass_verdict p) (pass_env p) ?cs ?lg"
  have c: "CheckAllHealth (pass_verdict p) (pass_env p) (wd s) ?lg = ?r" using o(2) by (simp add: CheckAllHealth_def)
  consider (early) "\<not> nk \<le> pass_now p" | (ok) "nk \<le> pass_now p" "fst ?r" | (bad) "nk \<le> pass_now p" "\<not> fst ?r"
    by blast
  then show ?thesis
  proof cases
    case early
    then show ?thesis using assms(3) by (auto simp: monitor_pass_def)
  next
    case ok
    obtain d where d: "wd_device (wd s) = Some d" "Device_IsOpen d"
      using o(1) by (auto simp: device_open_def split: option.splits)
    have "w' = (wd s)\<lparr>wd_device := Some (snd (Device_Kick (pass_kick_ok p) d))\<rparr>" "lg' = snd ?r"
      using assms(3) ok d unfolding monitor_pass_def c by (auto split: prod.splits)
    with ok d check_loop_true [of "pass_verdict p" "pass_env p" ?cs ?lg]
      check_loop_healthy [of "pass_verdict p" "pass_env p" ?cs ?lg] show ?thesis by simp
  next
    case bad
    have "w' = wd s" "lg' = snd ?r"
      using assms(3) bad unfolding monitor_pass_def c by (auto split: prod.splits)
    with bad check_loop_true [of "pass_verdict p" "pass_env p" ?cs ?lg] check_loop_first [OF bad(2)]
    show ?thesis by simp
  qed
qed

definition demo_pass :: "nat Pass" where
  "demo_pass = \<lparr>pass_now = 2000000007, pass_verdict = (\<lambda>_. Healthy),
     pass_env = \<lparr>local_date = [], epoch_millis = 0, thread_id = 0\<rparr>, pass_kick_ok = True\<rparr>"

theorem watchdog_kicks_iff_healthy_witness:
  "\<exists>d. wd_device (wd demo_wd) = Some d \<and> Device_IsOpen d \<and>
     wd_device (fst (snd (monitor_pass demo_pass 2000000000 (wd demo_wd) (wd_logger demo_wd)))) =
       Some (snd (Device_Kick True d))"
proof -
  obtain nk w lg where r: "monitor_pass demo_pass 2000000000 (wd demo_wd) (wd_logger demo_wd) = (nk, w, lg)"
    by (metis prod_cases3)
  have "monitor demo_wd = Monitor_at 2000000000" by (simp add: demo_wd_def)
  from watchdog_kicks_iff_healthy [OF demo_wd_reachable this r]
  have "\<exists>d. wd_device (wd demo_wd) = Some d \<and> Device_IsOpen d \<and>
      w = (wd demo_wd)\<lparr>wd_device := Some (snd (Device_Kick True d))\<rparr>"
    by (simp add: demo_pass_def demo_wd_def)
  then show ?thesis unfolding r by auto
qed

text \<open>The times of the health checks, in terms of the pass times.\<close>

lemma passes_spacing:
  assumes "successively (\<lambda>a b. a \<le> b \<and> b \<le> a + \<delta>) (prev # map pass_now ps)"
    and "prev \<le> last_check + kick_interval w" "0 \<le> \<delta>"
    and "monitor_passes ps (last_check + kick_interval w) w lg = (checks, w', lg')"
  shows "successively (\<lambda>a b. kick_interval w \<le> b - a \<and> b - a \<le> kick_interval w + \<delta>) (last_check # checks)"
  using assms
proof (induction ps arbitrary: prev last_check w lg checks w' lg')
  case (Cons p ps)
  obtain nk w1 lg1 where m: "monitor_pass p (last_check + kick_interval w) w lg = (nk, w1, lg1)"
    by (metis prod_cases3)
  have ki: "kick_interval w1 = kick_interval w" using pass_frame [OF m] by (simp add: kick_interval_def)
  have st: "successively (\<lambda>a b. a \<le> b \<and> b \<le> a + \<delta>) (pass_now p # map pass_now ps)"
    and pr: "prev \<le> pass_now p" "pass_now p \<le> prev + \<delta>"
    using Cons.prems(1) by auto
  obtain cs r where cs: "monitor_passes ps nk w1 lg1 = (cs, r)" by (metis surj_pair)
  have pos: "0 < kick_interval w" by (simp add: kick_interval_def)
  show ?case
  proof (cases "last_check + kick_interval w \<le> pass_now p")
    case True
    then have nk: "nk = pass_now p + kick_interval w1" "checks = pass_now p # cs"
      using m Cons.prems(4) cs ki by (auto simp: monitor_pass_def split: prod.splits)
    have "successively (\<lambda>a b. kick_interval w1 \<le> b - a \<and> b - a \<le> kick_interval w1 + \<delta>) (pass_now p # cs)"
    proof -
      obtain w2 lg2 where r: "r = (w2, lg2)" by (cases r)
      have "monitor_passes ps (pass_now p + kick_interval w1) w1 lg1 = (cs, w2, lg2)" using cs nk(1) r by simp
      from Cons.IH [OF st _ Cons.prems(3) this] pos ki show ?thesis by simp
    qed
    with nk(2) True pr Cons.prems(2) ki show ?thesis by simp
  next
    case False
    have "nk = last_check + kick_interval w" using m False unfolding monitor_pass_def by auto
    then have nk: "nk = last_check + kick_interval w1" using ki by simp
    have "checks = cs" using Cons.prems(4) False by (simp add: m cs)
    note nk = nk this
    obtain w2 lg2 where r: "r = (w2, lg2)" by (cases r)
    have "monitor_passes ps (last_check + kick_interval w1) w1 lg1 = (cs, w2, lg2)" using cs nk(1) r by simp
    from Cons.IH [OF st _ Cons.prems(3) this] False ki show ?thesis by (simp add: nk(2))
  qed
qed simp

text \<open>C36: The kick margin. If the monitor thread runs its passes at most \<open>\<delta>\<close> apart, health checks
  (and so, on a healthy system, kicks) are never less than the kick interval and never more
  than the interval plus \<open>\<delta>\<close> apart, the first counted from the start. For a timeout of two seconds or
  more every gap is below the hardware timeout as soon as \<open>\<delta>\<close> is below half of it; but for a
  timeout of one second the interval is the full timeout, so every kick comes too late.\<close>

theorem watchdog_kick_margin:
  assumes "successively (\<lambda>a b. a \<le> b \<and> b \<le> a + \<delta>) (t0 # map pass_now ps)" "0 \<le> \<delta>"
    and "MonitorLoop t0 ps w lg = (checks, w', lg')"
  shows "successively (\<lambda>a b. kick_interval w \<le> b - a \<and> b - a \<le> kick_interval w + \<delta>) (t0 # checks) \<and>
    (wd_timeout w \<ge> 2 \<and> 2 * \<delta> < wd_timeout w * 1000000000 \<longrightarrow> kick_interval w + \<delta> < wd_timeout w * 1000000000) \<and>
    (wd_timeout w = 1 \<longrightarrow> kick_interval w = wd_timeout w * 1000000000)"
proof -
  have pos: "0 < kick_interval w" by (simp add: kick_interval_def)
  have "successively (\<lambda>a b. kick_interval w \<le> b - a \<and> b - a \<le> kick_interval w + \<delta>) (t0 # checks)"
    using passes_spacing [OF assms(1) _ assms(2)] assms(3) pos by (simp add: MonitorLoop_def)
  moreover have "2 * max 1 (n div 2) \<le> n" if "2 \<le> n" for n :: int using that by simp
  from this [of "wd_timeout w"]
  have "wd_timeout w \<ge> 2 \<and> 2 * \<delta> < wd_timeout w * 1000000000 \<longrightarrow> kick_interval w + \<delta> < wd_timeout w * 1000000000"
    unfolding kick_interval_def by linarith
  ultimately show ?thesis by (simp add: kick_interval_def)
qed

theorem watchdog_kick_margin_witness:
  "fst (MonitorLoop 0 [demo_pass] (wd demo_wd) Logger_new) = [2000000007] \<and>
   kick_interval (wd demo_wd) = 2000000000"
proof -
  let ?m = "MonitorLoop 0 [demo_pass] (wd demo_wd) Logger_new"
  have "successively (\<lambda>a b. a \<le> b \<and> b \<le> a + 2000000007) (0 # map pass_now [demo_pass])"
    by (simp add: demo_pass_def)
  from watchdog_kick_margin [OF this, of "wd demo_wd" Logger_new "fst ?m" "fst (snd ?m)" "snd (snd ?m)"]
  have "successively (\<lambda>a b. kick_interval (wd demo_wd) \<le> b - a \<and> b - a \<le> kick_interval (wd demo_wd) + 2000000007)
    (0 # fst ?m)" by simp
  then show ?thesis
    by (simp add: MonitorLoop_def kick_interval_def demo_wd_def demo_pass_def monitor_pass_def CheckAllHealth_def)
qed

text \<open>Magic close. Closing an open Linux device writes \<open>V\<close> immediately before closing the
  descriptor; but when setting the timeout fails inside \<open>Open\<close>, the descriptor is closed without it,
  so the hardware timer that opening started is left running while \<open>Start\<close> reports failure
  and the object believes the device closed.\<close>

theorem watchdog_magic_close:
  assumes "0 \<le> open_fd io" "0 < timeout" "dev_fd d < 0"
  shows "LinuxWatchdogDevice_Open io timeout d =
      (if settimeout_ok io
       then (True, d\<lparr>dev_fd := open_fd io, dev_calls := dev_calls d @ [Sys_open (open_fd io), Sys_settimeout timeout]\<rparr>)
       else (False, d\<lparr>dev_fd := -1, dev_calls := dev_calls d @
         [Sys_open (open_fd io), Sys_settimeout timeout, Sys_close (open_fd io)]\<rparr>)) \<and>
    (settimeout_ok io \<longrightarrow>
      LinuxWatchdogDevice_Close (snd (LinuxWatchdogDevice_Open io timeout d)) =
        d\<lparr>dev_fd := -1, dev_calls := dev_calls d @ [Sys_open (open_fd io), Sys_settimeout timeout,
          Sys_write (CHR ''V''), Sys_close (open_fd io)]\<rparr>)"
  using assms by (auto simp: linux_defs Let_def kMagicCloseChar_def)

theorem watchdog_magic_close_witness:
  "dev_calls (snd (LinuxWatchdogDevice_Open \<lparr>open_fd = 3, settimeout_ok = False\<rparr> 4
     (LinuxWatchdogDevice_new ''/dev/watchdog''))) = [Sys_open 3, Sys_settimeout 4, Sys_close 3]"
  using watchdog_magic_close [of "\<lparr>open_fd = 3, settimeout_ok = False\<rparr>" 4
      "LinuxWatchdogDevice_new ''/dev/watchdog''"]
  by (simp add: LinuxWatchdogDevice_new_def)

end
