(* ===== verification/Ipc_Socket.thy ===== *)
theory Ipc_Socket
  imports Firmware_Prelude
begin

unbundle bit_operations_syntax

text \<open>
  \<open>framework/ipc\<close>, the connected socket: framing, the write and read loops and \<open>IpcSocket\<close>. Bytes are
  8-bit words, the header a 32-bit one. What the kernel answers to each \<open>send\<close>, \<open>recv\<close> and \<open>poll\<close> is
  a script; a loop whose script is used up is still inside a call, and its result is \<open>None\<close>.
\<close>

section \<open>Data\<close>

datatype IpcError = Ipc_SUCCESS | Ipc_INVALID_ARGUMENT | NOT_CONNECTED | Ipc_ALREADY_RUNNING
  | ALREADY_CONNECTED | SOCKET_CREATION_FAILED | BIND_FAILED | LISTEN_FAILED | CONNECT_FAILED
  | SEND_FAILED | RECEIVE_FAILED | TIMEOUT | PEER_CLOSED | MESSAGE_TOO_LARGE

definition kIpcMaxMessageSize :: nat where
  "kIpcMaxMessageSize = 1024 * 1024"

definition kIpcFrameHeaderSize :: nat where
  "kIpcFrameHeaderSize = 4"

record IpcSocket =
  sock_fd :: int

section \<open>Header\<close>

definition EncodeHeader :: "u32 \<Rightarrow> u8 list" where
  "EncodeHeader len =
     [ucast (drop_bit 24 len AND 0xFF), ucast (drop_bit 16 len AND 0xFF),
      ucast (drop_bit 8 len AND 0xFF), ucast (len AND 0xFF)]"

definition DecodeHeader :: "u8 list \<Rightarrow> u32" where
  "DecodeHeader inp =
     push_bit 24 (ucast (inp ! 0)) OR push_bit 16 (ucast (inp ! 1)) OR
     push_bit 8 (ucast (inp ! 2)) OR ucast (inp ! 3)"

section \<open>The write loop\<close>

datatype PollAnswer = Poll_timeout | Poll_EINTR | Poll_error | Poll_ready

text \<open>
  The answer to one \<open>send\<close>. \<open>Sent k\<close>: the kernel takes \<open>k + 1\<close> bytes, or all that remain if they are
  fewer, so every count it may return is some \<open>Sent k\<close>. \<open>Send_EAGAIN\<close> carries the clock reading and
  the answer to the \<open>poll\<close> that follows.
\<close>

datatype SendAnswer = Sent nat | Send_zero | Send_EINTR | Send_EAGAIN nsec PollAnswer | Send_EPIPE
  | Send_error

text \<open>The argument of \<open>poll\<close>: the remaining time in whole milliseconds, cast to a 32-bit \<open>int\<close>.\<close>

definition poll_timeout_arg :: "nsec \<Rightarrow> nsec \<Rightarrow> int" where
  "poll_timeout_arg deadline now = int_cast ((deadline - now) div 1000000)"

text \<open>The result, the bytes handed to the kernel, the \<open>poll\<close> arguments, and the rest of the script.\<close>

fun WriteAll ::
  "nsec \<Rightarrow> u8 list \<Rightarrow> SendAnswer list \<Rightarrow> IpcError option \<times> u8 list \<times> int list \<times> SendAnswer list" where
  "WriteAll deadline p [] = (if p = [] then Some Ipc_SUCCESS else None, [], [], [])"
| "WriteAll deadline p (answer # rest) =
     (if p = [] then (Some Ipc_SUCCESS, [], [], answer # rest)
      else
        case answer of
          Sent k \<Rightarrow>
            (case WriteAll deadline (drop (k + 1) p) rest of
               (r, bs, polls, rest') \<Rightarrow> (r, take (k + 1) p @ bs, polls, rest'))
        | Send_EINTR \<Rightarrow> WriteAll deadline p rest
        | Send_EAGAIN now poll_answer \<Rightarrow>
            if now \<ge> deadline then (Some TIMEOUT, [], [], rest)
            else
              (case poll_answer of
                 Poll_timeout \<Rightarrow> (Some TIMEOUT, [], [poll_timeout_arg deadline now], rest)
               | Poll_error \<Rightarrow> (Some SEND_FAILED, [], [poll_timeout_arg deadline now], rest)
               | _ \<Rightarrow>
                   (case WriteAll deadline p rest of
                      (r, bs, polls, rest') \<Rightarrow> (r, bs, poll_timeout_arg deadline now # polls, rest')))
        | Send_EPIPE \<Rightarrow> (Some PEER_CLOSED, [], [], rest)
        | Send_zero \<Rightarrow> (Some SEND_FAILED, [], [], rest)
        | Send_error \<Rightarrow> (Some SEND_FAILED, [], [], rest))"

section \<open>The read loop\<close>

text \<open>
  The answer to one \<open>recv\<close>. \<open>Got k\<close>: the kernel delivers \<open>k + 1\<close> bytes, or fewer if fewer are asked
  for or have arrived; at least one has arrived. \<open>Recv_EOF\<close> is the answer 0.
\<close>

datatype RecvAnswer = Got nat | Recv_EOF | Recv_EINTR | Recv_EAGAIN nsec PollAnswer | Recv_error

text \<open>The result, the bytes read, what is left of the stream, and the rest of the script.\<close>

fun ReadAll ::
  "nsec \<Rightarrow> nat \<Rightarrow> u8 list \<Rightarrow> RecvAnswer list \<Rightarrow>
   IpcError option \<times> u8 list \<times> u8 list \<times> RecvAnswer list" where
  "ReadAll deadline remaining stream [] =
     (if remaining = 0 then Some Ipc_SUCCESS else None, [], stream, [])"
| "ReadAll deadline remaining stream (answer # rest) =
     (if remaining = 0 then (Some Ipc_SUCCESS, [], stream, answer # rest)
      else
        case answer of
          Got k \<Rightarrow>
            if stream = [] then (None, [], stream, [])
            else
              (let n = min (k + 1) (min remaining (length stream)) in
               case ReadAll deadline (remaining - n) (drop n stream) rest of
                 (r, bs, stream', rest') \<Rightarrow> (r, take n stream @ bs, stream', rest'))
        | Recv_EOF \<Rightarrow> (Some PEER_CLOSED, [], stream, rest)
        | Recv_EINTR \<Rightarrow> ReadAll deadline remaining stream rest
        | Recv_EAGAIN now poll_answer \<Rightarrow>
            if now \<ge> deadline then (Some TIMEOUT, [], stream, rest)
            else
              (case poll_answer of
                 Poll_timeout \<Rightarrow> (Some TIMEOUT, [], stream, rest)
               | Poll_error \<Rightarrow> (Some RECEIVE_FAILED, [], stream, rest)
               | _ \<Rightarrow> ReadAll deadline remaining stream rest)
        | Recv_error \<Rightarrow> (Some RECEIVE_FAILED, [], stream, rest))"

section \<open>The socket\<close>

definition IpcSocket_new :: IpcSocket where
  "IpcSocket_new = \<lparr>sock_fd = -1\<rparr>"

definition IpcSocket_of_fd :: "int \<Rightarrow> IpcSocket" where
  "IpcSocket_of_fd fd = \<lparr>sock_fd = fd\<rparr>"

definition IpcSocket_IsValid :: "IpcSocket \<Rightarrow> bool" where
  "IpcSocket_IsValid s \<longleftrightarrow> sock_fd s \<ge> 0"

definition IpcSocket_Fd :: "IpcSocket \<Rightarrow> int" where
  "IpcSocket_Fd s = sock_fd s"

text \<open>\<open>Close\<close>: the descriptors the process still has open, and the socket. The destructor is the same.\<close>

definition IpcSocket_Close :: "int set \<Rightarrow> IpcSocket \<Rightarrow> int set \<times> IpcSocket" where
  "IpcSocket_Close fds s =
     (if sock_fd s \<ge> 0 then (fds - {sock_fd s}, s\<lparr>sock_fd := -1\<rparr>) else (fds, s))"

definition IpcSocket_destroy :: "int set \<Rightarrow> IpcSocket \<Rightarrow> int set" where
  "IpcSocket_destroy fds s = fst (IpcSocket_Close fds s)"

text \<open>Move construction: the new socket and what is left of the old one; move assignment, where
  \<open>same\<close> says that both operands are one object (which keeps its descriptor).\<close>

definition IpcSocket_move :: "IpcSocket \<Rightarrow> IpcSocket \<times> IpcSocket" where
  "IpcSocket_move other = (\<lparr>sock_fd = sock_fd other\<rparr>, other\<lparr>sock_fd := -1\<rparr>)"

definition IpcSocket_assign ::
  "bool \<Rightarrow> int set \<Rightarrow> IpcSocket \<Rightarrow> IpcSocket \<Rightarrow> int set \<times> IpcSocket \<times> IpcSocket" where
  "IpcSocket_assign same fds this other =
     (if same then (fds, this, other)
      else
        let (fds1, this1) = IpcSocket_Close fds this
        in (fds1, this1\<lparr>sock_fd := sock_fd other\<rparr>, other\<lparr>sock_fd := -1\<rparr>))"

text \<open>
  \<open>Send\<close>: \<open>data\<close> is \<open>None\<close> for a null pointer. The result and the bytes handed to the kernel. Once the
  deadline is known, the header and the payload are written.
\<close>

definition send_message ::
  "nsec \<Rightarrow> SendAnswer list \<Rightarrow> u8 list option \<Rightarrow> nat \<Rightarrow> IpcError option \<times> u8 list" where
  "send_message deadline script data sz =
     (case WriteAll deadline (EncodeHeader (of_nat sz)) script of
        (r, bs, polls, script1) \<Rightarrow>
          if r \<noteq> Some Ipc_SUCCESS then (r, bs)
          else if sz > 0 then
            (case WriteAll deadline (take sz (case data of Some d \<Rightarrow> d | None \<Rightarrow> [])) script1 of
               (r2, bs2, polls2, script2) \<Rightarrow> (r2, bs @ bs2))
          else (Some Ipc_SUCCESS, bs))"

definition IpcSocket_Send ::
  "nsec \<Rightarrow> SendAnswer list \<Rightarrow> u8 list option \<Rightarrow> nat \<Rightarrow> msec \<Rightarrow> IpcSocket \<Rightarrow> IpcError option \<times> u8 list" where
  "IpcSocket_Send now script data sz timeout s =
     (if sock_fd s < 0 then (Some NOT_CONNECTED, [])
      else if sz > kIpcMaxMessageSize then (Some MESSAGE_TOO_LARGE, [])
      else if sz > 0 \<and> data = None then (Some Ipc_INVALID_ARGUMENT, [])
      else send_message (now + ns_of_ms timeout) script data sz)"

definition IpcSocket_Send_bytes ::
  "nsec \<Rightarrow> SendAnswer list \<Rightarrow> u8 list \<Rightarrow> msec \<Rightarrow> IpcSocket \<Rightarrow> IpcError option \<times> u8 list" where
  "IpcSocket_Send_bytes now script payload timeout s =
     IpcSocket_Send now script (Some payload) (length payload) timeout s"

definition IpcSocket_Send_text ::
  "nsec \<Rightarrow> SendAnswer list \<Rightarrow> string \<Rightarrow> msec \<Rightarrow> IpcSocket \<Rightarrow> IpcError option \<times> u8 list" where
  "IpcSocket_Send_text now script text_arg timeout s =
     IpcSocket_Send now script (Some (string_bytes text_arg)) (length text_arg) timeout s"

text \<open>\<open>Recv\<close>: the result, the new value of \<open>out_payload\<close> and what is left of the stream.\<close>

definition recv_message ::
  "nsec \<Rightarrow> RecvAnswer list \<Rightarrow> u8 list \<Rightarrow> u8 list \<Rightarrow> IpcError option \<times> u8 list \<times> u8 list" where
  "recv_message deadline script out_payload stream =
     (case ReadAll deadline kIpcFrameHeaderSize stream script of
        (r, header, stream1, script1) \<Rightarrow>
          if r \<noteq> Some Ipc_SUCCESS then (r, out_payload, stream1)
          else
            let len = unat (DecodeHeader header) in
            if len > kIpcMaxMessageSize then (Some MESSAGE_TOO_LARGE, out_payload, stream1)
            else if len > 0 then
              (case ReadAll deadline len stream1 script1 of
                 (r2, buffer, stream2, script2) \<Rightarrow>
                   if r2 \<noteq> Some Ipc_SUCCESS then (r2, out_payload, stream2)
                   else (Some Ipc_SUCCESS, buffer, stream2))
            else (Some Ipc_SUCCESS, [], stream1))"

definition IpcSocket_Recv ::
  "nsec \<Rightarrow> RecvAnswer list \<Rightarrow> msec \<Rightarrow> u8 list \<Rightarrow> u8 list \<Rightarrow> IpcSocket \<Rightarrow>
   IpcError option \<times> u8 list \<times> u8 list" where
  "IpcSocket_Recv now script timeout out_payload stream s =
     (if sock_fd s < 0 then (Some NOT_CONNECTED, out_payload, stream)
      else recv_message (now + ns_of_ms timeout) script out_payload stream)"

section \<open>Lemmas\<close>

lemma header_byte_bit:
  "bit (push_bit k (ucast (ucast (drop_bit k len AND 0xFF) :: u8) :: u32)) n \<longleftrightarrow>
    k \<le> n \<and> n < k + 8 \<and> n < 32 \<and> bit len n" for len :: u32
proof -
  have m: "(0xFF :: u32) = mask 8" by (simp add: mask_eq_exp_minus_1)
  show ?thesis unfolding m by (auto simp: bit_simps)
qed

lemma header_low_bit: "bit (ucast (ucast (len AND 0xFF) :: u8) :: u32) n \<longleftrightarrow> n < 8 \<and> bit len n" for len :: u32
  using header_byte_bit [of 0 len n] by (auto dest: bit_imp_le_length)

lemma decode_encode: "DecodeHeader (EncodeHeader len) = len"
proof (rule bit_word_eqI)
  fix n assume n: "n < LENGTH(32)"
  then consider "n < 8" | "8 \<le> n" "n < 16" | "16 \<le> n" "n < 24" | "24 \<le> n" "n < 32" by fastforce
  then show "bit (DecodeHeader (EncodeHeader len)) n = bit len n"
    by cases (simp_all add: DecodeHeader_def EncodeHeader_def bit_or_iff header_byte_bit header_low_bit)
qed

lemma length_EncodeHeader [simp]: "length (EncodeHeader len) = 4"
  by (simp add: EncodeHeader_def)

definition frame :: "u8 list \<Rightarrow> u8 list" where
  "frame payload = EncodeHeader (of_nat (length payload)) @ payload"

text \<open>Whatever the kernel does, the bytes written are a prefix, complete exactly on success.\<close>

lemma write_prefix:
  assumes "WriteAll deadline p script = (r, bs, polls, rest)"
  shows "(\<exists>zs. p = bs @ zs) \<and> (r = Some Ipc_SUCCESS \<longleftrightarrow> bs = p)"
  using assms
proof (induction script arbitrary: p r bs polls rest)
  case (Cons a script)
  show ?case
  proof (cases "p = []")
    case False
    show ?thesis
    proof (cases a)
      case (Sent k)
      obtain r1 bs1 polls1 rest1 where w: "WriteAll deadline (drop (k + 1) p) script = (r1, bs1, polls1, rest1)"
        by (metis prod_cases4)
      with Cons.prems False Sent have e: "r = r1" "bs = take (k + 1) p @ bs1" by auto
      from Cons.IH [OF w] obtain zs where z: "drop (k + 1) p = bs1 @ zs"
        "r1 = Some Ipc_SUCCESS \<longleftrightarrow> bs1 = drop (k + 1) p" by blast
      have "p = bs @ zs" using z(1) e(2) by (metis append_assoc append_take_drop_id)
      moreover have "bs = p \<longleftrightarrow> bs1 = drop (k + 1) p"
        unfolding e(2) by (metis append_take_drop_id same_append_eq)
      ultimately show ?thesis using z(2) e(1) by blast
    next
      case (Send_EAGAIN now pa)
      then show ?thesis
        using Cons.prems False by (cases pa) (auto split: if_splits prod.splits dest: Cons.IH)
    qed (use Cons.prems False Cons.IH in auto)
  qed (use Cons.prems in auto)
qed (auto split: if_splits)

lemma read_splits:
  assumes "ReadAll deadline n stream script = (r, bs, stream', rest)"
  shows "stream = bs @ stream' \<and> length bs \<le> n \<and> (r = Some Ipc_SUCCESS \<longleftrightarrow> length bs = n)"
  using assms
proof (induction script arbitrary: n stream r bs stream' rest)
  case (Cons a script)
  show ?case
  proof (cases "n = 0")
    case False
    show ?thesis
    proof (cases a)
      case (Got k)
      show ?thesis
      proof (cases "stream = []")
        case ne: False
        define m where "m = min (k + 1) (min n (length stream))"
        obtain r1 bs1 st1 rest1 where w: "ReadAll deadline (n - m) (drop m stream) script = (r1, bs1, st1, rest1)"
          by (metis prod_cases4)
        with Cons.prems False ne Got m_def have e: "r = r1" "bs = take m stream @ bs1" "stream' = st1"
          by (auto simp: Let_def)
        have m: "m \<le> n" "m \<le> length stream" by (auto simp: m_def)
        note IH = Cons.IH [OF w]
        have "stream = take m stream @ bs1 @ st1" using IH by (metis append_take_drop_id)
        with IH m e show ?thesis by auto
      qed (use Cons.prems False Got in auto)
    next
      case (Recv_EAGAIN now pa)
      then show ?thesis
        using Cons.prems False by (cases pa) (auto split: if_splits dest: Cons.IH)
    qed (use Cons.prems False Cons.IH in auto)
  qed (use Cons.prems in auto)
qed (auto split: if_splits)

text \<open>Scripts in which the kernel makes progress and the deadline is not reached.\<close>

fun send_goes_on :: "nsec \<Rightarrow> SendAnswer \<Rightarrow> bool" where
  "send_goes_on deadline (Sent k) = True"
| "send_goes_on deadline Send_EINTR = True"
| "send_goes_on deadline (Send_EAGAIN now a) \<longleftrightarrow> now < deadline \<and> (a = Poll_ready \<or> a = Poll_EINTR)"
| "send_goes_on deadline _ = False"

fun recv_goes_on :: "nsec \<Rightarrow> RecvAnswer \<Rightarrow> bool" where
  "recv_goes_on deadline (Got k) = True"
| "recv_goes_on deadline Recv_EINTR = True"
| "recv_goes_on deadline (Recv_EAGAIN now a) \<longleftrightarrow> now < deadline \<and> (a = Poll_ready \<or> a = Poll_EINTR)"
| "recv_goes_on deadline _ = False"

fun is_sent :: "SendAnswer \<Rightarrow> bool" where
  "is_sent (Sent k) = True"
| "is_sent _ = False"

fun is_got :: "RecvAnswer \<Rightarrow> bool" where
  "is_got (Got k) = True"
| "is_got _ = False"

lemma write_completes:
  assumes "list_all (send_goes_on deadline) script" "length p \<le> length (filter is_sent script)"
  shows "\<exists>polls rest. WriteAll deadline p script = (Some Ipc_SUCCESS, p, polls, rest) \<and>
    list_all (send_goes_on deadline) rest \<and> length (filter is_sent script) \<le> length (filter is_sent rest) + length p"
  using assms
proof (induction script arbitrary: p)
  case (Cons a script)
  show ?case
  proof (cases "p = []")
    case False
    show ?thesis
    proof (cases a)
      case (Sent k)
      with Cons.prems False have "list_all (send_goes_on deadline) script"
        "length (drop (k + 1) p) \<le> length (filter is_sent script)" by auto
      from Cons.IH [OF this] obtain polls rest where w: "WriteAll deadline (drop (k + 1) p) script =
          (Some Ipc_SUCCESS, drop (k + 1) p, polls, rest)" "list_all (send_goes_on deadline) rest"
        "length (filter is_sent script) \<le> length (filter is_sent rest) + length (drop (k + 1) p)" by blast
      have "Suc (length (drop (k + 1) p)) \<le> length p" using False by (cases p) auto
      with w Sent False show ?thesis by (auto simp del: drop_Suc)
    next
      case (Send_EAGAIN now pa)
      with Cons.prems have "now < deadline" "pa = Poll_ready \<or> pa = Poll_EINTR"
        "list_all (send_goes_on deadline) script" "length p \<le> length (filter is_sent script)" by auto
      with Cons.IH [of p] Send_EAGAIN False show ?thesis by (auto split: prod.splits)
    qed (use Cons.prems Cons.IH False in auto)
  qed (use Cons.prems in auto)
qed auto

lemma read_completes:
  assumes "list_all (recv_goes_on deadline) script" "n \<le> length (filter is_got script)" "n \<le> length stream"
  shows "\<exists>bs st rest. ReadAll deadline n stream script = (Some Ipc_SUCCESS, bs, st, rest) \<and>
    list_all (recv_goes_on deadline) rest \<and> length (filter is_got script) \<le> length (filter is_got rest) + n"
  using assms
proof (induction script arbitrary: n stream)
  case (Cons a script)
  show ?case
  proof (cases "n = 0")
    case False
    show ?thesis
    proof (cases a)
      case (Got k)
      define m where "m = min (k + 1) (min n (length stream))"
      have m: "1 \<le> m" "m \<le> n" "m \<le> length stream" "stream \<noteq> []" using False Cons.prems by (auto simp: m_def)
      with Cons.prems Got have "list_all (recv_goes_on deadline) script"
        "n - m \<le> length (filter is_got script)" "n - m \<le> length (drop m stream)" by auto
      from Cons.IH [OF this] obtain bs st rest where w: "ReadAll deadline (n - m) (drop m stream) script =
          (Some Ipc_SUCCESS, bs, st, rest)" "list_all (recv_goes_on deadline) rest"
        "length (filter is_got script) \<le> length (filter is_got rest) + (n - m)" by blast
      have "ReadAll deadline n stream (a # script) = (Some Ipc_SUCCESS, take m stream @ bs, st, rest)"
        using Got False m w(1) by (simp add: m_def Let_def)
      with w m Got show ?thesis by auto
    next
      case (Recv_EAGAIN now pa)
      with Cons.prems have "now < deadline" "pa = Poll_ready \<or> pa = Poll_EINTR"
        "list_all (recv_goes_on deadline) script" "n \<le> length (filter is_got script)" by auto
      with Cons.IH [of n stream] Cons.prems(3) Recv_EAGAIN False show ?thesis by auto
    qed (use Cons.prems Cons.IH False in auto)
  qed (use Cons.prems in auto)
qed auto

lemma header_value: "length payload \<le> kIpcMaxMessageSize \<Longrightarrow>
    unat (DecodeHeader (EncodeHeader (of_nat (length payload)))) = length payload"
  by (simp add: decode_encode kIpcMaxMessageSize_def unat_of_nat take_bit_nat_eq_self)

text \<open>\<open>Send\<close> in terms of the frame.\<close>

lemma send_prefix:
  assumes "IpcSocket_IsValid s" "length payload \<le> kIpcMaxMessageSize"
    "IpcSocket_Send_bytes now script payload timeout s = (r, bs)"
  shows "(\<exists>zs. frame payload = bs @ zs) \<and> (r = Some Ipc_SUCCESS \<longleftrightarrow> bs = frame payload)"
proof -
  let ?d = "now + ns_of_ms timeout" and ?h = "EncodeHeader (of_nat (length payload))"
  obtain r1 bs1 polls1 rest1 where w1: "WriteAll ?d ?h script = (r1, bs1, polls1, rest1)" by (metis prod_cases4)
  note p1 = write_prefix [OF w1]
  show ?thesis
  proof (cases "r1 = Some Ipc_SUCCESS")
    case False
    with assms w1 have "r = r1" "bs = bs1"
      by (auto simp: IpcSocket_Send_bytes_def IpcSocket_Send_def send_message_def IpcSocket_IsValid_def Let_def split: if_splits)
    moreover have "bs1 \<noteq> frame payload"
      using p1 False by (auto simp: frame_def dest: arg_cong [of _ _ length])
    moreover have "\<exists>zs. frame payload = bs1 @ zs" using p1 unfolding frame_def by (metis append_assoc)
    ultimately show ?thesis using False by simp
  next
    case True
    obtain r2 bs2 polls2 rest2 where w2: "WriteAll ?d payload rest1 = (r2, bs2, polls2, rest2)" by (metis prod_cases4)
    note p2 = write_prefix [OF w2]
    have bs: "bs1 = ?h" using p1 True by blast
    show ?thesis
    proof (cases "payload = []")
      case e: True
      with assms w1 True have "r = Some Ipc_SUCCESS" "bs = bs1"
        by (auto simp: IpcSocket_Send_bytes_def IpcSocket_Send_def send_message_def IpcSocket_IsValid_def Let_def split: if_splits)
      with bs e show ?thesis by (simp add: frame_def)
    next
      case ne: False
      with assms w1 w2 True have "r = r2" "bs = bs1 @ bs2"
        by (auto simp: IpcSocket_Send_bytes_def IpcSocket_Send_def send_message_def IpcSocket_IsValid_def Let_def split: if_splits)
      with bs p2 show ?thesis by (auto simp: frame_def)
    qed
  qed
qed

lemma read_not_too_large:
  assumes "ReadAll deadline n stream script = (r, bs, stream', rest)"
  shows "r \<noteq> Some MESSAGE_TOO_LARGE"
  using assms
proof (induction script arbitrary: n stream bs)
  case (Cons a script)
  then show ?case
    by (cases a) (auto simp: Let_def split: if_splits PollAnswer.splits prod.splits)
qed (auto split: if_splits)

lemma recv_frame:
  assumes "IpcSocket_IsValid s" "length payload \<le> kIpcMaxMessageSize"
    "IpcSocket_Recv now script timeout out (frame payload @ later) s = (r, out', stream')"
  shows "(r = Some Ipc_SUCCESS \<longrightarrow> out' = payload \<and> stream' = later) \<and>
    (r \<noteq> Some Ipc_SUCCESS \<longrightarrow> out' = out) \<and> r \<noteq> Some MESSAGE_TOO_LARGE"
proof -
  let ?d = "now + ns_of_ms timeout" and ?h = "EncodeHeader (of_nat (length payload))"
  obtain r1 bs1 st1 rest1 where w1: "ReadAll ?d 4 (frame payload @ later) script = (r1, bs1, st1, rest1)"
    by (metis prod_cases4)
  note s1 = read_splits [OF w1]
  show ?thesis
  proof (cases "r1 = Some Ipc_SUCCESS")
    case False
    with assms w1 have "r = r1" "out' = out"
      by (auto simp: IpcSocket_Recv_def recv_message_def IpcSocket_IsValid_def kIpcFrameHeaderSize_def Let_def split: if_splits)
    then show ?thesis using False read_not_too_large [OF w1] by simp
  next
    case True
    then have "length bs1 = 4" "?h @ payload @ later = bs1 @ st1" using s1 by (auto simp: frame_def)
    then have h: "bs1 = ?h" "st1 = payload @ later" using append_eq_append_conv [of ?h bs1] by auto
    obtain r2 bs2 st2 rest2 where w2: "ReadAll ?d (length payload) st1 rest1 = (r2, bs2, st2, rest2)"
      by (metis prod_cases4)
    note s2 = read_splits [OF w2]
    show ?thesis
    proof (cases "payload = []")
      case e: True
      with assms w1 True h header_value [OF assms(2)] have "r = Some Ipc_SUCCESS" "out' = []" "stream' = st1"
        by (auto simp: IpcSocket_Recv_def recv_message_def IpcSocket_IsValid_def kIpcFrameHeaderSize_def Let_def split: if_splits)
      with e h show ?thesis by simp
    next
      case ne: False
      have "(r, out', stream') = (if r2 \<noteq> Some Ipc_SUCCESS then (r2, out, st2) else (Some Ipc_SUCCESS, bs2, st2))"
        using assms(1,2) ne unfolding assms(3) [symmetric]
        by (simp add: IpcSocket_Recv_def recv_message_def IpcSocket_IsValid_def kIpcFrameHeaderSize_def Let_def
            w1 [unfolded h True] w2 [unfolded h] header_value [OF assms(2)])
      moreover have "bs2 = payload \<and> st2 = later" if "r2 = Some Ipc_SUCCESS"
      proof -
        have "length bs2 = length payload" "bs2 @ st2 = payload @ later"
          using s2 that h(2) by metis+
        then show ?thesis by simp
      qed
      ultimately show ?thesis using read_not_too_large [OF w2] by (auto split: if_splits)
    qed
  qed
qed

section \<open>Properties\<close>

text \<open>The frame header is exact: decoding an encoded length gives it back, and encoding the
  value of any four bytes gives those bytes, so a header is four bytes, big-endian, and no two
  lengths share one.\<close>

theorem ipc_header_roundtrip:
  "DecodeHeader (EncodeHeader len) = len \<and> EncodeHeader (DecodeHeader [a, b, c, d]) = [a, b, c, d] \<and>
   length (EncodeHeader len) = kIpcFrameHeaderSize \<and> hd (EncodeHeader len) = ucast (drop_bit 24 len)"
proof -
  have m: "(0xFF :: u32) = mask 8" by (simp add: mask_eq_exp_minus_1)
  have high: "\<not> bit w n" if "8 \<le> n" for w :: u8 and n
    using that bit_imp_le_length [of w n] by auto
  have "EncodeHeader (DecodeHeader [a, b, c, d]) = [a, b, c, d]"
    unfolding EncodeHeader_def DecodeHeader_def m
    by (auto intro!: bit_word_eqI simp: bit_simps high)
  moreover have "hd (EncodeHeader len) = ucast (drop_bit 24 len)"
    unfolding EncodeHeader_def m by (auto intro!: bit_word_eqI simp: bit_simps)
  ultimately show ?thesis by (simp add: decode_encode kIpcFrameHeaderSize_def)
qed

text \<open>One sender's calls and one receiver's calls, each with its clock reading, script and timeout.\<close>

type_synonym send_call = "nsec \<times> SendAnswer list \<times> msec \<times> u8 list"
type_synonym recv_call = "nsec \<times> RecvAnswer list \<times> msec"

definition do_send :: "IpcSocket \<Rightarrow> send_call \<Rightarrow> IpcError option \<times> u8 list" where
  "do_send s c = (case c of (now, script, timeout, payload) \<Rightarrow> IpcSocket_Send_bytes now script payload timeout s)"

definition payload_of :: "send_call \<Rightarrow> u8 list" where
  "payload_of c = snd (snd (snd c))"

text \<open>Successive \<open>Recv\<close> calls: the messages and the rest of the stream, if all succeed.\<close>

fun recv_all :: "IpcSocket \<Rightarrow> recv_call list \<Rightarrow> u8 list \<Rightarrow> (u8 list list \<times> u8 list) option" where
  "recv_all s [] stream = Some ([], stream)"
| "recv_all s ((now, script, timeout) # cs) stream =
     (case IpcSocket_Recv now script timeout [] stream s of
        (r, out, stream') \<Rightarrow>
          if r \<noteq> Some Ipc_SUCCESS then None
          else map_option (\<lambda>(ms, rest). (out # ms, rest)) (recv_all s cs stream'))"

lemma send_success_size:
  assumes "IpcSocket_IsValid s" "fst (do_send s c) = Some Ipc_SUCCESS"
  shows "length (payload_of c) \<le> kIpcMaxMessageSize \<and> snd (do_send s c) = frame (payload_of c)"
proof -
  obtain now script timeout payload where c: "c = (now, script, timeout, payload)" by (metis prod_cases4)
  have "length payload \<le> kIpcMaxMessageSize"
    using assms by (auto simp: c do_send_def IpcSocket_Send_bytes_def IpcSocket_Send_def send_message_def split: if_splits)
  with send_prefix [OF assms(1) this, of now script timeout] assms(2) show ?thesis
    by (auto simp: c do_send_def payload_of_def prod_eq_iff)
qed

text \<open>C14: Framing survives any fragmentation: whatever piece sizes, interrupts and retries the
  kernel imposes on both sides, if a sequence of \<open>Send\<close> calls all succeed, then the peer's
  \<open>Recv\<close> calls that succeed return exactly these messages, whole, in order, and the same number of
  them empties the stream.\<close>

theorem ipc_messages_roundtrip:
  assumes "IpcSocket_IsValid a" "IpcSocket_IsValid b"
    and "list_all (\<lambda>c. fst (do_send a c) = Some Ipc_SUCCESS) sends"
    and "recv_all b recvs (concat (map (\<lambda>c. snd (do_send a c)) sends)) = Some (messages, rest)"
    and "length recvs = length sends"
  shows "messages = map payload_of sends \<and> rest = []"
  using assms(3-5)
proof (induction sends arbitrary: recvs messages)
  case (Cons c sends)
  obtain now script timeout cs where rc: "recvs = (now, script, timeout) # cs"
    using Cons.prems(3) by (cases recvs) auto
  have ok: "fst (do_send a c) = Some Ipc_SUCCESS" "list_all (\<lambda>c. fst (do_send a c) = Some Ipc_SUCCESS) sends"
    using Cons.prems(1) by auto
  note f = send_success_size [OF assms(1) ok(1)]
  let ?later = "concat (map (\<lambda>c. snd (do_send a c)) sends)"
  obtain r out st where r: "IpcSocket_Recv now script timeout [] (frame (payload_of c) @ ?later) b = (r, out, st)"
    by (metis prod_cases3)
  with Cons.prems(2) f rc have s: "r = Some Ipc_SUCCESS" by (auto split: if_splits)
  with recv_frame [OF assms(2) conjunct1 [OF f] r] have o: "out = payload_of c" "st = ?later" by auto
  from Cons.prems(2) f rc r s o obtain ms where ms: "recv_all b cs ?later = Some (ms, rest)" "messages = out # ms"
    by auto
  from Cons.IH [OF ok(2) ms(1)] Cons.prems(3) rc ms(2) o(1) show ?case by simp
qed (simp split: if_splits)

definition demo_socket :: IpcSocket where
  "demo_socket = \<lparr>sock_fd = 5\<rparr>"

theorem ipc_messages_roundtrip_witness:
  "recv_all demo_socket [(0, [Got 2, Recv_EINTR, Got 0, Got 9], 10), (0, [Got 3], 10)]
     (concat (map (\<lambda>c. snd (do_send demo_socket c))
       [(0, [Sent 1, Send_EINTR, Sent 7, Sent 0, Sent 0], 10, [7, 8]), (0, [Sent 9], 10, [])])) =
   Some ([[7, 8], []], [])"
proof -
  let ?sends = "[(0, [Sent 1, Send_EINTR, Sent 7, Sent 0, Sent 0], 10, [7, 8]), (0, [Sent 9], 10, [])] :: send_call list"
  let ?recvs = "[(0, [Got 2, Recv_EINTR, Got 0, Got 9], 10), (0, [Got 3], 10)] :: recv_call list"
  have v: "IpcSocket_IsValid demo_socket" by (simp add: IpcSocket_IsValid_def demo_socket_def)
  have s: "list_all (\<lambda>c. fst (do_send demo_socket c) = Some Ipc_SUCCESS) ?sends"
    by (simp add: do_send_def IpcSocket_Send_bytes_def IpcSocket_Send_def send_message_def demo_socket_def kIpcMaxMessageSize_def
        EncodeHeader_def ns_of_ms_def)
  have "recv_all demo_socket ?recvs (concat (map (\<lambda>c. snd (do_send demo_socket c)) ?sends)) \<noteq> None"
    by (simp add: do_send_def IpcSocket_Send_bytes_def IpcSocket_Send_def send_message_def demo_socket_def kIpcMaxMessageSize_def
        EncodeHeader_def DecodeHeader_def ns_of_ms_def IpcSocket_Recv_def recv_message_def kIpcFrameHeaderSize_def)
  then obtain ms rest where r: "recv_all demo_socket ?recvs (concat (map (\<lambda>c. snd (do_send demo_socket c)) ?sends)) =
      Some (ms, rest)" by auto
  from ipc_messages_roundtrip [OF v v s r] r show ?thesis by (simp add: payload_of_def)
qed

text \<open>C23: No stall without a cause: when the socket is valid, the message within the limit, the
  kernel keeps accepting and delivering at least one byte at a time, and no clock reading passes
  the deadline, \<open>Send\<close> returns \<open>SUCCESS\<close> with the whole frame written, and \<open>Recv\<close> on a stream that starts
  with that frame returns \<open>SUCCESS\<close> with the payload, leaving what follows untouched.\<close>

theorem ipc_send_recv_complete:
  assumes "IpcSocket_IsValid s" "length payload \<le> kIpcMaxMessageSize"
    and "list_all (send_goes_on (now + ns_of_ms timeout)) sends" "4 + length payload \<le> length (filter is_sent sends)"
    and "list_all (recv_goes_on (now + ns_of_ms timeout)) recvs" "4 + length payload \<le> length (filter is_got recvs)"
  shows "IpcSocket_Send_bytes now sends payload timeout s = (Some Ipc_SUCCESS, frame payload) \<and>
    IpcSocket_Recv now recvs timeout out (frame payload @ later) s = (Some Ipc_SUCCESS, payload, later)"
proof
  let ?d = "now + ns_of_ms timeout" and ?h = "EncodeHeader (of_nat (length payload))"
  obtain polls rest where w1: "WriteAll ?d ?h sends = (Some Ipc_SUCCESS, ?h, polls, rest)"
    "list_all (send_goes_on ?d) rest" "length (filter is_sent sends) \<le> length (filter is_sent rest) + 4"
    using write_completes [OF assms(3), of ?h] assms(4) by auto
  obtain polls2 rest2 where w2: "WriteAll ?d payload rest = (Some Ipc_SUCCESS, payload, polls2, rest2)"
    using write_completes [OF w1(2), of payload] w1(3) assms(4) by auto
  show "IpcSocket_Send_bytes now sends payload timeout s = (Some Ipc_SUCCESS, frame payload)"
    using assms(1,2) w1(1) w2
    by (simp add: IpcSocket_Send_bytes_def IpcSocket_Send_def send_message_def IpcSocket_IsValid_def Let_def frame_def)
  obtain bs st rest3 where r1: "ReadAll ?d 4 (frame payload @ later) recvs = (Some Ipc_SUCCESS, bs, st, rest3)"
    "list_all (recv_goes_on ?d) rest3" "length (filter is_got recvs) \<le> length (filter is_got rest3) + 4"
    using read_completes [OF assms(5), of 4 "frame payload @ later"] assms(6) by (auto simp: frame_def)
  have "length bs = 4" "frame payload @ later = bs @ st" using read_splits [OF r1(1)] by auto
  then have h: "bs = ?h" "st = payload @ later" using append_eq_append_conv [of ?h bs] by (auto simp: frame_def)
  obtain bs2 st2 rest4 where r2: "ReadAll ?d (length payload) st rest3 = (Some Ipc_SUCCESS, bs2, st2, rest4)"
    using read_completes [OF r1(2), of "length payload" st] r1(3) assms(6) h by auto
  have "fst (IpcSocket_Recv now recvs timeout out (frame payload @ later) s) = Some Ipc_SUCCESS"
    using assms(1,2) header_value [OF assms(2)]
    by (simp add: IpcSocket_Recv_def recv_message_def IpcSocket_IsValid_def kIpcFrameHeaderSize_def Let_def r1(1) h(1) r2)
  with recv_frame [OF assms(1,2), of now recvs timeout out later]
  show "IpcSocket_Recv now recvs timeout out (frame payload @ later) s = (Some Ipc_SUCCESS, payload, later)"
    by (metis prod.collapse)
qed

theorem ipc_send_recv_complete_witness:
  "IpcSocket_Send_bytes 0 [Sent 0, Sent 0, Sent 0, Sent 0, Sent 0, Sent 0] [1, 2] 10 demo_socket =
     (Some Ipc_SUCCESS, frame [1, 2]) \<and>
   IpcSocket_Recv 0 [Got 0, Got 0, Got 0, Got 0, Got 0, Got 0] 10 [] (frame [1, 2] @ [9]) demo_socket =
     (Some Ipc_SUCCESS, [1, 2], [9])"
  by (rule ipc_send_recv_complete)
    (simp_all add: IpcSocket_IsValid_def demo_socket_def kIpcMaxMessageSize_def)

text \<open>Text goes as its bytes: two texts put the same bytes on the wire, complete, only if they are
  equal.\<close>

lemma ipc_send_text_bytes:
  "IpcSocket_Send_text now script t timeout s = IpcSocket_Send_bytes now script (string_bytes t) timeout s"
  by (simp add: IpcSocket_Send_text_def IpcSocket_Send_bytes_def)

lemma ipc_text_injective:
  assumes "IpcSocket_Send_text now a t timeout s = (Some Ipc_SUCCESS, bs)"
    and "IpcSocket_Send_text now' b u timeout' s = (Some Ipc_SUCCESS, bs)"
    and "IpcSocket_IsValid s"
  shows "t = u"
proof -
  have "bs = frame (string_bytes t)" "bs = frame (string_bytes u)"
    using assms send_success_size [OF assms(3), of "(now, a, timeout, string_bytes t)"]
      send_success_size [OF assms(3), of "(now', b, timeout', string_bytes u)"]
    by (simp_all add: ipc_send_text_bytes do_send_def payload_of_def)
  then show ?thesis by (auto simp: frame_def append_eq_append_conv string_bytes_inj)
qed

text \<open>Ownership: a move hands the descriptor over, and move assignment closes only what the target
  held before.\<close>

lemma ipc_move_ownership:
  "IpcSocket_move s = (s', t) \<Longrightarrow> sock_fd s' = sock_fd s \<and> \<not> IpcSocket_IsValid t"
  "IpcSocket_assign same fds this other = (fds', this', other') \<Longrightarrow>
    (if same then (fds', this', other') = (fds, this, other)
     else sock_fd this' = sock_fd other \<and> \<not> IpcSocket_IsValid other' \<and>
       fds' = (if IpcSocket_IsValid this then fds - {sock_fd this} else fds))"
  by (auto simp: IpcSocket_move_def IpcSocket_assign_def IpcSocket_Close_def IpcSocket_IsValid_def
      split: if_splits)

text \<open>A failed \<open>Send\<close> is not undone: what reaches the wire is always a prefix of the frame, the
  whole frame exactly on success; but after a timeout in the middle of a frame the connection
  stays usable, and the next successful \<open>Send\<close> makes the peer receive a message nobody sent.\<close>

theorem ipc_partial_send_desynchronises:
  "(if IpcSocket_IsValid s \<and> length payload \<le> kIpcMaxMessageSize
    then \<exists>r bs zs. IpcSocket_Send_bytes now script payload timeout s = (r, bs) \<and> frame payload = bs @ zs \<and>
      (r = Some Ipc_SUCCESS \<longleftrightarrow> bs = frame payload)
    else snd (IpcSocket_Send_bytes now script payload timeout s) = []) \<and>
   (let first = IpcSocket_Send_bytes 0 [Sent 4, Sent 0, Send_EAGAIN 99000000 Poll_ready] [1, 2, 3] 10 demo_socket;
        second = IpcSocket_Send_bytes 0 [Sent 4, Sent 0] [9] 10 demo_socket
    in fst first = Some TIMEOUT \<and> fst second = Some Ipc_SUCCESS \<and>
      IpcSocket_Recv 0 [Got 3, Got 2] 10 [] (snd first @ snd second) demo_socket = (Some Ipc_SUCCESS, [1, 0, 0], [0, 1, 9]))"
proof (intro conjI)
  show "if IpcSocket_IsValid s \<and> length payload \<le> kIpcMaxMessageSize
    then \<exists>r bs zs. IpcSocket_Send_bytes now script payload timeout s = (r, bs) \<and> frame payload = bs @ zs \<and>
      (r = Some Ipc_SUCCESS \<longleftrightarrow> bs = frame payload)
    else snd (IpcSocket_Send_bytes now script payload timeout s) = []"
  proof (cases "IpcSocket_IsValid s \<and> length payload \<le> kIpcMaxMessageSize")
    case True
    obtain r bs where r: "IpcSocket_Send_bytes now script payload timeout s = (r, bs)" by (metis surj_pair)
    from send_prefix [OF conjunct1 [OF True] conjunct2 [OF True] r] r True show ?thesis by simp
  next
    case False
    then show ?thesis by (auto simp: IpcSocket_Send_bytes_def IpcSocket_Send_def send_message_def IpcSocket_IsValid_def)
  qed
qed (simp add: IpcSocket_Send_bytes_def IpcSocket_Send_def send_message_def IpcSocket_Recv_def recv_message_def demo_socket_def kIpcMaxMessageSize_def
    EncodeHeader_def DecodeHeader_def ns_of_ms_def kIpcFrameHeaderSize_def Let_def)

text \<open>The deadline reaches \<open>poll\<close> intact up to the width of its argument: a remaining time below
  \<open>2 ^ 31\<close> milliseconds is passed as the whole number of milliseconds left, never more than the time
  left and less than one millisecond short of it; from \<open>2 ^ 31\<close> up to \<open>2 ^ 32\<close> milliseconds the cast
  makes it negative, which tells \<open>poll\<close> to wait without limit.\<close>

theorem ipc_poll_argument:
  assumes "now < deadline"
  shows "((deadline - now) div 1000000 < 2 ^ 31 \<longrightarrow>
      0 \<le> poll_timeout_arg deadline now \<and> ns_of_ms (poll_timeout_arg deadline now) \<le> deadline - now \<and>
      deadline - now < ns_of_ms (poll_timeout_arg deadline now + 1)) \<and>
    (2 ^ 31 \<le> (deadline - now) div 1000000 \<and> (deadline - now) div 1000000 < 2 ^ 32 \<longrightarrow>
      poll_timeout_arg deadline now < 0)"
proof -
  define ms where "ms = (deadline - now) div 1000000"
  have "0 \<le> ms" using assms by (simp add: ms_def pos_imp_zdiv_nonneg_iff)
  moreover have "ms * 1000000 \<le> deadline - now \<and> deadline - now < (ms + 1) * 1000000"
    unfolding ms_def by (simp add: mult.commute) linarith
  ultimately show ?thesis
    unfolding poll_timeout_arg_def ms_def [symmetric] by (auto simp: int_cast_small int_cast_wrap ns_of_ms_def)
qed

theorem ipc_poll_argument_witness:
  "poll_timeout_arg 2147483648000000 0 < 0 \<and> poll_timeout_arg 5999999 0 = 5"
  using ipc_poll_argument [of 0 2147483648000000] ipc_poll_argument [of 0 5999999]
  by (simp add: ns_of_ms_def)

end
