(* ===== verification/Ipc_Endpoints.thy ===== *)
theory Ipc_Endpoints
  imports Ipc_Socket
begin

text \<open>
  \<open>framework/ipc\<close>, the two endpoints: \<open>IpcServer\<close> with its lock file and socket file, and \<open>IpcClient\<close>
  with its retry loop. The process's open descriptors, the advisory locks they hold and the
  socket files are a world that every system call updates; whether a call succeeds, and which
  descriptor it returns, are inputs.
\<close>

section \<open>The world of descriptors, locks and socket files\<close>

text \<open>A socket file is marked \<open>True\<close> once its mode has been restricted.\<close>

record IpcWorld =
  open_fds :: "int set"
  flocks :: "int \<rightharpoonup> string"
  sock_files :: "string \<rightharpoonup> bool"

definition sys_open_fd :: "int \<Rightarrow> IpcWorld \<Rightarrow> IpcWorld" where
  "sys_open_fd fd w = (if fd < 0 then w else w\<lparr>open_fds := insert fd (open_fds w)\<rparr>)"

definition sys_close_fd :: "int \<Rightarrow> IpcWorld \<Rightarrow> IpcWorld" where
  "sys_close_fd fd w = w\<lparr>open_fds := open_fds w - {fd}, flocks := (flocks w)(fd := None)\<rparr>"

definition sys_flock :: "int \<Rightarrow> string \<Rightarrow> IpcWorld \<Rightarrow> IpcWorld" where
  "sys_flock fd path w = w\<lparr>flocks := (flocks w)(fd \<mapsto> path)\<rparr>"

definition sys_funlock :: "int \<Rightarrow> IpcWorld \<Rightarrow> IpcWorld" where
  "sys_funlock fd w = w\<lparr>flocks := (flocks w)(fd := None)\<rparr>"

definition sys_unlink :: "string \<Rightarrow> IpcWorld \<Rightarrow> IpcWorld" where
  "sys_unlink path w = w\<lparr>sock_files := (sock_files w)(path := None)\<rparr>"

definition sys_bind :: "string \<Rightarrow> IpcWorld \<Rightarrow> IpcWorld" where
  "sys_bind path w = w\<lparr>sock_files := (sock_files w)(path \<mapsto> False)\<rparr>"

definition sys_chmod :: "string \<Rightarrow> IpcWorld \<Rightarrow> IpcWorld" where
  "sys_chmod path w =
     (if path \<in> dom (sock_files w) then w\<lparr>sock_files := (sock_files w)(path \<mapsto> True)\<rparr> else w)"

text \<open>\<open>sockaddr_un\<close> holds 108 bytes; the last one stays zero.\<close>

definition sun_path :: "string \<Rightarrow> string" where
  "sun_path path = take (108 - 1) path"

text \<open>The results of the two \<open>fcntl\<close> calls, \<open>F_GETFL\<close> and \<open>F_SETFL\<close>.\<close>

definition SetNonBlocking :: "int \<times> int \<Rightarrow> bool" where
  "SetNonBlocking r = (if fst r < 0 then False else snd r = 0)"

section \<open>Server\<close>

record IpcServer =
  listen_fd :: int
  lock_fd :: int
  socket_path :: string
  client :: IpcSocket
  srv_running :: bool

definition IpcServer_new :: IpcServer where
  "IpcServer_new = \<lparr>listen_fd = -1, lock_fd = -1, socket_path = [], client = IpcSocket_new, srv_running = False\<rparr>"

text \<open>The answers of the system calls of \<open>Start\<close>, in order; \<open>start_errno_wouldblock\<close> is what \<open>errno\<close>
  holds when it is read, after the \<open>close\<close>.\<close>

record StartIO =
  start_lock_fd :: int
  start_flock_ok :: bool
  start_errno_wouldblock :: bool
  start_socket_fd :: int
  start_bind_ok :: bool
  start_listen_ok :: bool
  start_fcntl :: "int \<times> int"

definition IpcServer_Start ::
  "StartIO \<Rightarrow> string \<Rightarrow> IpcServer \<Rightarrow> IpcWorld \<Rightarrow> IpcError \<times> IpcServer \<times> IpcWorld" where
  "IpcServer_Start io path s w =
     (if path = [] then (Ipc_INVALID_ARGUMENT, s, w)
      else if srv_running s then (Ipc_ALREADY_RUNNING, s, w)
      else
        let lock_path = path @ ''.lock'';
            lfd = start_lock_fd io;
            w1 = sys_open_fd lfd w in
        if lfd < 0 then (SOCKET_CREATION_FAILED, s, w1)
        else if \<not> start_flock_ok io then
          (if start_errno_wouldblock io then Ipc_ALREADY_RUNNING else BIND_FAILED, s, sys_close_fd lfd w1)
        else
          let w2 = sys_unlink path (sys_flock lfd lock_path w1);
              sfd = start_socket_fd io;
              w3 = sys_open_fd sfd w2 in
          if sfd < 0 then (SOCKET_CREATION_FAILED, s, sys_close_fd lfd (sys_funlock lfd w3))
          else if \<not> start_bind_ok io then
            (BIND_FAILED, s, sys_close_fd lfd (sys_funlock lfd (sys_close_fd sfd w3)))
          else
            let w4 = sys_chmod path (sys_bind (sun_path path) w3) in
            if \<not> start_listen_ok io then
              (LISTEN_FAILED, s, sys_close_fd lfd (sys_funlock lfd (sys_unlink path (sys_close_fd sfd w4))))
            else if \<not> SetNonBlocking (start_fcntl io) then
              (SOCKET_CREATION_FAILED, s,
               sys_close_fd lfd (sys_funlock lfd (sys_unlink path (sys_close_fd sfd w4))))
            else
              (Ipc_SUCCESS,
               s\<lparr>listen_fd := sfd, lock_fd := lfd, socket_path := path, srv_running := True\<rparr>, w4))"

text \<open>\<open>Accept\<close>: the answers of \<open>poll\<close>, \<open>accept\<close> and the two \<open>fcntl\<close> calls.\<close>

record AcceptIO =
  accept_poll :: PollAnswer
  accept_fd :: int
  accept_fcntl :: "int \<times> int"

definition IpcServer_Accept ::
  "AcceptIO \<Rightarrow> IpcServer \<Rightarrow> IpcWorld \<Rightarrow> IpcError \<times> IpcServer \<times> IpcWorld" where
  "IpcServer_Accept io s w =
     (if \<not> srv_running s then (NOT_CONNECTED, s, w)
      else if IpcSocket_IsValid (client s) then (ALREADY_CONNECTED, s, w)
      else
        case accept_poll io of
          Poll_timeout \<Rightarrow> (TIMEOUT, s, w)
        | Poll_EINTR \<Rightarrow> (TIMEOUT, s, w)
        | Poll_error \<Rightarrow> (RECEIVE_FAILED, s, w)
        | Poll_ready \<Rightarrow>
            let w1 = sys_open_fd (accept_fd io) w in
            if accept_fd io < 0 then (RECEIVE_FAILED, s, w1)
            else if \<not> SetNonBlocking (accept_fcntl io) then (RECEIVE_FAILED, s, sys_close_fd (accept_fd io) w1)
            else (Ipc_SUCCESS, s\<lparr>client := IpcSocket_of_fd (accept_fd io)\<rparr>, w1))"

definition IpcServer_Send ::
  "nsec \<Rightarrow> SendAnswer list \<Rightarrow> u8 list option \<Rightarrow> nat \<Rightarrow> msec \<Rightarrow> IpcServer \<Rightarrow> IpcError option \<times> u8 list" where
  "IpcServer_Send now script data sz timeout s =
     (if \<not> IpcSocket_IsValid (client s) then (Some NOT_CONNECTED, [])
      else IpcSocket_Send now script data sz timeout (client s))"

definition IpcServer_Send_bytes ::
  "nsec \<Rightarrow> SendAnswer list \<Rightarrow> u8 list \<Rightarrow> msec \<Rightarrow> IpcServer \<Rightarrow> IpcError option \<times> u8 list" where
  "IpcServer_Send_bytes now script payload timeout s =
     (if \<not> IpcSocket_IsValid (client s) then (Some NOT_CONNECTED, [])
      else IpcSocket_Send_bytes now script payload timeout (client s))"

definition IpcServer_Send_text ::
  "nsec \<Rightarrow> SendAnswer list \<Rightarrow> string \<Rightarrow> msec \<Rightarrow> IpcServer \<Rightarrow> IpcError option \<times> u8 list" where
  "IpcServer_Send_text now script text_arg timeout s =
     (if \<not> IpcSocket_IsValid (client s) then (Some NOT_CONNECTED, [])
      else IpcSocket_Send_text now script text_arg timeout (client s))"

definition IpcServer_Recv ::
  "nsec \<Rightarrow> RecvAnswer list \<Rightarrow> msec \<Rightarrow> u8 list \<Rightarrow> u8 list \<Rightarrow> IpcServer \<Rightarrow> IpcError option \<times> u8 list \<times> u8 list" where
  "IpcServer_Recv now script timeout out stream s =
     (if \<not> IpcSocket_IsValid (client s) then (Some NOT_CONNECTED, out, stream)
      else IpcSocket_Recv now script timeout out stream (client s))"

definition close_socket :: "IpcSocket \<Rightarrow> IpcWorld \<Rightarrow> IpcSocket \<times> IpcWorld" where
  "close_socket s w = (if sock_fd s \<ge> 0 then (s\<lparr>sock_fd := -1\<rparr>, sys_close_fd (sock_fd s) w) else (s, w))"

definition IpcServer_Disconnect :: "IpcServer \<Rightarrow> IpcWorld \<Rightarrow> IpcServer \<times> IpcWorld" where
  "IpcServer_Disconnect s w = (let (c, w1) = close_socket (client s) w in (s\<lparr>client := c\<rparr>, w1))"

definition IpcServer_IsRunning :: "IpcServer \<Rightarrow> bool" where
  "IpcServer_IsRunning s = srv_running s"

definition IpcServer_HasClient :: "IpcServer \<Rightarrow> bool" where
  "IpcServer_HasClient s = IpcSocket_IsValid (client s)"

text \<open>\<open>Stop\<close>, which is also the destructor.\<close>

definition IpcServer_Stop :: "IpcServer \<Rightarrow> IpcWorld \<Rightarrow> IpcServer \<times> IpcWorld" where
  "IpcServer_Stop s w =
     (let (c, w1) = close_socket (client s) w;
          s1 = s\<lparr>client := c\<rparr>;
          (s2, w2) = (if listen_fd s1 \<ge> 0 then (s1\<lparr>listen_fd := -1\<rparr>, sys_close_fd (listen_fd s1) w1) else (s1, w1));
          (s3, w3) = (if socket_path s2 \<noteq> [] then (s2\<lparr>socket_path := []\<rparr>, sys_unlink (socket_path s2) w2)
                      else (s2, w2));
          (s4, w4) = (if lock_fd s3 \<ge> 0
                      then (s3\<lparr>lock_fd := -1\<rparr>, sys_close_fd (lock_fd s3) (sys_funlock (lock_fd s3) w3))
                      else (s3, w3))
      in (s4\<lparr>srv_running := False\<rparr>, w4))"

section \<open>Client\<close>

record IpcClient =
  csocket :: IpcSocket

definition IpcClient_new :: IpcClient where
  "IpcClient_new = \<lparr>csocket = IpcSocket_new\<rparr>"

record ConnectIO =
  connect_fd :: int
  connect_ok :: bool
  connect_fcntl :: "int \<times> int"

definition IpcClient_Connect ::
  "ConnectIO \<Rightarrow> string \<Rightarrow> IpcClient \<Rightarrow> IpcWorld \<Rightarrow> IpcError \<times> IpcClient \<times> IpcWorld" where
  "IpcClient_Connect io path c w =
     (if path = [] then (Ipc_INVALID_ARGUMENT, c, w)
      else if IpcSocket_IsValid (csocket c) then (ALREADY_CONNECTED, c, w)
      else
        let fd = connect_fd io; w1 = sys_open_fd fd w in
        if fd < 0 then (SOCKET_CREATION_FAILED, c, w1)
        else if \<not> connect_ok io then (CONNECT_FAILED, c, sys_close_fd fd w1)
        else if \<not> SetNonBlocking (connect_fcntl io) then (SOCKET_CREATION_FAILED, c, sys_close_fd fd w1)
        else (Ipc_SUCCESS, c\<lparr>csocket := IpcSocket_of_fd fd\<rparr>, w1))"

text \<open>The retry loop: attempt \<open>i\<close> of \<open>i + n\<close>; \<open>io i\<close> are the answers it gets. The second component of
  the result is the list of sleeps.\<close>

fun retry_loop ::
  "(nat \<Rightarrow> ConnectIO) \<Rightarrow> string \<Rightarrow> msec \<Rightarrow> nat \<Rightarrow> nat \<Rightarrow> msec \<Rightarrow> IpcError \<Rightarrow> IpcClient \<Rightarrow> IpcWorld \<Rightarrow>
   IpcError \<times> msec list \<times> IpcClient \<times> IpcWorld" where
  "retry_loop io path max_delay i 0 delay last_error c w = (last_error, [], c, w)"
| "retry_loop io path max_delay i (Suc n) delay last_error c w =
     (case IpcClient_Connect (io i) path c w of
        (e, c1, w1) \<Rightarrow>
          if e = Ipc_SUCCESS then (Ipc_SUCCESS, [], c1, w1)
          else if n > 0 then
            (case retry_loop io path max_delay (i + 1) n (min (delay * 2) max_delay) e c1 w1 of
               (r, sleeps, c2, w2) \<Rightarrow> (r, delay # sleeps, c2, w2))
          else retry_loop io path max_delay (i + 1) n delay e c1 w1)"

definition IpcClient_ConnectWithRetry ::
  "(nat \<Rightarrow> ConnectIO) \<Rightarrow> string \<Rightarrow> int \<Rightarrow> msec \<Rightarrow> msec \<Rightarrow> IpcClient \<Rightarrow> IpcWorld \<Rightarrow>
   IpcError \<times> msec list \<times> IpcClient \<times> IpcWorld" where
  "IpcClient_ConnectWithRetry io path max_attempts initial_delay max_delay c w =
     (if max_attempts \<le> 0 then (Ipc_INVALID_ARGUMENT, [], c, w)
      else retry_loop io path max_delay 0 (nat max_attempts) initial_delay CONNECT_FAILED c w)"

definition IpcClient_Send ::
  "nsec \<Rightarrow> SendAnswer list \<Rightarrow> u8 list option \<Rightarrow> nat \<Rightarrow> msec \<Rightarrow> IpcClient \<Rightarrow> IpcError option \<times> u8 list" where
  "IpcClient_Send now script data sz timeout c = IpcSocket_Send now script data sz timeout (csocket c)"

definition IpcClient_Send_bytes ::
  "nsec \<Rightarrow> SendAnswer list \<Rightarrow> u8 list \<Rightarrow> msec \<Rightarrow> IpcClient \<Rightarrow> IpcError option \<times> u8 list" where
  "IpcClient_Send_bytes now script payload timeout c = IpcSocket_Send_bytes now script payload timeout (csocket c)"

definition IpcClient_Send_text ::
  "nsec \<Rightarrow> SendAnswer list \<Rightarrow> string \<Rightarrow> msec \<Rightarrow> IpcClient \<Rightarrow> IpcError option \<times> u8 list" where
  "IpcClient_Send_text now script text_arg timeout c = IpcSocket_Send_text now script text_arg timeout (csocket c)"

definition IpcClient_Recv ::
  "nsec \<Rightarrow> RecvAnswer list \<Rightarrow> msec \<Rightarrow> u8 list \<Rightarrow> u8 list \<Rightarrow> IpcClient \<Rightarrow> IpcError option \<times> u8 list \<times> u8 list" where
  "IpcClient_Recv now script timeout out stream c = IpcSocket_Recv now script timeout out stream (csocket c)"

definition IpcClient_Disconnect :: "IpcClient \<Rightarrow> IpcWorld \<Rightarrow> IpcClient \<times> IpcWorld" where
  "IpcClient_Disconnect c w = (let (s, w1) = close_socket (csocket c) w in (c\<lparr>csocket := s\<rparr>, w1))"

text \<open>The destructors; the \<open>IpcSocket\<close> member that is destroyed next is closed already.\<close>

definition IpcServer_destroy :: "IpcServer \<Rightarrow> IpcWorld \<Rightarrow> IpcWorld" where
  "IpcServer_destroy s w = snd (IpcServer_Stop s w)"

definition IpcClient_destroy :: "IpcClient \<Rightarrow> IpcWorld \<Rightarrow> IpcWorld" where
  "IpcClient_destroy c w = snd (IpcClient_Disconnect c w)"

definition IpcClient_IsConnected :: "IpcClient \<Rightarrow> bool" where
  "IpcClient_IsConnected c = IpcSocket_IsValid (csocket c)"

section \<open>Several servers\<close>

record IpcSys =
  servers :: "nat \<Rightarrow> IpcServer"
  world :: IpcWorld

text \<open>What the kernel guarantees: a new descriptor is not in use, and an exclusive lock is granted
  only when no other descriptor holds it.\<close>

definition start_contract :: "StartIO \<Rightarrow> string \<Rightarrow> IpcWorld \<Rightarrow> bool" where
  "start_contract io path w \<longleftrightarrow>
     start_lock_fd io \<notin> open_fds w \<and> start_socket_fd io \<notin> open_fds w \<and>
     (0 \<le> start_lock_fd io \<longrightarrow> start_socket_fd io \<noteq> start_lock_fd io) \<and>
     (start_flock_ok io \<longrightarrow> path @ ''.lock'' \<notin> ran (flocks w))"

inductive ipc_step :: "IpcSys \<Rightarrow> IpcSys \<Rightarrow> bool" where
  ipc_start: "start_contract io path (world s) \<Longrightarrow> IpcServer_Start io path (servers s i) (world s) = (e, v, w) \<Longrightarrow>
    ipc_step s (s\<lparr>servers := (servers s)(i := v), world := w\<rparr>)"
| ipc_accept: "accept_fd io \<notin> open_fds (world s) \<Longrightarrow> IpcServer_Accept io (servers s i) (world s) = (e, v, w) \<Longrightarrow>
    ipc_step s (s\<lparr>servers := (servers s)(i := v), world := w\<rparr>)"
| ipc_disconnect: "IpcServer_Disconnect (servers s i) (world s) = (v, w) \<Longrightarrow>
    ipc_step s (s\<lparr>servers := (servers s)(i := v), world := w\<rparr>)"
| ipc_stop: "IpcServer_Stop (servers s i) (world s) = (v, w) \<Longrightarrow>
    ipc_step s (s\<lparr>servers := (servers s)(i := v), world := w\<rparr>)"

definition ipc_init :: "int set \<Rightarrow> IpcSys \<Rightarrow> bool" where
  "ipc_init base s \<longleftrightarrow> servers s = (\<lambda>_. IpcServer_new) \<and> open_fds (world s) = base \<and> flocks (world s) = Map.empty"

section \<open>What the operations do to descriptors and locks\<close>

lemmas sys_defs = sys_open_fd_def sys_close_fd_def sys_flock_def sys_funlock_def sys_unlink_def sys_bind_def
  sys_chmod_def

definition owned :: "IpcServer \<Rightarrow> int set" where
  "owned v = {fd \<in> {listen_fd v, lock_fd v, sock_fd (client v)}. 0 \<le> fd}"

definition srv_ok :: "IpcServer \<Rightarrow> bool" where
  "srv_ok v \<longleftrightarrow> (srv_running v \<longleftrightarrow> 0 \<le> listen_fd v) \<and> (srv_running v \<longleftrightarrow> 0 \<le> lock_fd v) \<and>
     (0 \<le> sock_fd (client v) \<longrightarrow> srv_running v \<and> sock_fd (client v) \<noteq> listen_fd v \<and> sock_fd (client v) \<noteq> lock_fd v) \<and>
     (srv_running v \<longleftrightarrow> socket_path v \<noteq> []) \<and> (srv_running v \<longrightarrow> listen_fd v \<noteq> lock_fd v)"

lemma sys_proj [simp]:
  "open_fds (sys_open_fd fd w) = (if fd < 0 then open_fds w else insert fd (open_fds w))"
  "open_fds (sys_close_fd fd w) = open_fds w - {fd}" "open_fds (sys_flock fd p w) = open_fds w"
  "open_fds (sys_funlock fd w) = open_fds w" "open_fds (sys_unlink p w) = open_fds w"
  "open_fds (sys_bind p w) = open_fds w" "open_fds (sys_chmod p w) = open_fds w"
  "flocks (sys_open_fd fd w) = flocks w" "flocks (sys_close_fd fd w) = (flocks w)(fd := None)"
  "flocks (sys_flock fd p w) = (flocks w)(fd \<mapsto> p)" "flocks (sys_funlock fd w) = (flocks w)(fd := None)"
  "flocks (sys_unlink p w) = flocks w" "flocks (sys_bind p w) = flocks w" "flocks (sys_chmod p w) = flocks w"
  by (simp_all add: sys_defs)

lemma start_effect:
  assumes c: "start_contract io path w" "dom (flocks w) \<subseteq> open_fds w"
    and r: "IpcServer_Start io path v w = (e, v', w')"
  shows "if e = Ipc_SUCCESS
    then path \<noteq> [] \<and> \<not> srv_running v \<and> 0 \<le> start_lock_fd io \<and> 0 \<le> start_socket_fd io \<and> start_flock_ok io \<and>
      v' = v\<lparr>listen_fd := start_socket_fd io, lock_fd := start_lock_fd io, socket_path := path, srv_running := True\<rparr> \<and>
      open_fds w' = {start_lock_fd io, start_socket_fd io} \<union> open_fds w \<and>
      flocks w' = (flocks w)(start_lock_fd io \<mapsto> path @ ''.lock'')
    else v' = v \<and> open_fds w' = open_fds w \<and> flocks w' = flocks w"
proof -
  define l f where "l = start_lock_fd io" and "f = start_socket_fd io"
  have fresh: "flocks w l = None" "flocks w f = None" "l \<notin> open_fds w" "f \<notin> open_fds w" "0 \<le> l \<Longrightarrow> f \<noteq> l"
    using c by (auto simp: start_contract_def l_def f_def)
  have id: "(flocks w)(l := None) = flocks w" "(flocks w)(f := None) = flocks w"
    "open_fds w - {l} = open_fds w" "open_fds w - {f} = open_fds w"
    using fresh by (auto simp: fun_upd_idem_iff)
  note d = r [unfolded IpcServer_Start_def, folded l_def f_def, unfolded Let_def]
  consider (arg) "path = [] \<or> srv_running v" | (lock) "path \<noteq> []" "\<not> srv_running v" "l < 0"
    | (busy) "path \<noteq> []" "\<not> srv_running v" "0 \<le> l" "\<not> start_flock_ok io"
    | (sock) "path \<noteq> []" "\<not> srv_running v" "0 \<le> l" "start_flock_ok io" "f < 0"
    | (bind) "path \<noteq> []" "\<not> srv_running v" "0 \<le> l" "start_flock_ok io" "0 \<le> f" "\<not> start_bind_ok io"
    | (late) "path \<noteq> []" "\<not> srv_running v" "0 \<le> l" "start_flock_ok io" "0 \<le> f" "start_bind_ok io"
        "\<not> start_listen_ok io \<or> \<not> SetNonBlocking (start_fcntl io)"
    | (ok) "path \<noteq> []" "\<not> srv_running v" "0 \<le> l" "start_flock_ok io" "0 \<le> f" "start_bind_ok io"
        "start_listen_ok io" "SetNonBlocking (start_fcntl io)"
    by linarith
  then show ?thesis
  proof cases
    case arg
    with d show ?thesis by (auto split: if_splits)
  next
    case lock
    with d show ?thesis by (auto split: if_splits)
  next
    case busy
    with d have e: "e \<noteq> Ipc_SUCCESS" "v' = v" "w' = sys_close_fd l (sys_open_fd l w)" by (auto split: if_splits)
    show ?thesis using busy e(1,2) unfolding e(3) by (simp add: id)
  next
    case sock
    with d have e: "e \<noteq> Ipc_SUCCESS" "v' = v"
      "w' = sys_close_fd l (sys_funlock l (sys_open_fd f (sys_unlink path (sys_flock l (path @ ''.lock'') (sys_open_fd l w)))))"
      by (auto split: if_splits)
    show ?thesis using sock e(1,2) unfolding e(3) by (simp add: id)
  next
    case bind
    with d have e: "e \<noteq> Ipc_SUCCESS" "v' = v" "w' = sys_close_fd l (sys_funlock l (sys_close_fd f (sys_open_fd f
        (sys_unlink path (sys_flock l (path @ ''.lock'') (sys_open_fd l w))))))"
      by (auto split: if_splits)
    show ?thesis
      using bind e(1,2) fresh(5) unfolding e(3) by (simp add: id fun_upd_twist [of f l] insert_Diff_if)
  next
    case late
    with d have e: "e \<noteq> Ipc_SUCCESS" "v' = v" "w' = sys_close_fd l (sys_funlock l (sys_unlink path (sys_close_fd f
        (sys_chmod path (sys_bind (sun_path path) (sys_open_fd f
          (sys_unlink path (sys_flock l (path @ ''.lock'') (sys_open_fd l w)))))))))"
      by (auto split: if_splits)
    show ?thesis
      using late e(1,2) fresh(5) unfolding e(3) by (simp add: id fun_upd_twist [of f l] insert_Diff_if)
  next
    case ok
    with d have e: "e = Ipc_SUCCESS"
      "v' = v\<lparr>listen_fd := f, lock_fd := l, socket_path := path, srv_running := True\<rparr>"
      "w' = sys_chmod path (sys_bind (sun_path path) (sys_open_fd f
          (sys_unlink path (sys_flock l (path @ ''.lock'') (sys_open_fd l w)))))"
      by (auto split: if_splits)
    show ?thesis using ok e(1,2) unfolding e(3) by (simp add: insert_commute flip: l_def f_def)
  qed
qed

lemma accept_effect:
  assumes "accept_fd io \<notin> open_fds w" "dom (flocks w) \<subseteq> open_fds w" "IpcServer_Accept io v w = (e, v', w')"
  shows "if e = Ipc_SUCCESS
    then srv_running v \<and> sock_fd (client v) < 0 \<and> 0 \<le> accept_fd io \<and> v' = v\<lparr>client := \<lparr>sock_fd = accept_fd io\<rparr>\<rparr> \<and>
      open_fds w' = insert (accept_fd io) (open_fds w) \<and> flocks w' = flocks w
    else v' = v \<and> open_fds w' = open_fds w \<and> flocks w' = flocks w"
proof -
  have "flocks w (accept_fd io) = None" using assms(1,2) by auto
  then show ?thesis
    using assms(1,3)
    by (auto simp: IpcServer_Accept_def IpcSocket_IsValid_def IpcSocket_of_fd_def Let_def sys_defs fun_eq_iff
        split: if_splits PollAnswer.splits)
qed

lemma stop_effect:
  assumes "srv_ok v" "IpcServer_Stop v w = (v', w')"
  shows "owned v' = {} \<and> srv_ok v' \<and> \<not> srv_running v' \<and> open_fds w' = open_fds w - owned v \<and>
    flocks w' = (\<lambda>fd. if fd \<in> owned v then None else flocks w fd)"
  using assms
  by (auto simp: IpcServer_Stop_def close_socket_def Let_def owned_def srv_ok_def fun_eq_iff split: if_splits)

lemma disconnect_effect:
  assumes "srv_ok v" "IpcServer_Disconnect v w = (v', w')"
  shows "srv_ok v' \<and> srv_running v' = srv_running v \<and> lock_fd v' = lock_fd v \<and> socket_path v' = socket_path v \<and>
    owned v' \<subseteq> owned v \<and> open_fds w' = open_fds w - (owned v - owned v') \<and>
    flocks w' = (\<lambda>fd. if fd \<in> owned v - owned v' then None else flocks w fd)"
  using assms
  by (auto simp: IpcServer_Disconnect_def close_socket_def Let_def owned_def srv_ok_def fun_eq_iff
      split: if_splits)

section \<open>Invariant of the servers\<close>

definition fd_inv :: "int set \<Rightarrow> (nat \<Rightarrow> IpcServer) \<Rightarrow> int set \<Rightarrow> bool" where
  "fd_inv base srv fds \<longleftrightarrow> (\<forall>i. owned (srv i) \<inter> base = {}) \<and>
     (\<forall>i j. i \<noteq> j \<longrightarrow> owned (srv i) \<inter> owned (srv j) = {}) \<and> fds = base \<union> (\<Union>i. owned (srv i))"

definition lock_inv :: "(nat \<Rightarrow> IpcServer) \<Rightarrow> (int \<rightharpoonup> string) \<Rightarrow> bool" where
  "lock_inv srv locks \<longleftrightarrow>
     (\<forall>fd p. locks fd = Some p \<longleftrightarrow> (\<exists>i. srv_running (srv i) \<and> lock_fd (srv i) = fd \<and> p = socket_path (srv i) @ ''.lock'')) \<and>
     (\<forall>i j. srv_running (srv i) \<and> srv_running (srv j) \<and> socket_path (srv i) = socket_path (srv j) \<longrightarrow> i = j)"

definition ipc_inv :: "int set \<Rightarrow> IpcSys \<Rightarrow> bool" where
  "ipc_inv base s \<longleftrightarrow> (\<forall>i. srv_ok (servers s i)) \<and> fd_inv base (servers s) (open_fds (world s)) \<and>
     lock_inv (servers s) (flocks (world s))"

lemma fd_inv_grow:
  assumes "fd_inv base srv fds" "owned v' = owned (srv i) \<union> N" "N \<inter> fds = {}"
  shows "fd_inv base (srv(i := v')) (N \<union> fds)"
proof -
  have U: "(\<Union>j. owned ((srv(i := v')) j)) = N \<union> (\<Union>j. owned (srv j))"
    using assms(2) by (auto split: if_splits)
  show ?thesis
    using assms unfolding fd_inv_def U by (auto split: if_splits) blast+
qed

lemma fd_inv_shrink:
  assumes "fd_inv base srv fds" "owned v' \<subseteq> owned (srv i)"
  shows "fd_inv base (srv(i := v')) (fds - (owned (srv i) - owned v'))"
proof -
  have dis: "owned (srv j) \<inter> owned (srv i) = {}" if "j \<noteq> i" for j
    using assms(1) that by (simp add: fd_inv_def)
  have U: "(\<Union>j. owned ((srv(i := v')) j)) = (\<Union>j. owned (srv j)) - (owned (srv i) - owned v')"
  proof (intro set_eqI iffI)
    fix x assume "x \<in> (\<Union>j. owned ((srv(i := v')) j))"
    then obtain j where "x \<in> owned ((srv(i := v')) j)" by blast
    then show "x \<in> (\<Union>j. owned (srv j)) - (owned (srv i) - owned v')"
      using assms(2) dis [of j] by (cases "j = i") auto
  next
    fix x assume "x \<in> (\<Union>j. owned (srv j)) - (owned (srv i) - owned v')"
    then obtain j where "x \<in> owned (srv j)" "x \<in> owned (srv i) \<longrightarrow> x \<in> owned v'" by blast
    then show "x \<in> (\<Union>j. owned ((srv(i := v')) j))"
      by (cases "j = i") (auto intro: exI [of _ j] exI [of _ i])
  qed
  have "base \<inter> owned (srv i) = {}" using assms(1) by (auto simp: fd_inv_def)
  then have "base - (owned (srv i) - owned v') = base" by blast
  then show ?thesis
    using assms unfolding fd_inv_def U by (auto split: if_splits) blast+
qed

lemma lock_dom:
  assumes "ipc_inv base s"
  shows "dom (flocks (world s)) \<subseteq> open_fds (world s)"
proof
  fix fd assume "fd \<in> dom (flocks (world s))"
  then obtain i where i: "srv_running (servers s i)" "lock_fd (servers s i) = fd"
    using assms by (auto simp: ipc_inv_def lock_inv_def)
  then have "fd \<in> owned (servers s i)" using assms by (auto simp: ipc_inv_def srv_ok_def owned_def)
  then show "fd \<in> open_fds (world s)" using assms by (auto simp: ipc_inv_def fd_inv_def)
qed

lemma lock_inv_same:
  assumes "lock_inv srv locks" "srv_running v' = srv_running (srv i)" "lock_fd v' = lock_fd (srv i)"
    "socket_path v' = socket_path (srv i)"
  shows "lock_inv (srv(i := v')) locks"
proof -
  have "srv_running ((srv(i := v')) j) = srv_running (srv j)" "lock_fd ((srv(i := v')) j) = lock_fd (srv j)"
    "socket_path ((srv(i := v')) j) = socket_path (srv j)" for j
    using assms(2-4) by auto
  with assms(1) show ?thesis unfolding lock_inv_def by presburger
qed

lemma lock_owner_unique:
  assumes "ipc_inv base s" "srv_running (servers s j)" "lock_fd (servers s j) \<in> owned (servers s i)"
  shows "j = i"
proof (rule ccontr)
  assume "j \<noteq> i"
  moreover have "lock_fd (servers s j) \<in> owned (servers s j)"
    using assms(1,2) by (auto simp: ipc_inv_def srv_ok_def owned_def)
  moreover have "owned (servers s j) \<inter> owned (servers s i) = {}"
    using assms(1) \<open>j \<noteq> i\<close> by (simp add: ipc_inv_def fd_inv_def)
  ultimately show False using assms(3) by blast
qed

text \<open>The locks when a server takes a free descriptor and path, and when one lets go.\<close>

lemma lock_inv_take:
  assumes li: "lock_inv srv locks" and fresh: "l \<notin> dom locks" "path @ ''.lock'' \<notin> ran locks"
    and v: "\<not> srv_running (srv i)" "srv_running v" "lock_fd v = l" "socket_path v = path"
  shows "lock_inv (srv(i := v)) (locks(l \<mapsto> path @ ''.lock''))"
proof -
  have held: "locks (lock_fd (srv j)) = Some (socket_path (srv j) @ ''.lock'')" if "srv_running (srv j)" for j
    using li that unfolding lock_inv_def by blast
  then have "lock_fd (srv j) \<noteq> l" "socket_path (srv j) \<noteq> path" if "srv_running (srv j)" for j
    using that fresh by (force simp: ran_def)+
  with li v show ?thesis
    unfolding lock_inv_def by (auto split: if_splits) (metis, metis)
qed

lemma lock_inv_drop:
  assumes "lock_inv srv locks" "\<not> srv_running v"
    and "\<And>j. srv_running (srv j) \<Longrightarrow> lock_fd (srv j) \<in> A \<longleftrightarrow> j = i"
  shows "lock_inv (srv(i := v)) (\<lambda>fd. if fd \<in> A then None else locks fd)"
  using assms unfolding lock_inv_def by (auto split: if_splits)

text \<open>One lemma per operation.\<close>

lemma ipc_inv_frame:
  assumes "ipc_inv base s" "v = servers s i" "open_fds w = open_fds (world s)" "flocks w = flocks (world s)"
  shows "ipc_inv base (s\<lparr>servers := (servers s)(i := v), world := w\<rparr>)"
  using assms by (simp add: ipc_inv_def)

lemma ipc_inv_start:
  assumes c: "start_contract io path (world s)" and inv: "ipc_inv base s"
    and r: "IpcServer_Start io path (servers s i) (world s) = (e, v, w)"
  shows "ipc_inv base (s\<lparr>servers := (servers s)(i := v), world := w\<rparr>)"
proof (cases "e = Ipc_SUCCESS")
  case False
  with start_effect [OF c lock_dom [OF inv] r] inv show ?thesis by (intro ipc_inv_frame) auto
next
  case True
  let ?l = "start_lock_fd io" and ?f = "start_socket_fd io"
  have ok: "srv_ok (servers s i)" using inv by (simp add: ipc_inv_def)
  have e: "path \<noteq> []" "\<not> srv_running (servers s i)" "0 \<le> ?l" "0 \<le> ?f" "start_flock_ok io"
    "v = (servers s i)\<lparr>listen_fd := ?f, lock_fd := ?l, socket_path := path, srv_running := True\<rparr>"
    "open_fds w = {?l, ?f} \<union> open_fds (world s)" "flocks w = (flocks (world s))(?l \<mapsto> path @ ''.lock'')"
    using start_effect [OF c lock_dom [OF inv] r] True by simp_all
  have fresh: "{?l, ?f} \<inter> open_fds (world s) = {}" "?f \<noteq> ?l" "path @ ''.lock'' \<notin> ran (flocks (world s))"
    using c e by (auto simp: start_contract_def)
  have "owned (servers s i) = {}" using ok e(2) by (auto simp: srv_ok_def owned_def)
  moreover have "owned v = {?l, ?f}" using e ok by (auto simp: owned_def srv_ok_def)
  ultimately have "fd_inv base ((servers s)(i := v)) (open_fds w)"
    using fd_inv_grow [of base "servers s" "open_fds (world s)" v i "{?l, ?f}"] inv fresh(1) e(7)
    by (simp add: ipc_inv_def)
  moreover have "srv_ok v" using ok e fresh(2) by (auto simp: srv_ok_def)
  moreover have "lock_inv ((servers s)(i := v)) (flocks w)"
    unfolding e(8) using inv fresh(1,3) lock_dom [OF inv] e(2,6)
    by (intro lock_inv_take) (auto simp: ipc_inv_def)
  ultimately show ?thesis using inv by (simp add: ipc_inv_def)
qed

lemma ipc_inv_accept:
  assumes c: "accept_fd io \<notin> open_fds (world s)" and inv: "ipc_inv base s"
    and r: "IpcServer_Accept io (servers s i) (world s) = (e, v, w)"
  shows "ipc_inv base (s\<lparr>servers := (servers s)(i := v), world := w\<rparr>)"
proof (cases "e = Ipc_SUCCESS")
  case False
  with accept_effect [OF c lock_dom [OF inv] r] inv show ?thesis by (intro ipc_inv_frame) auto
next
  case True
  have ok: "srv_ok (servers s i)" using inv by (simp add: ipc_inv_def)
  have e: "srv_running (servers s i)" "sock_fd (client (servers s i)) < 0" "0 \<le> accept_fd io"
    "v = (servers s i)\<lparr>client := \<lparr>sock_fd = accept_fd io\<rparr>\<rparr>"
    "open_fds w = {accept_fd io} \<union> open_fds (world s)" "flocks w = flocks (world s)"
    using accept_effect [OF c lock_dom [OF inv] r] True by simp_all
  have o: "owned v = owned (servers s i) \<union> {accept_fd io}" using e by (auto simp: owned_def)
  have sub: "owned (servers s i) \<subseteq> open_fds (world s)" using inv by (auto simp: ipc_inv_def fd_inv_def)
  have "listen_fd (servers s i) \<in> owned (servers s i)" "lock_fd (servers s i) \<in> owned (servers s i)"
    using ok e(1) by (auto simp: owned_def srv_ok_def)
  with sub c have "accept_fd io \<noteq> listen_fd (servers s i)" "accept_fd io \<noteq> lock_fd (servers s i)" by auto
  with ok e have "srv_ok v" by (auto simp: srv_ok_def)
  moreover have "fd_inv base ((servers s)(i := v)) (open_fds w)"
    unfolding e(5) using c inv o
    by (intro fd_inv_grow [where srv = "servers s" and i = i and v' = v and N = "{accept_fd io}"]) (auto simp: ipc_inv_def)
  moreover have "lock_inv ((servers s)(i := v)) (flocks w)"
    unfolding e(6) using inv e(4) by (intro lock_inv_same) (auto simp: ipc_inv_def)
  ultimately show ?thesis using inv by (simp add: ipc_inv_def)
qed

lemma ipc_inv_disconnect:
  assumes inv: "ipc_inv base s" and r: "IpcServer_Disconnect (servers s i) (world s) = (v, w)"
  shows "ipc_inv base (s\<lparr>servers := (servers s)(i := v), world := w\<rparr>)"
proof -
  have "srv_ok (servers s i)" using inv by (simp add: ipc_inv_def)
  note eff = disconnect_effect [OF this r]
  have "flocks (world s) fd = None" if "fd \<in> owned (servers s i) - owned v" for fd
  proof (rule ccontr)
    assume "flocks (world s) fd \<noteq> None"
    then obtain j where j: "srv_running (servers s j)" "lock_fd (servers s j) = fd"
      using inv by (auto simp: ipc_inv_def lock_inv_def)
    with lock_owner_unique [OF inv j(1)] that have "j = i" by blast
    with j eff that show False by (auto simp: owned_def srv_ok_def)
  qed
  with eff have "flocks w = flocks (world s)" by (auto simp: fun_eq_iff)
  then show ?thesis
    using inv eff fd_inv_shrink [of base "servers s" "open_fds (world s)" v i]
      lock_inv_same [of "servers s" "flocks (world s)" v i]
    by (simp add: ipc_inv_def)
qed

lemma ipc_inv_stop:
  assumes inv: "ipc_inv base s" and r: "IpcServer_Stop (servers s i) (world s) = (v, w)"
  shows "ipc_inv base (s\<lparr>servers := (servers s)(i := v), world := w\<rparr>)"
proof -
  have "srv_ok (servers s i)" using inv by (simp add: ipc_inv_def)
  note eff = stop_effect [OF this r]
  have "lock_fd (servers s j) \<in> owned (servers s i) \<longleftrightarrow> j = i" if "srv_running (servers s j)" for j
    using that lock_owner_unique [OF inv that] inv by (auto simp: ipc_inv_def srv_ok_def owned_def)
  then have "lock_inv ((servers s)(i := v)) (flocks w)"
    using inv eff lock_inv_drop [of "servers s" "flocks (world s)" v "owned (servers s i)" i] by (simp add: ipc_inv_def)
  moreover have "fd_inv base ((servers s)(i := v)) (open_fds w)"
    using inv eff fd_inv_shrink [of base "servers s" "open_fds (world s)" v i] by (simp add: ipc_inv_def)
  ultimately show ?thesis using inv eff by (simp add: ipc_inv_def)
qed

lemma ipc_inv_step: "ipc_step s s' \<Longrightarrow> ipc_inv base s \<Longrightarrow> ipc_inv base s'"
  by (induction rule: ipc_step.induct)
    (blast intro: ipc_inv_start ipc_inv_accept ipc_inv_disconnect ipc_inv_stop)+

interpretation ipc_sys: inductive_invariant "ipc_init base" ipc_step "ipc_inv base" for base
proof
  show "ipc_inv base s" if "ipc_init base s" for s
    using that by (auto simp: ipc_init_def ipc_inv_def fd_inv_def lock_inv_def srv_ok_def owned_def IpcServer_new_def
        IpcSocket_new_def)
qed (rule ipc_inv_step)

section \<open>The retry loop\<close>

definition attempt_ok :: "ConnectIO \<Rightarrow> bool" where
  "attempt_ok a \<longleftrightarrow> 0 \<le> connect_fd a \<and> connect_ok a \<and> SetNonBlocking (connect_fcntl a)"

text \<open>The delay before attempt \<open>j + 1\<close>: the first one is the caller's, the later ones double up to the
  bound.\<close>

definition backoff :: "msec \<Rightarrow> msec \<Rightarrow> nat \<Rightarrow> msec" where
  "backoff d m j = (if j = 0 then d else min (d * 2 ^ j) m)"

lemma backoff_Suc: "0 \<le> m \<Longrightarrow> backoff (min (d * 2) m) m j = backoff d m (Suc j)"
proof (cases "d * 2 \<le> m")
  case False
  assume m: "0 \<le> m"
  have "m \<le> m * 2 ^ j" using m by (simp add: mult_le_cancel_left1)
  moreover have "m * 2 ^ j \<le> d * 2 * 2 ^ j" using False by (intro mult_right_mono) auto
  ultimately have "m \<le> m * 2 ^ j" "m \<le> d * (2 * 2 ^ j)" by (auto simp: mult.assoc intro: order_trans)
  with False show ?thesis by (simp add: backoff_def min_absorb2 del: min_def)
qed (auto simp: backoff_def)

lemma connect_effect:
  assumes "path \<noteq> []" "\<not> IpcClient_IsConnected c" "connect_fd a \<notin> open_fds w" "dom (flocks w) \<subseteq> open_fds w"
  shows "if attempt_ok a
    then IpcClient_Connect a path c w =
      (Ipc_SUCCESS, c\<lparr>csocket := IpcSocket_of_fd (connect_fd a)\<rparr>, w\<lparr>open_fds := insert (connect_fd a) (open_fds w)\<rparr>)
    else \<exists>e. e \<noteq> Ipc_SUCCESS \<and> IpcClient_Connect a path c w = (e, c, w)"
proof -
  have "flocks w (connect_fd a) = None" using assms(3,4) by auto
  then have "sys_close_fd (connect_fd a) (sys_open_fd (connect_fd a) w) = w"
    using assms(3) by (auto simp: sys_defs fun_upd_idem)
  then show ?thesis
    using assms(1,2) by (auto simp: IpcClient_Connect_def IpcClient_IsConnected_def attempt_ok_def Let_def sys_open_fd_def)
qed

lemma retry_loop_effect:
  assumes "path \<noteq> []" "\<not> IpcClient_IsConnected c" "\<And>i. connect_fd (io i) \<notin> open_fds w"
    and "dom (flocks w) \<subseteq> open_fds w" "0 \<le> m" "0 < n"
  shows "\<exists>e. retry_loop io path m i n d le c w =
    (let k = length (takeWhile (\<lambda>j. \<not> attempt_ok (io j)) [i..<i + n]) in
     if k < n
     then (Ipc_SUCCESS, map (backoff d m) [0..<k], c\<lparr>csocket := IpcSocket_of_fd (connect_fd (io (i + k)))\<rparr>,
           w\<lparr>open_fds := insert (connect_fd (io (i + k))) (open_fds w)\<rparr>)
     else (e, map (backoff d m) [0..<n - 1], c, w)) \<and> e \<noteq> Ipc_SUCCESS"
  using assms(6)
proof (induction n arbitrary: i d le)
  case (Suc n)
  let ?k = "length (takeWhile (\<lambda>j. \<not> attempt_ok (io j)) [Suc i..<Suc i + n])"
  have up: "[i..<i + Suc n] = i # [Suc i..<Suc i + n]" by (simp add: upt_rec)
  note ce = connect_effect [OF assms(1,2) assms(3) [of i] assms(4)]
  show ?case
  proof (cases "attempt_ok (io i)")
    case True
    with ce show ?thesis unfolding up by (auto intro: exI [of _ CONNECT_FAILED])
  next
    case False
    with ce obtain e where e: "e \<noteq> Ipc_SUCCESS" "IpcClient_Connect (io i) path c w = (e, c, w)" by auto
    show ?thesis
    proof (cases "n = 0")
      case True
      with e False show ?thesis by (auto intro: exI [of _ e])
    next
      case n: False
      have shift: "map (backoff d m) [0..<Suc k] = d # map (backoff (min (d * 2) m) m) [0..<k]" for k
        unfolding upt_conv_Cons [OF zero_less_Suc]
        by (simp add: backoff_Suc [OF assms(5)] map_Suc_upt [symmetric] backoff_def [of d m 0] o_def del: upt_Suc)
      from Suc.IH [of "Suc i" "min (d * 2) m" e] n obtain e2 where IH: "retry_loop io path m (Suc i) n (min (d * 2) m) e c w =
        (if ?k < n
         then (Ipc_SUCCESS, map (backoff (min (d * 2) m) m) [0..<?k],
           c\<lparr>csocket := IpcSocket_of_fd (connect_fd (io (Suc i + ?k)))\<rparr>,
           w\<lparr>open_fds := insert (connect_fd (io (Suc i + ?k))) (open_fds w)\<rparr>)
         else (e2, map (backoff (min (d * 2) m) m) [0..<n - 1], c, w))" "e2 \<noteq> Ipc_SUCCESS"
        unfolding Let_def by blast
      have "[0..<n] = [0..<Suc (n - 1)]" using n by simp
      with shift have "map (backoff d m) [0..<n] = d # map (backoff (min (d * 2) m) m) [0..<n - 1]" by metis
      with IH e n False shift [of ?k] show ?thesis unfolding up by (auto simp del: upt_Suc intro!: exI [of _ e2])
    qed
  qed
qed simp

section \<open>Properties\<close>

definition demo_start :: StartIO where
  "demo_start = \<lparr>start_lock_fd = 3, start_flock_ok = True, start_errno_wouldblock = False, start_socket_fd = 4,
     start_bind_ok = True, start_listen_ok = True, start_fcntl = (2, 0)\<rparr>"

definition demo_ipc :: IpcSys where
  "demo_ipc = \<lparr>servers = (\<lambda>_. IpcServer_new), world = \<lparr>open_fds = {0, 1, 2}, flocks = Map.empty, sock_files = Map.empty\<rparr>\<rparr>"

definition demo_ipc_started :: IpcSys where
  "demo_ipc_started =
     (let (e, v, w) = IpcServer_Start demo_start ''/run/cam'' (servers demo_ipc 0) (world demo_ipc)
      in demo_ipc\<lparr>servers := (servers demo_ipc)(0 := v), world := w\<rparr>)"

lemma demo_ipc_reachable:
  "reaches (ipc_init {0, 1, 2}) ipc_step demo_ipc" "reaches (ipc_init {0, 1, 2}) ipc_step demo_ipc_started"
proof -
  show r: "reaches (ipc_init {0, 1, 2}) ipc_step demo_ipc"
    by (rule reaches_init) (simp add: ipc_init_def demo_ipc_def)
  obtain e v w where s: "IpcServer_Start demo_start ''/run/cam'' (servers demo_ipc 0) (world demo_ipc) = (e, v, w)"
    by (metis prod_cases3)
  have "start_contract demo_start ''/run/cam'' (world demo_ipc)"
    by (simp add: start_contract_def demo_start_def SetNonBlocking_def demo_ipc_def)
  from reaches_step [OF r ipc_start [OF this s]] s
  show "reaches (ipc_init {0, 1, 2}) ipc_step demo_ipc_started" by (simp add: demo_ipc_started_def)
qed

text \<open>C15: One server per path and no leaked descriptor: for any number of servers started,
  connected, disconnected and stopped in any order, as long as the kernel hands out unused
  descriptors and exclusive locks, no two running servers ever have the same path, every server
  holds its lock exactly while it runs, and the open descriptors of the process are those it
  had plus the listener, lock and client descriptors of the servers, each owned once.\<close>

theorem ipc_single_instance_no_leak:
  assumes "reaches (ipc_init base) ipc_step s"
  shows "(\<forall>i j. IpcServer_IsRunning (servers s i) \<and> IpcServer_IsRunning (servers s j) \<and>
      socket_path (servers s i) = socket_path (servers s j) \<longrightarrow> i = j) \<and>
    open_fds (world s) = base \<union> (\<Union>i. owned (servers s i)) \<and>
    (\<forall>i j. i \<noteq> j \<longrightarrow> owned (servers s i) \<inter> owned (servers s j) = {}) \<and>
    (\<forall>i. owned (servers s i) \<inter> base = {}) \<and>
    (\<forall>fd p. flocks (world s) fd = Some p \<longleftrightarrow> (\<exists>i. IpcServer_IsRunning (servers s i) \<and>
      lock_fd (servers s i) = fd \<and> p = socket_path (servers s i) @ ''.lock''))"
  using ipc_sys.reaches_inv [OF assms]
  by (simp add: ipc_inv_def fd_inv_def lock_inv_def IpcServer_IsRunning_def)

theorem ipc_single_instance_no_leak_witness:
  "flocks (world demo_ipc_started) 3 = Some ''/run/cam.lock''"
proof -
  have "IpcServer_IsRunning (servers demo_ipc_started 0) \<and> lock_fd (servers demo_ipc_started 0) = 3 \<and>
      ''/run/cam.lock'' = socket_path (servers demo_ipc_started 0) @ ''.lock''"
    by (simp add: demo_ipc_started_def IpcServer_Start_def demo_start_def SetNonBlocking_def demo_ipc_def IpcServer_new_def
        IpcServer_IsRunning_def Let_def)
  with ipc_single_instance_no_leak [OF demo_ipc_reachable(2)] show ?thesis by blast
qed

text \<open>C24: \<open>Start\<close> is all or nothing: whichever system call fails, the server object, the open
  descriptors and the locks are exactly as before, and only \<open>SUCCESS\<close> commits; \<open>Stop\<close> after it closes
  both descriptors, releases the lock and gives the object back its initial state.\<close>

theorem ipc_start_atomic:
  assumes "start_contract io path w" "dom (flocks w) \<subseteq> open_fds w"
    and "IpcServer_Start io path IpcServer_new w = (e, v, w1)" "IpcServer_Stop v w1 = (v2, w2)"
  shows "(e \<noteq> Ipc_SUCCESS \<longrightarrow> v = IpcServer_new \<and> open_fds w1 = open_fds w \<and> flocks w1 = flocks w) \<and>
    (e = Ipc_SUCCESS \<longrightarrow> IpcServer_IsRunning v \<and> lock_fd v \<in> open_fds w1 \<and> listen_fd v \<in> open_fds w1 \<and>
      flocks w1 (lock_fd v) = Some (path @ ''.lock'')) \<and>
    v2 = IpcServer_new \<and> open_fds w2 = open_fds w \<and> flocks w2 = flocks w"
proof -
  note eff = start_effect [OF assms(1,2,3)]
  have new: "srv_ok IpcServer_new" "owned IpcServer_new = {}" "IpcServer_Stop IpcServer_new u = (IpcServer_new, u)" for u
    by (auto simp: srv_ok_def owned_def IpcServer_new_def IpcSocket_new_def IpcServer_Stop_def close_socket_def Let_def)
  show ?thesis
  proof (cases "e = Ipc_SUCCESS")
    case False
    with eff assms(4) new show ?thesis by simp
  next
    case True
    let ?l = "start_lock_fd io" and ?f = "start_socket_fd io"
    have e: "path \<noteq> []" "0 \<le> ?l" "0 \<le> ?f"
      "v = IpcServer_new\<lparr>listen_fd := ?f, lock_fd := ?l, socket_path := path, srv_running := True\<rparr>"
      "open_fds w1 = {?l, ?f} \<union> open_fds w" "flocks w1 = (flocks w)(?l \<mapsto> path @ ''.lock'')"
      using eff True by simp_all
    have fresh: "?l \<notin> open_fds w" "?f \<notin> open_fds w" "?f \<noteq> ?l" using assms(1) e by (auto simp: start_contract_def)
    have ok: "srv_ok v" "owned v = {?l, ?f}"
      using e fresh by (auto simp: srv_ok_def owned_def IpcServer_new_def IpcSocket_new_def)
    have unlocked: "flocks w ?l = None" "flocks w ?f = None" using assms(2) fresh by auto
    note st = stop_effect [OF ok(1) assms(4)]
    have "v2 = IpcServer_new"
      using assms(4) e by (auto simp: IpcServer_Stop_def close_socket_def Let_def IpcServer_new_def IpcSocket_new_def)
    moreover have "flocks w2 = flocks w"
      using st ok(2) e(6) fresh unlocked by (auto simp: fun_eq_iff)
    moreover have "open_fds w2 = open_fds w" using st ok(2) e(5) fresh by auto
    ultimately show ?thesis using True e by (simp add: IpcServer_IsRunning_def)
  qed
qed

theorem ipc_start_atomic_witness:
  "fst (IpcServer_Start (demo_start\<lparr>start_listen_ok := False\<rparr>) ''/run/cam'' IpcServer_new (world demo_ipc)) = LISTEN_FAILED \<and>
   open_fds (snd (snd (IpcServer_Start (demo_start\<lparr>start_listen_ok := False\<rparr>) ''/run/cam'' IpcServer_new (world demo_ipc)))) =
     {0, 1, 2}"
proof -
  let ?io = "demo_start\<lparr>start_listen_ok := False\<rparr>" and ?w = "world demo_ipc"
  obtain e v w1 where s: "IpcServer_Start ?io ''/run/cam'' IpcServer_new ?w = (e, v, w1)" by (metis prod_cases3)
  then have e: "e = LISTEN_FAILED"
    by (simp add: IpcServer_Start_def demo_start_def SetNonBlocking_def IpcServer_new_def Let_def)
  have "start_contract ?io ''/run/cam'' ?w" "dom (flocks ?w) \<subseteq> open_fds ?w" "open_fds ?w = {0, 1, 2}"
    by (auto simp: start_contract_def demo_start_def SetNonBlocking_def demo_ipc_def)
  with ipc_start_atomic [OF _ _ s surjective_pairing] s e show ?thesis by simp
qed

text \<open>Path lengths. For a path that fits the socket address, a running server's socket file
  has that name, is restricted to its owner and is removed by \<open>Stop\<close>; for a longer path the file is
  created under the truncated name, its permissions are never restricted and \<open>Stop\<close> leaves it
  behind.\<close>

theorem ipc_long_path_leaves_file:
  assumes "IpcServer_Start io path IpcServer_new w = (Ipc_SUCCESS, v, w1)" "IpcServer_Stop v w1 = (v2, w2)"
    and "sock_files w = Map.empty"
  shows "if length path \<le> 107
    then sock_files w1 = [path \<mapsto> True] \<and> sock_files w2 = Map.empty
    else sock_files w1 = [take 107 path \<mapsto> False] \<and> sock_files w2 = [take 107 path \<mapsto> False]"
proof -
  have c: "path \<noteq> []" "0 \<le> start_lock_fd io" "0 \<le> start_socket_fd io" "start_flock_ok io" "start_bind_ok io"
      "start_listen_ok io" "SetNonBlocking (start_fcntl io)"
    using assms(1) by (auto simp: IpcServer_Start_def Let_def IpcServer_new_def split: if_splits)
  have v: "v = IpcServer_new\<lparr>listen_fd := start_socket_fd io, lock_fd := start_lock_fd io, socket_path := path,
      srv_running := True\<rparr>"
    and w1: "sock_files w1 = sock_files (sys_chmod path (sys_bind (sun_path path) w))"
    using assms(1,3) c by (auto simp: IpcServer_Start_def Let_def IpcServer_new_def sys_defs split: if_splits)
  have w2: "sock_files w2 = (sock_files w1)(path := None)"
    using assms(2) c v by (auto simp: IpcServer_Stop_def close_socket_def Let_def IpcServer_new_def IpcSocket_new_def
        sys_defs split: if_splits)
  have "take 107 path \<noteq> path" "path \<noteq> take 107 path" if "107 < length path"
    using that by (metis length_take less_irrefl min.absorb2 less_imp_le)+
  then show ?thesis
    unfolding w2 w1 using assms(3) by (auto simp: sys_chmod_def sys_bind_def sun_path_def)
qed

theorem ipc_long_path_leaves_file_witness:
  "let path = replicate 108 (CHR ''a''); (e, v, w1) = IpcServer_Start demo_start path IpcServer_new (world demo_ipc)
   in sock_files (snd (IpcServer_Stop v w1)) = [take 107 path \<mapsto> False]"
proof -
  let ?p = "replicate 108 (CHR ''a'')"
  obtain e v w1 where s: "IpcServer_Start demo_start ?p IpcServer_new (world demo_ipc) = (e, v, w1)"
    by (metis prod_cases3)
  then have e: "e = Ipc_SUCCESS"
    by (auto simp: IpcServer_Start_def demo_start_def SetNonBlocking_def IpcServer_new_def Let_def)
  have "sock_files (world demo_ipc) = Map.empty" by (simp add: demo_ipc_def)
  with ipc_long_path_leaves_file [OF s [unfolded e] surjective_pairing]
  have "sock_files (snd (IpcServer_Stop v w1)) = [take 107 ?p \<mapsto> False]" by (simp del: take_replicate)
  then show ?thesis unfolding Let_def s by simp
qed

definition demo_attempts :: "nat \<Rightarrow> ConnectIO" where
  "demo_attempts i = \<lparr>connect_fd = 5, connect_ok = (i = 3), connect_fcntl = (2, 0)\<rparr>"

text \<open>C33: \<open>ConnectWithRetry\<close> of an unconnected client to a non-empty path, with \<open>max_attempts > 0\<close> and a
  \<open>max_delay\<close> that is not negative, returns \<open>SUCCESS\<close> exactly when one of the first
  \<open>max_attempts\<close> attempts can connect, at the first of them, with that attempt's descriptor the only
  new one; it has then slept once per failed attempt, first \<open>initial_delay\<close> and then delays that
  double up to \<open>max_delay\<close>. Otherwise it has slept once between attempts and leaves neither the
  client nor the process's descriptors changed.\<close>

theorem ipc_connect_retry_schedule:
  assumes "path \<noteq> []" "\<not> IpcClient_IsConnected c" "\<forall>i. connect_fd (io i) \<notin> open_fds w"
    and "dom (flocks w) \<subseteq> open_fds w" "0 \<le> max_delay" "0 < max_attempts"
    and "IpcClient_ConnectWithRetry io path max_attempts initial_delay max_delay c w = (e, sleeps, c', w')"
  defines "k \<equiv> length (takeWhile (\<lambda>j. \<not> attempt_ok (io j)) [0..<nat max_attempts])"
  shows "(e = Ipc_SUCCESS \<longleftrightarrow> (\<exists>j < nat max_attempts. attempt_ok (io j))) \<and>
    sleeps = map (backoff initial_delay max_delay) [0..<min k (nat max_attempts - 1)] \<and>
    (if e = Ipc_SUCCESS
     then IpcClient_IsConnected c' \<and> sock_fd (csocket c') = connect_fd (io k) \<and>
       w' = w\<lparr>open_fds := insert (connect_fd (io k)) (open_fds w)\<rparr>
     else c' = c \<and> w' = w)"
proof -
  let ?n = "nat max_attempts"
  have le: "k \<le> ?n" unfolding k_def using length_takeWhile_le [of _ "[0..<?n]"] by simp
  have ex: "k < ?n \<longleftrightarrow> (\<exists>j < ?n. attempt_ok (io j))"
  proof -
    have "k = ?n \<longleftrightarrow> (\<forall>j \<in> set [0..<?n]. \<not> attempt_ok (io j))"
      unfolding k_def by (metis diff_zero length_upt takeWhile_eq_all_conv takeWhile_eq_take take_all_iff le_refl)
    with le show ?thesis by auto
  qed
  have okk: "attempt_ok (io k)" if "k < ?n"
    using nth_length_takeWhile [of "\<lambda>j. \<not> attempt_ok (io j)" "[0..<?n]"] that by (simp add: k_def)
  obtain e2 where "(e, sleeps, c', w') =
    (if k < ?n
     then (Ipc_SUCCESS, map (backoff initial_delay max_delay) [0..<k], c\<lparr>csocket := IpcSocket_of_fd (connect_fd (io k))\<rparr>,
           w\<lparr>open_fds := insert (connect_fd (io k)) (open_fds w)\<rparr>)
     else (e2, map (backoff initial_delay max_delay) [0..<?n - 1], c, w))" "e2 \<noteq> Ipc_SUCCESS"
    using retry_loop_effect [of path c io w max_delay ?n 0 initial_delay CONNECT_FAILED] assms(1-7)
    unfolding IpcClient_ConnectWithRetry_def Let_def add_0 k_def [symmetric] by fastforce
  with ex okk le show ?thesis
    by (cases "k < ?n")
      (auto simp: min_def IpcClient_IsConnected_def IpcSocket_IsValid_def IpcSocket_of_fd_def attempt_ok_def)
qed

theorem ipc_connect_retry_schedule_witness:
  "fst (snd (IpcClient_ConnectWithRetry demo_attempts ''/run/cam'' 10 100 350 IpcClient_new (world demo_ipc))) =
     [100, 200, 350]"
proof -
  obtain e sl c w where s: "IpcClient_ConnectWithRetry demo_attempts ''/run/cam'' 10 100 350 IpcClient_new
      (world demo_ipc) = (e, sl, c, w)" by (metis prod_cases4)
  have "\<not> IpcClient_IsConnected IpcClient_new" "\<forall>i. connect_fd (demo_attempts i) \<notin> open_fds (world demo_ipc)"
    "dom (flocks (world demo_ipc)) \<subseteq> open_fds (world demo_ipc)"
    by (auto simp: IpcClient_IsConnected_def IpcClient_new_def IpcSocket_new_def IpcSocket_IsValid_def demo_attempts_def SetNonBlocking_def
        demo_ipc_def)
  from ipc_connect_retry_schedule [OF _ this _ _ s]
  have "sl = map (backoff 100 350) [0..<min (length (takeWhile (\<lambda>j. \<not> attempt_ok (demo_attempts j)) [0..<10])) 9]" by simp
  also have "\<dots> = [100, 200, 350]" by (simp add: upt_rec attempt_ok_def demo_attempts_def SetNonBlocking_def backoff_def)
  finally show ?thesis unfolding s by simp
qed

end
