(* ===== verification/Network_Connection.thy ===== *)
theory Network_Connection
  imports Bounded_Queue "HOL-Library.Sublist"
begin

text \<open>
  \<open>services/network\<close>, the connection: \<open>NetworkConnection\<close> with its bounded send queue, the sender
  thread, \<open>Recv\<close>, \<open>Close\<close> and the teardown any of them may win. Several threads act on one object
  without a common lock, so every statement that reads or writes shared state is a step of its
  own; a thread is a program counter, and the answers of the system calls are inputs. A socket
  descriptor is a number that the kernel maps to the connection it belongs to, so that a write
  through a stale number has the effect it has in the kernel.
\<close>

section \<open>Data\<close>

datatype NetworkError = Net_SUCCESS | Net_INVALID_ARGUMENT | Net_ALREADY_RUNNING | Net_NOT_RUNNING
  | Net_ALREADY_CONNECTED | Net_SOCKET_CREATION_FAILED | Net_BIND_FAILED | Net_LISTEN_FAILED
  | Net_ACCEPT_FAILED | Net_CONNECT_FAILED | Net_SEND_FAILED | Net_RECEIVE_FAILED | Net_TIMEOUT
  | Net_PEER_CLOSED | Net_QUEUE_FULL | Net_SHUTDOWN | Net_THREAD_CREATION_FAILED
  | Net_SUBSCRIPTION_FAILED

definition kMaxSendChunkSize :: nat where
  "kMaxSendChunkSize = 256 * 1024"

definition kSendQueueCapacity :: nat where
  "kSendQueueCapacity = 64"

record NetworkConnection =
  nc_fd :: int
  send_queue :: "u8 list Queue"
  sender_joinable :: bool
  nc_stop_requested :: bool
  connected :: bool
  peer_address :: string
  peer_port :: u16
  is_server_side :: bool
  recv_locked :: bool

text \<open>The answers of \<open>send\<close>, \<open>poll\<close> and \<open>recv\<close>, as far as the code tells them apart.\<close>

datatype NetSend = NSent nat | NSend_EINTR | NSend_EAGAIN | NSend_EPIPE | NSend_other

datatype NetPoll = NPoll_timeout | NPoll_EINTR | NPoll_error | NPoll_hangup | NPoll_ready

datatype NetRecv = NGot "u8 list" | NRecv_FIN | NRecv_again | NRecv_ECONNRESET | NRecv_other

section \<open>Operations of one object\<close>

definition NetworkConnection_new :: "int \<Rightarrow> string \<Rightarrow> u16 \<Rightarrow> bool \<Rightarrow> NetworkConnection" where
  "NetworkConnection_new fd address port server_side =
     \<lparr>nc_fd = fd, send_queue = Queue_new kSendQueueCapacity, sender_joinable = False,
      nc_stop_requested = False, connected = True, peer_address = address, peer_port = port,
      is_server_side = server_side, recv_locked = False\<rparr>"

definition NetworkConnection_IsConnected :: "NetworkConnection \<Rightarrow> bool" where
  "NetworkConnection_IsConnected c = connected c"

definition NetworkConnection_PeerAddress :: "NetworkConnection \<Rightarrow> string" where
  "NetworkConnection_PeerAddress c = peer_address c"

definition NetworkConnection_PeerPort :: "NetworkConnection \<Rightarrow> u16" where
  "NetworkConnection_PeerPort c = peer_port c"

text \<open>\<open>Send\<close> in two parts: the checks (the chunk to queue, or the error), and the push. \<open>None\<close> for
  the data is a null pointer; otherwise it holds at least \<open>sz\<close> bytes.\<close>

definition send_guard :: "u8 list option \<Rightarrow> nat \<Rightarrow> NetworkConnection \<Rightarrow> NetworkError + u8 list" where
  "send_guard data sz c =
     (if sz = 0 then Inl Net_INVALID_ARGUMENT
      else if sz > kMaxSendChunkSize then Inl Net_INVALID_ARGUMENT
      else case data of
          None \<Rightarrow> Inl Net_INVALID_ARGUMENT
        | Some bytes \<Rightarrow> if \<not> connected c then Inl Net_SHUTDOWN else Inr (take sz bytes))"

definition send_push :: "u8 list \<Rightarrow> NetworkConnection \<Rightarrow> NetworkError \<times> NetworkConnection" where
  "send_push chunk c =
     (case Queue_Push chunk (send_queue c) of (qerr, q, ns) \<Rightarrow>
        ((case qerr of Queue_SUCCESS \<Rightarrow> Net_SUCCESS | QUEUE_FULL \<Rightarrow> Net_QUEUE_FULL
          | QUEUE_SHUTDOWN \<Rightarrow> Net_SHUTDOWN | QUEUE_TIMEOUT \<Rightarrow> Net_SHUTDOWN),
         c\<lparr>send_queue := q\<rparr>))"

definition NetworkConnection_Send ::
  "u8 list option \<Rightarrow> nat \<Rightarrow> NetworkConnection \<Rightarrow> NetworkError \<times> NetworkConnection" where
  "NetworkConnection_Send data sz c =
     (case send_guard data sz c of Inl e \<Rightarrow> (e, c) | Inr chunk \<Rightarrow> send_push chunk c)"

definition NetworkConnection_Send_bytes ::
  "u8 list \<Rightarrow> NetworkConnection \<Rightarrow> NetworkError \<times> NetworkConnection" where
  "NetworkConnection_Send_bytes payload c = NetworkConnection_Send (Some payload) (length payload) c"

definition NetworkConnection_Send_text ::
  "string \<Rightarrow> NetworkConnection \<Rightarrow> NetworkError \<times> NetworkConnection" where
  "NetworkConnection_Send_text text_arg c =
     NetworkConnection_Send (Some (string_bytes text_arg)) (length text_arg) c"

text \<open>\<open>Start\<close>: \<open>created\<close> says whether the operating system can create the thread.\<close>

definition NetworkConnection_Start :: "bool \<Rightarrow> NetworkConnection \<Rightarrow> NetworkError \<times> NetworkConnection" where
  "NetworkConnection_Start created c =
     (let c1 = c\<lparr>nc_stop_requested := False\<rparr> in
      if created then (Net_SUCCESS, c1\<lparr>sender_joinable := True\<rparr>) else (Net_SEND_FAILED, c1))"

section \<open>Threads\<close>

text \<open>The statements of \<open>Teardown\<close>, in order, and what its caller does afterwards.\<close>

datatype TdPc = Td_exchange | Td_stop | Td_queue | Td_close | Td_reset | Td_publish

datatype Cont = C_send_return | C_recv_return NetworkError | C_close_return | C_destroy

text \<open>
  Where a thread is. \<open>S_\<close>: in \<open>SendLoop\<close> (about to test the stop flag, to pop, at the inner loop
  with the bytes that remain, in \<open>send\<close> or \<open>poll\<close> with the descriptor it has read, about to
  return); \<open>R_\<close>: in \<open>Recv\<close>; \<open>D_join\<close>: in the destructor, after \<open>Close\<close>.
\<close>

datatype Pc = Idle | Push_chunk nat "u8 list"
  | S_head nat | S_pop nat | S_inner nat "u8 list" | S_send nat int "u8 list" | S_poll nat int "u8 list"
  | S_return nat | Ended
  | R_enter nat nat | R_poll nat int nat | R_recv nat int nat | R_unlock nat NetworkError
  | Teardown_at TdPc nat NetworkError Cont | D_join nat

datatype SendIn = In_go | In_pop bool | In_send NetSend | In_poll NetPoll

text \<open>One statement of \<open>SendLoop\<close>; \<open>None\<close> when the input is not the one the statement waits for, or
  \<open>PopFor\<close> keeps waiting.\<close>

fun SendLoop_step :: "SendIn \<Rightarrow> Pc \<Rightarrow> NetworkConnection \<Rightarrow> (Pc \<times> NetworkConnection) option" where
  "SendLoop_step In_go (S_head k) c = Some (if nc_stop_requested c then S_return k else S_pop k, c)"
| "SendLoop_step (In_pop expired) (S_pop k) c =
     (case Queue_PopFor expired (send_queue c) of
        None \<Rightarrow> None
      | Some (pop, r, q, ns) \<Rightarrow>
          Some (if pop = QUEUE_TIMEOUT then S_head k
                else if pop = QUEUE_SHUTDOWN then S_return k
                else if pop \<noteq> Queue_SUCCESS then S_return k
                else (case r of None \<Rightarrow> S_inner k [] | Some chunk \<Rightarrow> S_inner k chunk),
                c\<lparr>send_queue := q\<rparr>))"
| "SendLoop_step In_go (S_inner k rest) c =
     Some (if rest = [] then S_head k
           else if nc_stop_requested c then S_return k
           else S_send k (nc_fd c) rest, c)"
| "SendLoop_step (In_send a) (S_send k fd rest) c =
     Some (case a of
         NSent n \<Rightarrow> if n > 0 then S_inner k (drop n rest)
                  else Teardown_at Td_exchange k Net_SEND_FAILED C_send_return
       | NSend_EINTR \<Rightarrow> S_inner k rest
       | NSend_EAGAIN \<Rightarrow> S_poll k (nc_fd c) rest
       | NSend_EPIPE \<Rightarrow> Teardown_at Td_exchange k Net_PEER_CLOSED C_send_return
       | NSend_other \<Rightarrow> Teardown_at Td_exchange k Net_SEND_FAILED C_send_return, c)"
| "SendLoop_step (In_poll a) (S_poll k fd rest) c =
     Some (case a of
         NPoll_timeout \<Rightarrow> S_inner k rest
       | NPoll_EINTR \<Rightarrow> S_inner k rest
       | NPoll_error \<Rightarrow> Teardown_at Td_exchange k Net_SEND_FAILED C_send_return
       | NPoll_hangup \<Rightarrow> Teardown_at Td_exchange k Net_PEER_CLOSED C_send_return
       | NPoll_ready \<Rightarrow> S_inner k rest, c)"
| "SendLoop_step In_go (S_return k) c = Some (Ended, c)"
| "SendLoop_step _ _ c = None"

datatype RecvIn = In_lock | In_rpoll NetPoll | In_recv NetRecv | In_unlock

text \<open>One statement of \<open>Recv\<close> after its argument check: taking the lock with the test and the
  snapshot of the descriptor, the \<open>poll\<close>, the \<open>recv\<close>, the release of the lock. \<open>None\<close>: it waits. The
  third component is what goes to \<open>out_payload\<close>.\<close>

fun Recv_step ::
  "RecvIn \<Rightarrow> Pc \<Rightarrow> NetworkConnection \<Rightarrow> (Pc \<times> NetworkConnection \<times> u8 list option) option" where
  "Recv_step In_lock (R_enter k max_bytes) c =
     (if recv_locked c then None
      else Some (if \<not> connected c then R_unlock k Net_SHUTDOWN
                 else if nc_fd c < 0 then R_unlock k Net_SHUTDOWN
                 else R_poll k (nc_fd c) max_bytes, c\<lparr>recv_locked := True\<rparr>, None))"
| "Recv_step (In_rpoll a) (R_poll k fd max_bytes) c =
     Some (case a of
         NPoll_timeout \<Rightarrow> R_unlock k Net_TIMEOUT
       | NPoll_EINTR \<Rightarrow> R_unlock k Net_TIMEOUT
       | NPoll_error \<Rightarrow> Teardown_at Td_exchange k Net_RECEIVE_FAILED (C_recv_return Net_RECEIVE_FAILED)
       | NPoll_hangup \<Rightarrow> Teardown_at Td_exchange k Net_PEER_CLOSED (C_recv_return Net_PEER_CLOSED)
       | NPoll_ready \<Rightarrow> R_recv k fd max_bytes, c, None)"
| "Recv_step (In_recv a) (R_recv k fd max_bytes) c =
     Some (case a of
         NGot bytes \<Rightarrow> (R_unlock k Net_SUCCESS, c, Some bytes)
       | NRecv_FIN \<Rightarrow> (Teardown_at Td_exchange k Net_PEER_CLOSED (C_recv_return Net_PEER_CLOSED), c, None)
       | NRecv_again \<Rightarrow> (R_unlock k Net_TIMEOUT, c, None)
       | NRecv_ECONNRESET \<Rightarrow>
           (Teardown_at Td_exchange k Net_PEER_CLOSED (C_recv_return Net_PEER_CLOSED), c, None)
       | NRecv_other \<Rightarrow>
           (Teardown_at Td_exchange k Net_RECEIVE_FAILED (C_recv_return Net_RECEIVE_FAILED), c, None))"
| "Recv_step In_unlock (R_unlock k e) c = Some (Idle, c\<lparr>recv_locked := False\<rparr>, None)"
| "Recv_step _ _ c = None"

text \<open>One statement of \<open>Teardown\<close> on the object itself: the exchange of the flag, the stop flag, the
  queue, (\<open>Td_close\<close> acts on the kernel only), the reset of the descriptor. The result of the
  exchange decides whether the caller goes on.\<close>

fun td_local :: "TdPc \<Rightarrow> NetworkConnection \<Rightarrow> NetworkConnection" where
  "td_local Td_exchange c = c\<lparr>connected := False\<rparr>"
| "td_local Td_stop c = c\<lparr>nc_stop_requested := True\<rparr>"
| "td_local Td_queue c = c\<lparr>send_queue := fst (snd (Queue_Shutdown IMMEDIATE (send_queue c)))\<rparr>"
| "td_local Td_close c = c"
| "td_local Td_reset c = c\<lparr>nc_fd := -1\<rparr>"
| "td_local Td_publish c = c"

fun td_next :: "TdPc \<Rightarrow> NetworkConnection \<Rightarrow> TdPc option" where
  "td_next Td_exchange c = (if connected c then Some Td_stop else None)"
| "td_next Td_stop c = Some Td_queue"
| "td_next Td_queue c = Some (if nc_fd c \<ge> 0 then Td_close else Td_publish)"
| "td_next Td_close c = Some Td_reset"
| "td_next Td_reset c = Some Td_publish"
| "td_next Td_publish c = None"

fun after_teardown :: "nat \<Rightarrow> Cont \<Rightarrow> Pc" where
  "after_teardown k C_send_return = S_return k"
| "after_teardown k (C_recv_return e) = R_unlock k e"
| "after_teardown k C_close_return = Idle"
| "after_teardown k C_destroy = D_join k"

definition td_pc :: "TdPc \<Rightarrow> nat \<Rightarrow> NetworkError \<Rightarrow> Cont \<Rightarrow> NetworkConnection \<Rightarrow> Pc" where
  "td_pc p k reason cont c =
     (case td_next p c of Some p' \<Rightarrow> Teardown_at p' k reason cont | None \<Rightarrow> after_teardown k cont)"

text \<open>The rest of the destructor after \<open>Close\<close>: \<open>None\<close> while \<open>join\<close> waits for the sender to end.\<close>

definition destroy_join :: "bool \<Rightarrow> bool \<Rightarrow> NetworkConnection \<Rightarrow> NetworkConnection option" where
  "destroy_join on_sender_thread sender_ended c =
     (if sender_joinable c then
        (if on_sender_thread then Some (c\<lparr>sender_joinable := False\<rparr>)
         else if sender_ended then Some (c\<lparr>sender_joinable := False\<rparr>) else None)
      else Some c)"

section \<open>The system\<close>

datatype Tid = Snd nat | Caller nat

text \<open>A history no thread reads: whether a connection is live, which thread won its teardown and
  which statement that thread is at, or whether the teardown is over.\<close>

datatype Stage = Live | Claimed TdPc Tid | Torn

text \<open>
  The connections made so far and whether somebody still holds a reference to them, the
  kernel's descriptor table, the threads, and per socket the bytes the kernel has taken for
  sending, those waiting to be read and (histories) the descriptor it was created with, the bytes
  accepted by \<open>Send\<close>, those that arrived and those that \<open>Recv\<close> handed out; last, the
  \<open>NetworkDisconnected\<close> events.
\<close>

record NetSys =
  conn :: "nat \<Rightarrow> NetworkConnection"
  made :: nat
  alive :: "nat \<Rightarrow> bool"
  fds :: "int \<rightharpoonup> nat"
  pc :: "Tid \<Rightarrow> Pc"
  wire :: "nat \<Rightarrow> u8 list"
  inbox :: "nat \<Rightarrow> u8 list"
  published :: "(nat \<times> NetworkError) list"
  stage :: "nat \<Rightarrow> Stage"
  fd0 :: "nat \<Rightarrow> int"
  queued :: "nat \<Rightarrow> u8 list"
  arrived :: "nat \<Rightarrow> u8 list"
  got :: "nat \<Rightarrow> u8 list"

fun pc_conn :: "Pc \<Rightarrow> nat option" where
  "pc_conn Idle = None"
| "pc_conn Ended = None"
| "pc_conn (Push_chunk k x) = Some k"
| "pc_conn (S_head k) = Some k"
| "pc_conn (S_pop k) = Some k"
| "pc_conn (S_inner k x) = Some k"
| "pc_conn (S_send k fd x) = Some k"
| "pc_conn (S_poll k fd x) = Some k"
| "pc_conn (S_return k) = Some k"
| "pc_conn (R_enter k n) = Some k"
| "pc_conn (R_poll k fd n) = Some k"
| "pc_conn (R_recv k fd n) = Some k"
| "pc_conn (R_unlock k e) = Some k"
| "pc_conn (Teardown_at p k r c) = Some k"
| "pc_conn (D_join k) = Some k"

text \<open>The kernel's part of \<open>send\<close> and \<open>recv\<close>: a call on a number that is not open fails with \<open>EBADF\<close>.\<close>

fun kernel_send :: "SendIn \<Rightarrow> Pc \<Rightarrow> (int \<rightharpoonup> nat) \<Rightarrow> (nat \<Rightarrow> u8 list) \<Rightarrow> (nat \<Rightarrow> u8 list) option" where
  "kernel_send (In_send a) (S_send k fd rest) tab wr =
     (case tab fd of
        None \<Rightarrow> if a = NSend_other then Some wr else None
      | Some j \<Rightarrow> (case a of NSent n \<Rightarrow> if n \<le> length rest then Some (wr(j := wr j @ take n rest)) else None
                   | _ \<Rightarrow> Some wr))"
| "kernel_send i p tab wr = Some wr"

fun kernel_recv :: "RecvIn \<Rightarrow> Pc \<Rightarrow> (int \<rightharpoonup> nat) \<Rightarrow> (nat \<Rightarrow> u8 list) \<Rightarrow> (nat \<Rightarrow> u8 list) option" where
  "kernel_recv (In_recv a) (R_recv k fd n) tab ib =
     (case tab fd of
        None \<Rightarrow> if a = NRecv_other then Some ib else None
      | Some j \<Rightarrow> (case a of
            NGot b \<Rightarrow> if b \<noteq> [] \<and> length b \<le> n \<and> prefix b (ib j)
                       then Some (ib(j := drop (length b) (ib j))) else None
          | _ \<Rightarrow> Some ib))"
| "kernel_recv i p tab ib = Some ib"

definition stage_next :: "TdPc \<Rightarrow> Tid \<Rightarrow> NetworkConnection \<Rightarrow> Stage \<Rightarrow> Stage" where
  "stage_next p t c st =
     (case td_next p c of Some p' \<Rightarrow> Claimed p' t | None \<Rightarrow> if p = Td_exchange then st else Torn)"

definition bytes_of :: "u8 list option \<Rightarrow> u8 list" where
  "bytes_of out = (case out of None \<Rightarrow> [] | Some b \<Rightarrow> b)"

text \<open>
  Interleaving of any number of threads over any number of connections. \<open>reuse\<close> says whether the
  kernel may give a new socket the number of one that has been closed (it may: it gives the
  lowest free one).
\<close>

inductive net_step :: "bool \<Rightarrow> NetSys \<Rightarrow> NetSys \<Rightarrow> bool" for reuse where
  net_create: "pc s (Caller t) = Idle \<Longrightarrow> 0 \<le> fd \<Longrightarrow> fds s fd = None \<Longrightarrow> reuse \<or> fd \<notin> fd0 s ` {..<made s} \<Longrightarrow>
    NetworkConnection_Start created (NetworkConnection_new fd addr port srv) = (e, c) \<Longrightarrow>
    net_step reuse s (s\<lparr>conn := (conn s)(made s := c), made := Suc (made s),
      alive := (alive s)(made s := (e = Net_SUCCESS)), fds := (fds s)(fd \<mapsto> made s),
      fd0 := (fd0 s)(made s := fd),
      pc := (if e = Net_SUCCESS then (pc s)(Snd (made s) := S_head (made s))
             else (pc s)(Caller t := Teardown_at Td_exchange (made s) Net_SHUTDOWN C_destroy))\<rparr>)"
| net_send: "pc s (Caller t) = Idle \<Longrightarrow> k < made s \<Longrightarrow> alive s k \<Longrightarrow> send_guard data sz (conn s k) = Inr chunk \<Longrightarrow>
    net_step reuse s (s\<lparr>pc := (pc s)(Caller t := Push_chunk k chunk)\<rparr>)"
| net_push: "pc s (Caller t) = Push_chunk k chunk \<Longrightarrow> send_push chunk (conn s k) = (e, c) \<Longrightarrow>
    net_step reuse s (s\<lparr>conn := (conn s)(k := c), pc := (pc s)(Caller t := Idle),
      queued := (if e = Net_SUCCESS then (queued s)(k := queued s k @ chunk) else queued s)\<rparr>)"
| net_sender: "SendLoop_step i (pc s (Snd k)) (conn s k) = Some (p, c) \<Longrightarrow>
    kernel_send i (pc s (Snd k)) (fds s) (wire s) = Some wr \<Longrightarrow>
    net_step reuse s (s\<lparr>conn := (conn s)(k := c), pc := (pc s)(Snd k := p), wire := wr\<rparr>)"
| net_recv_call: "pc s (Caller t) = Idle \<Longrightarrow> k < made s \<Longrightarrow> alive s k \<Longrightarrow> 0 < n \<Longrightarrow>
    net_step reuse s (s\<lparr>pc := (pc s)(Caller t := R_enter k n)\<rparr>)"
| net_recv: "pc_conn (pc s (Caller t)) = Some k \<Longrightarrow> Recv_step i (pc s (Caller t)) (conn s k) = Some (p, c, out) \<Longrightarrow>
    kernel_recv i (pc s (Caller t)) (fds s) (inbox s) = Some ib \<Longrightarrow>
    net_step reuse s (s\<lparr>conn := (conn s)(k := c), pc := (pc s)(Caller t := p), inbox := ib,
      got := (got s)(k := got s k @ bytes_of out)\<rparr>)"
| net_close: "pc s (Caller t) = Idle \<Longrightarrow> k < made s \<Longrightarrow> alive s k \<Longrightarrow>
    net_step reuse s (s\<lparr>pc := (pc s)(Caller t := Teardown_at Td_exchange k Net_SHUTDOWN C_close_return)\<rparr>)"
| net_teardown: "pc s t = Teardown_at p k r cont \<Longrightarrow>
    net_step reuse s (s\<lparr>conn := (conn s)(k := td_local p (conn s k)),
      pc := (pc s)(t := td_pc p k r cont (conn s k)),
      fds := (if p = Td_close then (fds s)(nc_fd (conn s k) := None) else fds s),
      published := (if p = Td_publish \<and> is_server_side (conn s k) \<and> alive s k then published s @ [(k, r)]
                    else published s),
      stage := (stage s)(k := stage_next p t (conn s k) (stage s k))\<rparr>)"
| net_drop: "(\<exists>u. t = Caller u \<and> pc s t = Idle) \<or> (t = Snd k \<and> pc s t = S_return k) \<Longrightarrow> k < made s \<Longrightarrow> alive s k \<Longrightarrow>
    \<forall>u. u \<noteq> t \<and> u \<noteq> Snd k \<longrightarrow> pc_conn (pc s u) \<noteq> Some k \<Longrightarrow>
    net_step reuse s (s\<lparr>alive := (alive s)(k := False),
      pc := (pc s)(t := Teardown_at Td_exchange k Net_SHUTDOWN C_destroy)\<rparr>)"
| net_join: "pc s t = D_join k \<Longrightarrow> destroy_join (t = Snd k) (pc s (Snd k) = Ended) (conn s k) = Some c \<Longrightarrow>
    net_step reuse s (s\<lparr>conn := (conn s)(k := c), pc := (pc s)(t := (if t = Snd k then Ended else Idle))\<rparr>)"
| net_arrive: "k < made s \<Longrightarrow>
    net_step reuse s (s\<lparr>inbox := (inbox s)(k := inbox s k @ b), arrived := (arrived s)(k := arrived s k @ b)\<rparr>)"

definition net_init :: "NetSys \<Rightarrow> bool" where
  "net_init s \<longleftrightarrow> made s = 0 \<and> fds s = Map.empty \<and> pc s = (\<lambda>_. Idle) \<and> published s = [] \<and>
     stage s = (\<lambda>_. Live) \<and> wire s = (\<lambda>_. []) \<and> inbox s = (\<lambda>_. []) \<and> queued s = (\<lambda>_. []) \<and>
     arrived s = (\<lambda>_. []) \<and> got s = (\<lambda>_. [])"

section \<open>Who can be where\<close>

fun sender_pc :: "nat \<Rightarrow> Pc \<Rightarrow> bool" where
  "sender_pc k Idle = True"
| "sender_pc k Ended = True"
| "sender_pc k (S_head j) = (j = k)"
| "sender_pc k (S_pop j) = (j = k)"
| "sender_pc k (S_inner j x) = (j = k)"
| "sender_pc k (S_send j fd x) = (j = k)"
| "sender_pc k (S_poll j fd x) = (j = k)"
| "sender_pc k (S_return j) = (j = k)"
| "sender_pc k (Teardown_at p j r cont) = (j = k \<and> (cont = C_send_return \<or> cont = C_destroy))"
| "sender_pc k (D_join j) = (j = k)"
| "sender_pc k _ = False"

fun caller_pc :: "nat \<Rightarrow> Pc \<Rightarrow> bool" where
  "caller_pc n Idle = True"
| "caller_pc n (Push_chunk k x) = (k < n)"
| "caller_pc n (R_enter k m) = (k < n)"
| "caller_pc n (R_poll k fd m) = (k < n)"
| "caller_pc n (R_recv k fd m) = (k < n)"
| "caller_pc n (R_unlock k e) = (k < n)"
| "caller_pc n (Teardown_at p k r cont) = (k < n \<and> cont \<noteq> C_send_return)"
| "caller_pc n (D_join k) = (k < n)"
| "caller_pc n _ = False"

definition pcs_inv :: "NetSys \<Rightarrow> bool" where
  "pcs_inv s \<longleftrightarrow> (\<forall>u. caller_pc (made s) (pc s (Caller u))) \<and> (\<forall>k. sender_pc k (pc s (Snd k))) \<and>
     (\<forall>k \<ge> made s. pc s (Snd k) = Idle)"

lemma caller_pc_mono: "caller_pc n p \<Longrightarrow> n \<le> m \<Longrightarrow> caller_pc m p"
  by (cases p) auto

lemma SendLoop_step_sender:
  "SendLoop_step i p c = Some (p', c') \<Longrightarrow> sender_pc k p \<Longrightarrow> p \<noteq> Idle \<and> sender_pc k p'"
  by (induction i p c rule: SendLoop_step.induct) (auto split: option.splits if_splits NetSend.splits NetPoll.splits)

lemma Recv_step_caller:
  "Recv_step i p c = Some (p', c', out) \<Longrightarrow> caller_pc n p \<Longrightarrow> caller_pc n p'"
  by (induction i p c rule: Recv_step.induct) (auto split: if_splits NetPoll.splits NetRecv.splits)

lemma td_pc_cases:
  "td_pc p k r cont c = (if p = Td_exchange \<and> \<not> connected c \<or> p = Td_publish then after_teardown k cont
     else Teardown_at (the (td_next p c)) k r cont)"
  by (cases p) (auto simp: td_pc_def)

lemma td_pc_sender: "sender_pc k (Teardown_at p j r cont) \<Longrightarrow> sender_pc k (td_pc p j r cont c)"
  by (auto simp: td_pc_cases)

lemma td_pc_caller: "caller_pc n (Teardown_at p j r cont) \<Longrightarrow> caller_pc n (td_pc p j r cont c)"
  by (cases cont) (auto simp: td_pc_cases)

lemma pcs_inv_caller:
  assumes "pcs_inv s" "caller_pc (made s) p" "pc s' = (pc s)(Caller t := p)" "made s' = made s"
  shows "pcs_inv s'"
  using assms by (auto simp: pcs_inv_def)

lemma pcs_inv_sender:
  assumes "pcs_inv s" "sender_pc k p" "pc s (Snd k) \<noteq> Idle" "pc s' = (pc s)(Snd k := p)" "made s' = made s"
  shows "pcs_inv s'"
  using assms by (auto simp: pcs_inv_def)

lemma pcs_inv_teardown:
  assumes "pcs_inv s" "pc s t = Teardown_at p k r cont" "pc s' = (pc s)(t := td_pc p k r cont c)" "made s' = made s"
  shows "pcs_inv s'"
proof (cases t)
  case (Snd j)
  with assms have "sender_pc j (Teardown_at p k r cont)" by (metis pcs_inv_def)
  with assms Snd show ?thesis by (intro pcs_inv_sender [OF assms(1) td_pc_sender [of j p k r cont c]]) auto
next
  case (Caller u)
  with assms have "caller_pc (made s) (Teardown_at p k r cont)" by (metis pcs_inv_def)
  with assms Caller show ?thesis by (intro pcs_inv_caller [OF assms(1) td_pc_caller [of "made s" p k r cont c]]) auto
qed

lemma pcs_inv_step: "net_step reuse s s' \<Longrightarrow> pcs_inv s \<Longrightarrow> pcs_inv s'"
proof (induction rule: net_step.induct)
  case (net_create s t fd created addr port srv e c)
  then show ?case by (auto simp: pcs_inv_def intro: caller_pc_mono)
next
  case (net_sender i s k p c wr)
  then have "pc s (Snd k) \<noteq> Idle \<and> sender_pc k p" using SendLoop_step_sender by (metis pcs_inv_def)
  with net_sender(3) show ?case by - (rule pcs_inv_sender [of s k p], simp_all)
next
  case (net_recv s t k i p c out ib)
  then have "caller_pc (made s) p" using Recv_step_caller by (metis pcs_inv_def)
  with net_recv(4) show ?case by - (rule pcs_inv_caller [of s p _ t], simp_all)
next
  case (net_teardown s t p k r cont)
  then show ?case by - (rule pcs_inv_teardown [of s t p k r cont], simp_all)
next
  case (net_drop t s k)
  then show ?case by (auto simp: pcs_inv_def)
next
  case (net_join s t k c)
  then show ?case by (cases t) (auto simp: pcs_inv_def)
qed (auto simp: pcs_inv_def)

section \<open>The state of one connection\<close>

definition holds_fd :: "Stage \<Rightarrow> bool" where
  "holds_fd st = (case st of Live \<Rightarrow> True | Claimed p t \<Rightarrow> p = Td_stop \<or> p = Td_queue \<or> p = Td_close | Torn \<Rightarrow> False)"

lemma holds_fd_Live [simp]: "holds_fd Live"
  by (simp add: holds_fd_def)

definition conn_ok :: "NetworkConnection \<Rightarrow> Stage \<Rightarrow> int \<Rightarrow> bool" where
  "conn_ok c st f \<longleftrightarrow>
     (connected c \<longleftrightarrow> st = Live) \<and> 0 \<le> f \<and> (\<forall>t. st \<noteq> Claimed Td_exchange t) \<and>
     nc_fd c = (if holds_fd st \<or> (\<exists>t. st = Claimed Td_reset t) then f else -1) \<and>
     (nc_stop_requested c \<longleftrightarrow> st \<noteq> Live \<and> (\<forall>t. st \<noteq> Claimed Td_stop t)) \<and>
     queue_inv (send_queue c) \<and>
     queue_state (send_queue c) =
       (if st = Live \<or> (\<exists>t. st = Claimed Td_stop t \<or> st = Claimed Td_queue t) then Queue_RUNNING else Queue_SHUTDOWN)"

lemma conn_ok_new:
  "0 \<le> f \<Longrightarrow> NetworkConnection_Start created (NetworkConnection_new f a p srv) = (e, c) \<Longrightarrow> conn_ok c Live f"
  by (auto simp: conn_ok_def holds_fd_def NetworkConnection_Start_def NetworkConnection_new_def Let_def Queue_new_def
      kSendQueueCapacity_def queue_inv_def split: if_splits)

lemma conn_ok_frame:
  assumes "conn_ok c st f" "connected c' = connected c" "nc_fd c' = nc_fd c" "nc_stop_requested c' = nc_stop_requested c"
    "queue_inv (send_queue c')" "queue_state (send_queue c') = queue_state (send_queue c)"
  shows "conn_ok c' st f"
  using assms by (simp add: conn_ok_def)

lemma shutdown_queue:
  "queue_inv q \<Longrightarrow> queue_inv (fst (snd (Queue_Shutdown IMMEDIATE q))) \<and>
    queue_state (fst (snd (Queue_Shutdown IMMEDIATE q))) = Queue_SHUTDOWN"
  by (auto simp: Queue_Shutdown_def queue_inv_def)

lemma conn_ok_td:
  assumes "conn_ok c st f" "p \<noteq> Td_exchange \<Longrightarrow> st = Claimed p t"
  shows "conn_ok (td_local p c) (stage_next p t c st) f"
  using assms shutdown_queue [of "send_queue c"]
  by (cases p) (auto simp: conn_ok_def stage_next_def holds_fd_def)

lemma SendLoop_step_conn:
  "SendLoop_step i p c = Some (p', c') \<Longrightarrow> c' = c \<or> (\<exists>k b e r q ns. p = S_pop k \<and> i = In_pop b \<and>
     Queue_PopFor b (send_queue c) = Some (e, r, q, ns) \<and> c' = c\<lparr>send_queue := q\<rparr>)"
  by (induction i p c rule: SendLoop_step.induct) (auto split: option.splits)

lemma popFor_queue:
  assumes "Queue_PopFor b q = Some (e, r, q', ns)" "queue_inv q" "queue_state q \<noteq> Queue_DRAINING"
  shows "queue_inv q' \<and> queue_state q' = queue_state q"
  using assms
  by (cases "items q") (auto simp: Queue_PopFor_def pop_ready_def pop_body_def queue_inv_def split: if_splits)

lemma conn_ok_sender:
  assumes "SendLoop_step i p c = Some (p', c')" "conn_ok c st f"
  shows "conn_ok c' st f"
proof -
  have q: "queue_state (send_queue c) \<noteq> Queue_DRAINING" "queue_inv (send_queue c)" using assms(2) by (auto simp: conn_ok_def)
  from SendLoop_step_conn [OF assms(1)] show ?thesis
  proof
    assume "c' = c"
    with assms(2) show ?thesis by simp
  next
    assume "\<exists>k b e r q ns. p = S_pop k \<and> i = In_pop b \<and>
      Queue_PopFor b (send_queue c) = Some (e, r, q, ns) \<and> c' = c\<lparr>send_queue := q\<rparr>"
    then obtain b e r q ns where p: "Queue_PopFor b (send_queue c) = Some (e, r, q, ns)" "c' = c\<lparr>send_queue := q\<rparr>" by blast
    with popFor_queue [OF p(1) q(2,1)] show ?thesis by (intro conn_ok_frame [OF assms(2)]) simp_all
  qed
qed

lemma conn_ok_push:
  assumes "send_push chunk c = (e, c')" "conn_ok c st f"
  shows "conn_ok c' st f"
  using assms
  by (intro conn_ok_frame [OF assms(2)])
    (auto simp: send_push_def Queue_Push_def conn_ok_def queue_inv_def split: if_splits)

lemma conn_ok_recv:
  assumes "Recv_step i p c = Some (p', c', out)" "conn_ok c st f"
  shows "conn_ok c' st f"
  using assms
  by (intro conn_ok_frame [OF assms(2)]; cases i; cases p) (auto simp: conn_ok_def split: if_splits NetRecv.splits)

section \<open>Teardown happens once\<close>

text \<open>The statement a thread that has won the exchange is at, and the connection.\<close>

fun tearing :: "Pc \<Rightarrow> (TdPc \<times> nat) option" where
  "tearing (Teardown_at p k r cont) = (if p = Td_exchange then None else Some (p, k))"
| "tearing _ = None"

definition stage_inv :: "NetSys \<Rightarrow> bool" where
  "stage_inv s \<longleftrightarrow> (\<forall>t p k. tearing (pc s t) = Some (p, k) \<longleftrightarrow> stage s k = Claimed p t)"

definition fds_inv :: "NetSys \<Rightarrow> bool" where
  "fds_inv s \<longleftrightarrow> (\<forall>f k. fds s f = Some k \<longleftrightarrow> k < made s \<and> f = fd0 s k \<and> holds_fd (stage s k))"

definition events :: "nat \<Rightarrow> (nat \<times> NetworkError) list \<Rightarrow> NetworkError list" where
  "events k ps = map snd (filter (\<lambda>e. fst e = k) ps)"

definition events_inv :: "NetSys \<Rightarrow> bool" where
  "events_inv s \<longleftrightarrow> (\<forall>k. length (events k (published s)) \<le> (if stage s k = Torn then 1 else 0))"

definition conns_inv :: "NetSys \<Rightarrow> bool" where
  "conns_inv s \<longleftrightarrow> (\<forall>k < made s. conn_ok (conn s k) (stage s k) (fd0 s k)) \<and> (\<forall>k \<ge> made s. stage s k = Live)"

definition net_inv :: "NetSys \<Rightarrow> bool" where
  "net_inv s \<longleftrightarrow> pcs_inv s \<and> stage_inv s \<and> conns_inv s \<and> fds_inv s \<and> events_inv s"

lemma tearing_after_teardown [simp]: "tearing (after_teardown k cont) = None"
  by (cases cont) auto

lemma SendLoop_step_tearing:
  "SendLoop_step i p c = Some (p', c') \<Longrightarrow> tearing p = None \<and> tearing p' = None"
  by (induction i p c rule: SendLoop_step.induct) (auto split: option.splits if_splits NetSend.splits NetPoll.splits)

lemma Recv_step_tearing:
  "Recv_step i p c = Some (p', c', out) \<Longrightarrow> tearing p = None \<and> tearing p' = None"
  by (induction i p c rule: Recv_step.induct) (auto split: if_splits NetPoll.splits NetRecv.splits)

lemma pc_conn_made:
  assumes "pcs_inv s" "pc_conn (pc s t) = Some k"
  shows "k < made s"
proof (cases t)
  case (Snd j)
  have "sender_pc j p \<Longrightarrow> pc_conn p = Some k \<Longrightarrow> k = j \<and> p \<noteq> Idle" for p by (cases p) auto
  with assms Snd have "k = j" "pc s (Snd j) \<noteq> Idle" by (auto simp: pcs_inv_def)
  with assms show ?thesis by (auto simp: pcs_inv_def not_less [symmetric])
next
  case (Caller u)
  have "caller_pc n p \<Longrightarrow> pc_conn p = Some k \<Longrightarrow> k < n" for p n by (cases p) auto
  with assms Caller show ?thesis by (auto simp: pcs_inv_def)
qed

lemma stage_inv_pc:
  assumes "stage_inv s" "tearing (pc s t) = None" "tearing p = None" "pc s' = (pc s)(t := p)" "stage s' = stage s"
  shows "stage_inv s'"
  using assms unfolding stage_inv_def by (metis fun_upd_apply option.distinct(1))

lemma stage_inv_at:
  assumes "stage_inv s" "pc s t = Teardown_at p k r cont" "p \<noteq> Td_exchange"
  shows "stage s k = Claimed p t"
proof -
  have "tearing (pc s t) = Some (p, k)" using assms(2,3) by simp
  with assms(1) show ?thesis by (simp only: stage_inv_def)
qed

lemma stage_inv_teardown:
  assumes inv: "stage_inv s" and pc: "pc s t = Teardown_at p k r cont"
    and pc': "pc s' = (pc s)(t := td_pc p k r cont c)"
    and st': "stage s' = (stage s)(k := stage_next p t c (stage s k))"
    and ok: "conn_ok c (stage s k) f"
  shows "stage_inv s'"
proof (cases "p = Td_exchange \<and> \<not> connected c")
  case True
  then have "stage s' = stage s" "td_pc p k r cont c = after_teardown k cont"
    by (auto simp: st' stage_next_def td_pc_cases)
  with True pc show ?thesis by (intro stage_inv_pc [OF inv _ _ pc']) auto
next
  case False
  have mine: "stage s k = (if p = Td_exchange then Live else Claimed p t)"
    using stage_inv_at [OF inv pc] ok False by (auto simp: conn_ok_def)
  have tk: "tearing (pc s u) = Some (q, j) \<Longrightarrow> (u = t) = (j = k)" for u q j
    using inv mine pc unfolding stage_inv_def by (cases "u = t") (auto split: if_splits)
  have "(case td_next p c of None \<Rightarrow> tearing (td_pc p k r cont c) = None \<and> stage_next p t c (stage s k) = Torn
     | Some p' \<Rightarrow> tearing (td_pc p k r cont c) = Some (p', k) \<and> stage_next p t c (stage s k) = Claimed p' t)"
    using False by (cases p) (auto simp: stage_next_def td_pc_def)
  with inv tk show ?thesis
    unfolding stage_inv_def pc' st' by (cases "td_next p c") (auto, (metis prod.inject option.inject)+)
qed

lemma stage_inv_step: "net_step reuse s s' \<Longrightarrow> net_inv s \<Longrightarrow> stage_inv s'"
proof (induction rule: net_step.induct)
  case (net_create s t fd created addr port srv e c)
  have inv: "stage_inv s" using net_create(6) by (auto simp: net_inv_def)
  have "pc s (Snd (made s)) = Idle" using net_create(6) by (auto simp: net_inv_def pcs_inv_def)
  with net_create(1) show ?case
    by (cases "e = Net_SUCCESS") (auto intro!: stage_inv_pc [OF inv])
next
  case (net_sender i s k p c wr)
  with SendLoop_step_tearing [OF net_sender(1)] show ?case
    by - (rule stage_inv_pc [where s = s and t = "Snd k" and p = p], simp_all add: net_inv_def)
next
  case (net_recv s t k i p c out ib)
  with Recv_step_tearing [OF net_recv(2)] show ?case
    by - (rule stage_inv_pc [where s = s and t = "Caller t" and p = p], simp_all add: net_inv_def)
next
  case (net_teardown s t p k r cont)
  have inv: "stage_inv s" "conns_inv s" using net_teardown(2) by (auto simp: net_inv_def)
  have "k < made s" using net_teardown pc_conn_made [of s t k] by (simp add: net_inv_def)
  then have "conn_ok (conn s k) (stage s k) (fd0 s k)" using inv(2) by (simp add: conns_inv_def)
  from stage_inv_teardown [OF inv(1) net_teardown(1) _ _ this] show ?case by simp
next
  case (net_drop t s k)
  then show ?case
    by - (rule stage_inv_pc [where s = s and t = t and p = "Teardown_at Td_exchange k Net_SHUTDOWN C_destroy"],
        auto simp: net_inv_def)
next
  case (net_join s t k c)
  then show ?case
    by - (rule stage_inv_pc [where s = s and t = t and p = "if t = Snd k then Ended else Idle"],
        auto simp: net_inv_def)
next
  case (net_arrive k s b)
  then show ?case by (simp add: net_inv_def stage_inv_def)
qed (rule stage_inv_pc; force simp: net_inv_def)+

lemma conns_inv_upd:
  assumes "conns_inv s" "k < made s" "conn_ok c (stage s k) (fd0 s k)" "conn s' = (conn s)(k := c)" "made s' = made s"
    "stage s' = stage s" "fd0 s' = fd0 s"
  shows "conns_inv s'"
  using assms by (simp add: conns_inv_def)

lemma conns_inv_step: "net_step reuse s s' \<Longrightarrow> net_inv s \<Longrightarrow> conns_inv s'"
proof (induction rule: net_step.induct)
  case (net_create s t fd created addr port srv e c)
  have "conn_ok c Live fd" by (rule conn_ok_new [OF net_create(2,5)])
  with net_create(6) show ?case by (auto simp: net_inv_def conns_inv_def less_Suc_eq)
next
  case (net_push s t k chunk e c)
  then have "k < made s" using pc_conn_made [of s "Caller t" k] by (simp add: net_inv_def)
  with net_push conn_ok_push [OF net_push(2)] show ?case
    by - (rule conns_inv_upd [where s = s and k = k and c = c], simp_all add: net_inv_def conns_inv_def)
next
  case (net_sender i s k p c wr)
  then have "pc s (Snd k) \<noteq> Idle" using SendLoop_step_sender by (metis net_inv_def pcs_inv_def)
  with net_sender(3) have "k < made s" by (auto simp: net_inv_def pcs_inv_def not_le [symmetric])
  with net_sender(3) conn_ok_sender [OF net_sender(1)] show ?case
    by - (rule conns_inv_upd [where s = s and k = k and c = c], simp_all add: net_inv_def conns_inv_def)
next
  case (net_recv s t k i p c out ib)
  then have "k < made s" using pc_conn_made [of s "Caller t" k] by (simp add: net_inv_def)
  with net_recv(4) conn_ok_recv [OF net_recv(2)] show ?case
    by - (rule conns_inv_upd [where s = s and k = k and c = c], simp_all add: net_inv_def conns_inv_def)
next
  case (net_teardown s t p k r cont)
  then have k: "k < made s" using pc_conn_made [of s t k] by (simp add: net_inv_def)
  have "conn_ok (td_local p (conn s k)) (stage_next p t (conn s k) (stage s k)) (fd0 s k)"
    using net_teardown k stage_inv_at [of s t p k r cont] by (intro conn_ok_td) (simp_all add: net_inv_def conns_inv_def)
  with net_teardown(2) k show ?case by (auto simp: net_inv_def conns_inv_def)
next
  case (net_join s t k c)
  then have "k < made s" using pc_conn_made [of s t k] by (simp add: net_inv_def)
  moreover have "c = conn s k \<or> c = (conn s k)\<lparr>sender_joinable := False\<rparr>"
    using net_join(2) by (auto simp: destroy_join_def split: if_splits)
  ultimately have "k < made s" "conn_ok c (stage s k) (fd0 s k)"
    using net_join(3) by (auto simp: net_inv_def conns_inv_def conn_ok_def)
  then show ?case
    using net_join(3) by - (rule conns_inv_upd [where s = s and k = k and c = c], simp_all add: net_inv_def)
qed (simp_all add: net_inv_def conns_inv_def)

lemma holds_fd_next:
  assumes "conn_ok c st f" "p \<noteq> Td_exchange \<Longrightarrow> st = Claimed p t"
  shows "holds_fd (stage_next p t c st) \<longleftrightarrow> holds_fd st \<and> p \<noteq> Td_close"
  using assms by (cases p) (auto simp: stage_next_def holds_fd_def conn_ok_def)

lemma fds_inv_step: "net_step reuse s s' \<Longrightarrow> net_inv s \<Longrightarrow> fds_inv s'"
proof (induction rule: net_step.induct)
  case (net_create s t fd created addr port srv e c)
  then have "fds_inv s" "stage s (made s) = Live" by (auto simp: net_inv_def conns_inv_def)
  moreover have "k < made s \<Longrightarrow> holds_fd (stage s k) \<Longrightarrow> fd0 s k \<noteq> fd" for k
    using net_create(3) \<open>fds_inv s\<close> by (metis fds_inv_def option.distinct(1))
  ultimately show ?case by (auto simp: fds_inv_def less_Suc_eq)
next
  case (net_teardown s t p k r cont)
  then have k: "k < made s" using pc_conn_made [of s t k] by (simp add: net_inv_def)
  have ok: "conn_ok (conn s k) (stage s k) (fd0 s k)" using net_teardown(2) k by (simp add: net_inv_def conns_inv_def)
  have st: "stage s k = Claimed p t" if "p \<noteq> Td_exchange"
    using that net_teardown stage_inv_at [of s t p k r cont] by (simp add: net_inv_def)
  have fi: "fds s f = Some j \<longleftrightarrow> j < made s \<and> f = fd0 s j \<and> holds_fd (stage s j)" for f j
    using net_teardown(2) by (simp add: net_inv_def fds_inv_def)
  show ?case
  proof (cases "p = Td_close")
    case True
    then have "nc_fd (conn s k) = fd0 s k" "fds s (fd0 s k) = Some k"
      using st ok k fi by (auto simp: conn_ok_def holds_fd_def)
    with True show ?thesis
      using fi k holds_fd_next [OF ok st] unfolding fds_inv_def by (auto split: if_splits) (metis option.inject)+
  next
    case False
    then show ?thesis using fi holds_fd_next [OF ok st] unfolding fds_inv_def by auto
  qed
qed (simp_all add: net_inv_def fds_inv_def)

lemma events_append: "events k (ps @ qs) = events k ps @ events k qs"
  by (simp add: events_def)

lemma events_inv_step: "net_step reuse s s' \<Longrightarrow> net_inv s \<Longrightarrow> events_inv s'"
proof (induction rule: net_step.induct)
  case (net_teardown s t p k r cont)
  then have k: "k < made s" using pc_conn_made [of s t k] by (simp add: net_inv_def)
  have ok: "conn_ok (conn s k) (stage s k) (fd0 s k)" using net_teardown(2) k by (simp add: net_inv_def conns_inv_def)
  have st: "stage s k = Claimed p t" if "p \<noteq> Td_exchange"
    using that net_teardown stage_inv_at [of s t p k r cont] by (simp add: net_inv_def)
  have ev: "length (events j (published s)) \<le> (if stage s j = Torn then 1 else 0)" for j
    using net_teardown(2) by (simp add: net_inv_def events_inv_def)
  have "stage_next p t (conn s k) (stage s k) = Torn \<longleftrightarrow> stage s k = Torn \<or> p = Td_publish"
    using ok st by (cases p) (auto simp: stage_next_def conn_ok_def)
  then have "length (events j (if p = Td_publish \<and> is_server_side (conn s k) \<and> alive s k then published s @ [(k, r)]
      else published s)) \<le> (if ((stage s)(k := stage_next p t (conn s k) (stage s k))) j = Torn then 1 else 0)" for j
    using ev [of j] st by (cases "j = k") (auto simp: events_append events_def [of _ "[_]"] split: if_splits)
  then show ?case by (simp add: events_inv_def)
qed (simp_all add: net_inv_def events_inv_def)

lemma net_inv_step: "net_step reuse s s' \<Longrightarrow> net_inv s \<Longrightarrow> net_inv s'"
  using pcs_inv_step stage_inv_step conns_inv_step fds_inv_step events_inv_step unfolding net_inv_def by blast

interpretation net_sys: inductive_invariant net_init "net_step reuse" net_inv for reuse
proof
  show "net_inv s" if "net_init s" for s
    using that by (auto simp: net_init_def net_inv_def pcs_inv_def stage_inv_def conns_inv_def fds_inv_def events_inv_def
        events_def)
qed (rule net_inv_step)

section \<open>The byte streams\<close>

fun rest_of :: "Pc \<Rightarrow> u8 list" where
  "rest_of (S_inner k r) = r"
| "rest_of (S_send k fd r) = r"
| "rest_of (S_poll k fd r) = r"
| "rest_of _ = []"

fun looping :: "Pc \<Rightarrow> bool" where
  "looping (S_head k) = True"
| "looping (S_pop k) = True"
| "looping (S_inner k r) = True"
| "looping (S_send k fd r) = True"
| "looping (S_poll k fd r) = True"
| "looping _ = False"

text \<open>What has been written, then what the sender holds, then what is still queued (or was thrown
  away) is what \<open>Send\<close> accepted.\<close>

definition stream_ok :: "u8 list \<Rightarrow> Pc \<Rightarrow> NetworkConnection \<Rightarrow> u8 list \<Rightarrow> bool" where
  "stream_ok wr p c qd \<longleftrightarrow> (\<exists>zs. wr @ rest_of p @ zs = qd \<and>
     (looping p \<and> queue_state (send_queue c) = Queue_RUNNING \<longrightarrow> zs = concat (items (send_queue c))))"

text \<open>The descriptors threads hold in local variables.\<close>

fun fd_held :: "Pc \<Rightarrow> int option" where
  "fd_held (S_send k fd r) = Some fd"
| "fd_held (S_poll k fd r) = Some fd"
| "fd_held (R_poll k fd n) = Some fd"
| "fd_held (R_recv k fd n) = Some fd"
| "fd_held _ = None"

definition local_fds :: "NetSys \<Rightarrow> bool" where
  "local_fds s \<longleftrightarrow> inj_on (fd0 s) {..<made s} \<and>
     (\<forall>t k fd. pc_conn (pc s t) = Some k \<and> fd_held (pc s t) = Some fd \<longrightarrow> fd = fd0 s k \<or> fd = -1)"

definition streams :: "NetSys \<Rightarrow> bool" where
  "streams s \<longleftrightarrow> (\<forall>k. stream_ok (wire s k) (pc s (Snd k)) (conn s k) (queued s k)) \<and>
     (\<forall>k \<ge> made s. wire s k = [] \<and> queued s k = []) \<and> (\<forall>k. got s k @ inbox s k = arrived s k)"

lemma stream_ok_lost: "stream_ok wr p c qd \<Longrightarrow> \<not> looping p' \<Longrightarrow> rest_of p' = [] \<Longrightarrow> stream_ok wr p' c' qd"
  by (auto simp: stream_ok_def)

lemma stream_ok_push:
  assumes "stream_ok wr p c qd" "send_push chunk c = (e, c')"
  shows "stream_ok wr p c' (if e = Net_SUCCESS then qd @ chunk else qd)"
  using assms by (auto simp: stream_ok_def send_push_def Queue_Push_def split: if_splits)

lemma stream_ok_td: "stream_ok wr p c qd \<Longrightarrow> stream_ok wr p (td_local q c) qd"
  by (cases q) (auto simp: stream_ok_def Queue_Shutdown_def)

lemma stream_ok_pop:
  assumes "stream_ok wr (S_pop k) c qd" "queue_inv (send_queue c)" "queue_state (send_queue c) \<noteq> Queue_DRAINING"
    and "SendLoop_step (In_pop b) (S_pop k) c = Some (p', c')"
  shows "stream_ok wr p' c' qd"
proof (cases "items (send_queue c)")
  case Nil
  with assms show ?thesis
    by (auto simp: stream_ok_def Queue_PopFor_def pop_ready_def pop_body_def split: if_splits)
next
  case (Cons x xs)
  with assms(2,3) have "queue_state (send_queue c) = Queue_RUNNING" by (cases "queue_state (send_queue c)") (auto simp: queue_inv_def)
  with assms Cons show ?thesis
    by (auto simp: stream_ok_def Queue_PopFor_def pop_ready_def pop_body_def)
qed

text \<open>One statement of the sender, with the bytes it wrote on its own socket.\<close>

definition sent_by :: "SendIn \<Rightarrow> Pc \<Rightarrow> u8 list" where
  "sent_by i p = (case i of In_send (NSent n) \<Rightarrow> (case p of S_send k fd r \<Rightarrow> take n r | _ \<Rightarrow> []) | _ \<Rightarrow> [])"

lemma take_drop_append [simp]: "take n r @ drop n r @ z = r @ z"
  by (metis append.assoc append_take_drop_id)

lemma stream_ok_sender:
  assumes "stream_ok wr p c qd" "conn_ok c st f" "SendLoop_step i p c = Some (p', c')"
  shows "stream_ok (wr @ sent_by i p) p' c' qd"
proof (cases "\<exists>k b. p = S_pop k \<and> i = In_pop b")
  case True
  then obtain k b where p: "p = S_pop k" "i = In_pop b" by blast
  have "queue_inv (send_queue c)" "queue_state (send_queue c) \<noteq> Queue_DRAINING" using assms(2) by (auto simp: conn_ok_def)
  from stream_ok_pop [OF assms(1) [unfolded p] this assms(3) [unfolded p]] show ?thesis by (simp add: p sent_by_def)
next
  case False
  with assms(1,3) show ?thesis
    by (induction i p c rule: SendLoop_step.induct)
      (auto simp: stream_ok_def sent_by_def split: if_splits NetSend.splits NetPoll.splits)
qed

lemma SendLoop_step_fd:
  assumes "SendLoop_step i p c = Some (p', c')"
  shows "pc_conn p' = pc_conn p \<or> p' = Ended" "fd_held p' = Some fd \<Longrightarrow> fd = nc_fd c"
  using assms
  by (induction i p c rule: SendLoop_step.induct)
    (auto split: option.splits if_splits NetSend.splits NetPoll.splits)

lemma Recv_step_fd:
  assumes "Recv_step i p c = Some (p', c', out)"
  shows "pc_conn p' = pc_conn p \<or> p' = Idle" "fd_held p' = Some fd \<Longrightarrow> fd = nc_fd c \<or> fd_held p = Some fd"
  using assms
  by (induction i p c rule: Recv_step.induct) (auto split: if_splits NetPoll.splits NetRecv.splits)

lemma conn_ok_fd: "conn_ok c st f \<Longrightarrow> nc_fd c = f \<or> nc_fd c = -1"
  by (auto simp: conn_ok_def)

lemma local_fds_pc:
  assumes "local_fds s" "pc s' = (pc s)(t := p)" "fd0 s' = fd0 s" "made s' = made s"
    and "\<And>k fd. pc_conn p = Some k \<Longrightarrow> fd_held p = Some fd \<Longrightarrow> fd = fd0 s k \<or> fd = -1"
  shows "local_fds s'"
  using assms unfolding local_fds_def by simp

lemma fd_held_after [simp]: "fd_held (td_pc p k r cont c) = None"
  by (cases cont) (auto simp: td_pc_cases)

lemma local_fds_step: "net_step reuse s s' \<Longrightarrow> \<not> reuse \<Longrightarrow> net_inv s \<Longrightarrow> local_fds s \<Longrightarrow> local_fds s'"
proof (induction rule: net_step.induct)
  case (net_create s t fd created addr port srv e c)
  have lt: "k < made s" if "pc_conn (pc s u) = Some k" for u k
    using pc_conn_made that net_create(7) by (auto simp: net_inv_def)
  have "inj_on ((fd0 s)(made s := fd)) {..<Suc (made s)}"
    using net_create(4,6,8) by (auto simp: local_fds_def inj_on_def less_Suc_eq)
  moreover have "f = fd0 s k \<or> f = -1" if "pc_conn (pc s u) = Some k" "fd_held (pc s u) = Some f" for u k f
    using that net_create(8) by (auto simp: local_fds_def)
  moreover have "pc_conn (pc s u) \<noteq> Some (made s)" for u using lt [of u "made s"] by auto
  ultimately show ?case unfolding local_fds_def by auto
next
  case (net_sender i s k p c wr)
  show ?case
  proof (rule local_fds_pc [where s = s and t = "Snd k" and p = p])
    fix j fd assume j: "pc_conn p = Some j" "fd_held p = Some fd"
    with SendLoop_step_fd [OF net_sender(1)] have f: "fd = nc_fd (conn s k)" "pc_conn (pc s (Snd k)) = Some j" by auto
    have "sender_pc k (pc s (Snd k))" using net_sender(4) by (auto simp: net_inv_def pcs_inv_def)
    with f(2) have "j = k" by (cases "pc s (Snd k)") auto
    moreover have "j < made s" using f(2) pc_conn_made net_sender(4) by (auto simp: net_inv_def)
    ultimately show "fd = fd0 s j \<or> fd = -1"
      using f(1) net_sender(4) conn_ok_fd by (auto simp: net_inv_def conns_inv_def)
  qed (use net_sender(5) in simp_all)
next
  case (net_recv s t k i p c out ib)
  show ?case
  proof (rule local_fds_pc [where s = s and t = "Caller t" and p = p])
    fix j fd assume j: "pc_conn p = Some j" "fd_held p = Some fd"
    with Recv_step_fd [OF net_recv(2)] net_recv(1)
    have f: "fd = nc_fd (conn s k) \<or> fd_held (pc s (Caller t)) = Some fd" "j = k" by auto
    have "k < made s" using net_recv(1,5) pc_conn_made by (auto simp: net_inv_def)
    then have "nc_fd (conn s k) = fd0 s k \<or> nc_fd (conn s k) = -1"
      using net_recv(5) conn_ok_fd by (auto simp: net_inv_def conns_inv_def)
    with f net_recv(1,6) show "fd = fd0 s j \<or> fd = -1" unfolding local_fds_def by metis
  qed (use net_recv(6) in simp_all)
next
  case (net_teardown s t p k r cont)
  then show ?case by - (rule local_fds_pc [where s = s and t = t and p = "td_pc p k r cont (conn s k)"], simp_all)
next
  case (net_drop t s k)
  then show ?case
    by - (rule local_fds_pc [where s = s and t = t and p = "Teardown_at Td_exchange k Net_SHUTDOWN C_destroy"], simp_all)
next
  case (net_join s t k c)
  then show ?case by - (rule local_fds_pc [where s = s and t = t and p = "if t = Snd k then Ended else Idle"], simp_all split: if_splits)
qed (auto simp: local_fds_def)

lemma held_target:
  assumes "local_fds s" "fds_inv s" "conns_inv s" "pc_conn (pc s t) = Some k" "k < made s" "fd_held (pc s t) = Some fd"
    and "fds s fd = Some j"
  shows "j = k"
proof -
  have "j < made s" "fd = fd0 s j" using assms(2,7) by (auto simp: fds_inv_def)
  moreover have "0 \<le> fd0 s j" using assms(3) \<open>j < made s\<close> by (auto simp: conns_inv_def conn_ok_def)
  ultimately have "fd0 s j = fd0 s k" using assms(1,4,6) by (fastforce simp: local_fds_def)
  with assms(1,5) \<open>j < made s\<close> show ?thesis by (auto simp: local_fds_def inj_on_def)
qed

lemma kernel_send_own:
  assumes "kernel_send i p tab wr = Some wr'" "\<And>fd j. fd_held p = Some fd \<Longrightarrow> tab fd = Some j \<Longrightarrow> j = k"
  shows "wr' = wr(k := wr k @ sent_by i p)"
  using assms
  by (induction i p tab wr rule: kernel_send.induct)
    (auto simp: sent_by_def split: option.splits NetSend.splits if_splits SendIn.splits Pc.splits)

lemma Recv_step_out:
  "Recv_step i p c = Some (p', c', Some b) \<Longrightarrow> \<exists>k fd n. i = In_recv (NGot b) \<and> p = R_recv k fd n"
  by (induction i p c rule: Recv_step.induct) (auto split: if_splits NetPoll.splits NetRecv.splits)

lemma kernel_recv_own:
  assumes "kernel_recv i p tab ib = Some ib'" "Recv_step i p c = Some (p', c', out)"
    and "\<And>fd j. fd_held p = Some fd \<Longrightarrow> tab fd = Some j \<Longrightarrow> j = k"
  shows "bytes_of out @ ib' k = ib k \<and> (\<forall>j. j \<noteq> k \<longrightarrow> ib' j = ib j)"
proof (cases out)
  case None
  with assms have "ib' = ib"
    by (induction i p tab ib rule: kernel_recv.induct) (auto split: option.splits NetRecv.splits if_splits)
  with None show ?thesis by (simp add: bytes_of_def)
next
  case (Some b)
  with Recv_step_out assms(2) obtain j fd n where "i = In_recv (NGot b)" "p = R_recv j fd n" by metis
  with assms(1,3) Some show ?thesis by (auto simp: bytes_of_def prefix_def split: option.splits if_splits)
qed

lemma after_teardown_silent [simp]:
  "\<not> looping (after_teardown k cont)" "rest_of (after_teardown k cont) = []"
  by (cases cont; simp)+

lemma td_pc_silent [simp]: "\<not> looping (td_pc p k r cont c)" "rest_of (td_pc p k r cont c) = []"
  by (simp_all add: td_pc_cases)

text \<open>Without reuse of descriptors a sender only ever writes to its own socket.\<close>

lemma sender_writes_own:
  assumes inv: "net_inv s" "local_fds s" and step: "SendLoop_step i (pc s (Snd k)) (conn s k) = Some (p, c)"
    and ks: "kernel_send i (pc s (Snd k)) (fds s) (wire s) = Some wr"
  shows "k < made s" "wr = (wire s)(k := wire s k @ sent_by i (pc s (Snd k)))"
proof -
  have idle: "pc s (Snd k) \<noteq> Idle" "sender_pc k (pc s (Snd k))"
    using SendLoop_step_sender [OF step] inv(1) by (auto simp: net_inv_def pcs_inv_def)
  then show k: "k < made s" using inv(1) by (auto simp: net_inv_def pcs_inv_def not_le [symmetric])
  show "wr = (wire s)(k := wire s k @ sent_by i (pc s (Snd k)))"
  proof (rule kernel_send_own [OF ks])
    fix fd j assume h: "fd_held (pc s (Snd k)) = Some fd" "fds s fd = Some j"
    then have "pc_conn (pc s (Snd k)) = Some k" using idle by (cases "pc s (Snd k)") auto
    with h k inv show "j = k" by (intro held_target [of s "Snd k" k fd j]) (auto simp: net_inv_def)
  qed
qed

lemma streams_step: "net_step reuse s s' \<Longrightarrow> \<not> reuse \<Longrightarrow> net_inv s \<Longrightarrow> local_fds s \<Longrightarrow> streams s \<Longrightarrow> streams s'"
proof (induction rule: net_step.induct)
  case (net_create s t fd created addr port srv e c)
  have "stream_ok [] p c []" if "rest_of p = []" "items (send_queue c) = []" for p
    using that by (simp add: stream_ok_def)
  moreover have "items (send_queue c) = []"
    using net_create(5) by (auto simp: NetworkConnection_Start_def NetworkConnection_new_def Let_def Queue_new_def split: if_splits)
  moreover have "pc s (Snd (made s)) = Idle" using net_create(7) by (auto simp: net_inv_def pcs_inv_def)
  ultimately show ?case using net_create(9) by (auto simp: streams_def)
next
  case (net_push s t k chunk e c)
  then have "k < made s" using pc_conn_made [of s "Caller t" k] by (simp add: net_inv_def)
  with net_push(6) show ?case using stream_ok_push [OF _ net_push(2)] by (auto simp: streams_def)
next
  case (net_sender i s k p c wr)
  note own = sender_writes_own [OF net_sender(4,5,1,2)]
  have "stream_ok (wire s k @ sent_by i (pc s (Snd k))) p c (queued s k)"
    using net_sender own(1) by (intro stream_ok_sender [OF _ _ net_sender(1)]) (auto simp: streams_def net_inv_def conns_inv_def)
  then show ?case using net_sender(6) own by (auto simp: streams_def)
next
  case (net_recv s t k i p c out ib)
  have k: "k < made s" using net_recv(1,5) pc_conn_made by (auto simp: net_inv_def)
  have own: "bytes_of out @ ib k = inbox s k \<and> (\<forall>j. j \<noteq> k \<longrightarrow> ib j = inbox s j)"
    using net_recv k by (intro kernel_recv_own [OF net_recv(3,2)] held_target [of s "Caller t" k]) (auto simp: net_inv_def)
  have "send_queue c = send_queue (conn s k)"
    using net_recv(2) by (cases i; cases "pc s (Caller t)") (auto split: if_splits NetRecv.splits)
  then have "stream_ok wr q (conn s k) qd \<Longrightarrow> stream_ok wr q c qd" for wr q qd by (simp add: stream_ok_def)
  with own net_recv(7) show ?case by (auto simp: streams_def append_assoc)
next
  case (net_teardown s t p k r cont)
  have ok: "stream_ok (wire s j) (pc s (Snd j)) (conn s j) (queued s j)" for j using net_teardown(5) by (simp add: streams_def)
  have "stream_ok (wire s j) (((pc s)(t := td_pc p k r cont (conn s k))) (Snd j))
      (((conn s)(k := td_local p (conn s k))) j) (queued s j)" for j
    using ok [of j] stream_ok_td [OF ok [of j]] by (auto intro: stream_ok_lost)
  with net_teardown(5) show ?case by (simp add: streams_def)
next
  case (net_drop t s k)
  then show ?case by (auto simp: streams_def intro: stream_ok_lost)
next
  case (net_join s t k c)
  have "c = conn s k \<or> c = (conn s k)\<lparr>sender_joinable := False\<rparr>"
    using net_join(2) by (auto simp: destroy_join_def split: if_splits)
  then have "stream_ok wr q (conn s k) qd \<Longrightarrow> stream_ok wr q c qd" for wr q qd by (auto simp: stream_ok_def)
  with net_join(6) show ?case by (auto simp: streams_def intro: stream_ok_lost)
next
  case (net_arrive k s b)
  then show ?case by (auto simp: streams_def simp flip: append_assoc)
qed (simp_all add: streams_def)

definition net_stream_inv :: "NetSys \<Rightarrow> bool" where
  "net_stream_inv s \<longleftrightarrow> net_inv s \<and> local_fds s \<and> streams s"

interpretation net_streams: inductive_invariant net_init "net_step False" net_stream_inv
proof
  show "net_stream_inv s" if "net_init s" for s
    using that net_sys.inv_init [OF that]
    by (auto simp: net_stream_inv_def net_init_def local_fds_def streams_def stream_ok_def)
  show "net_stream_inv s'" if "net_step False s s'" "net_stream_inv s" for s s'
    using net_inv_step [OF that(1)] local_fds_step [OF that(1)] streams_step [OF that(1)] that(2)
    by (simp add: net_stream_inv_def)
qed

section \<open>The sender ends\<close>

text \<open>How many more statements the sender executes once the stop flag is set.\<close>

fun stop_steps :: "Pc \<Rightarrow> nat" where
  "stop_steps (S_send k fd r) = 5"
| "stop_steps (S_poll k fd r) = 4"
| "stop_steps (S_pop k) = 4"
| "stop_steps (S_inner k r) = 3"
| "stop_steps (S_head k) = 2"
| "stop_steps (S_return k) = 1"
| "stop_steps _ = 0"

fun in_send_loop :: "Pc \<Rightarrow> bool" where
  "in_send_loop (S_return k) = True"
| "in_send_loop p = looping p"

lemma SendLoop_step_rank:
  "SendLoop_step i p c = Some (p', c') \<Longrightarrow> nc_stop_requested c \<Longrightarrow> stop_steps p' < stop_steps p"
  by (induction i p c rule: SendLoop_step.induct) (auto split: option.splits if_splits NetSend.splits NetPoll.splits)

lemma SendLoop_step_enabled:
  assumes "in_send_loop p"
  shows "\<exists>i p' c'. SendLoop_step i p c = Some (p', c') \<and> (\<forall>tab wr. \<exists>wr'. kernel_send i p tab wr = Some wr')"
proof (cases p)
  case (S_head k)
  then show ?thesis by (intro exI [of _ In_go]) simp
next
  case (S_pop k)
  then show ?thesis
    by (intro exI [of _ "In_pop True"]) (cases "items (send_queue c)"; auto simp: Queue_PopFor_def pop_body_def)
next
  case (S_inner k r)
  then show ?thesis by (intro exI [of _ In_go]) simp
next
  case (S_send k fd r)
  then show ?thesis by (intro exI [of _ "In_send NSend_other"]) (simp split: option.splits)
next
  case (S_poll k fd r)
  then show ?thesis by (intro exI [of _ "In_poll NPoll_timeout"]) simp
next
  case (S_return k)
  then show ?thesis by (intro exI [of _ In_go]) simp
qed (use assms in simp_all)

text \<open>A run of the sender alone, with the stop flag left as it is.\<close>

fun run_SendLoop :: "SendIn list \<Rightarrow> Pc \<Rightarrow> NetworkConnection \<Rightarrow> (Pc \<times> NetworkConnection) option" where
  "run_SendLoop [] p c = Some (p, c)"
| "run_SendLoop (i # is) p c =
     (case SendLoop_step i p c of None \<Rightarrow> None | Some (p', c') \<Rightarrow> run_SendLoop is p' c')"

lemma SendLoop_step_stop: "SendLoop_step i p c = Some (p', c') \<Longrightarrow> nc_stop_requested c' = nc_stop_requested c"
  using SendLoop_step_conn [of i p c p' c'] by auto

lemma run_SendLoop_length:
  "run_SendLoop is p c = Some (p', c') \<Longrightarrow> nc_stop_requested c \<Longrightarrow> length is + stop_steps p' \<le> stop_steps p"
proof (induction "is" arbitrary: p c)
  case (Cons i "is")
  then obtain q d where q: "SendLoop_step i p c = Some (q, d)" "run_SendLoop is q d = Some (p', c')"
    by (auto split: option.splits)
  with Cons.IH [OF q(2)] Cons.prems(2) SendLoop_step_stop [OF q(1)] SendLoop_step_rank [OF q(1)] show ?case by simp
qed simp

section \<open>The destructor\<close>

fun destroying :: "nat \<Rightarrow> Pc \<Rightarrow> bool" where
  "destroying k (Teardown_at p j r cont) = (j = k \<and> cont = C_destroy)"
| "destroying k (D_join j) = (j = k)"
| "destroying k _ = False"

text \<open>Once the last reference is gone, only the thread that runs the destructor and the sender
  touch the object.\<close>

definition destroy_inv :: "NetSys \<Rightarrow> bool" where
  "destroy_inv s \<longleftrightarrow>
     (\<forall>t k. destroying k (pc s t) \<longrightarrow>
        \<not> alive s k \<and> (\<forall>u. u \<noteq> t \<and> u \<noteq> Snd k \<longrightarrow> pc_conn (pc s u) \<noteq> Some k)) \<and>
     (\<forall>t k. pc s t = D_join k \<longrightarrow> \<not> connected (conn s k)) \<and>
     (\<forall>k < made s. sender_joinable (conn s k) \<longrightarrow> pc s (Snd k) \<noteq> Idle)"

lemma destroying_conn: "destroying k p \<Longrightarrow> pc_conn p = Some k"
  by (cases p) auto

lemma SendLoop_step_destroying:
  "SendLoop_step i p c = Some (p', c') \<Longrightarrow> \<not> destroying k p' \<and> p' \<noteq> Idle \<and> (pc_conn p' = pc_conn p \<or> pc_conn p' = None) \<and>
     connected c' = connected c \<and> sender_joinable c' = sender_joinable c"
  by (induction i p c rule: SendLoop_step.induct) (auto split: option.splits if_splits NetSend.splits NetPoll.splits)

lemma Recv_step_destroying:
  "Recv_step i p c = Some (p', c', out) \<Longrightarrow> \<not> destroying k p' \<and> (pc_conn p' = pc_conn p \<or> pc_conn p' = None) \<and>
     connected c' = connected c \<and> sender_joinable c' = sender_joinable c"
  by (induction i p c rule: Recv_step.induct) (auto split: if_splits NetPoll.splits NetRecv.splits)

text \<open>A thread moves on within the same connection, or lets go of it.\<close>

lemma destroy_inv_move:
  assumes "destroy_inv s" "pc s' = (pc s)(t := p)" "alive s' = alive s" "made s' = made s"
    and "\<And>j. destroying j p \<Longrightarrow> destroying j (pc s t)" "pc_conn p = None \<or> pc_conn p = pc_conn (pc s t)"
    and "\<And>j. connected (conn s' j) \<Longrightarrow> connected (conn s j)"
    and "\<And>j. sender_joinable (conn s' j) \<Longrightarrow> sender_joinable (conn s j)"
    and "\<And>j. p = D_join j \<Longrightarrow> \<not> connected (conn s' j)" "\<And>j. t = Snd j \<Longrightarrow> p \<noteq> Idle"
  shows "destroy_inv s'"
proof -
  have "\<not> alive s k \<and> (\<forall>w. w \<noteq> u \<and> w \<noteq> Snd k \<longrightarrow> pc_conn (((pc s)(t := p)) w) \<noteq> Some k)"
    if "destroying k (((pc s)(t := p)) u)" for u k
  proof -
    have d: "destroying k (pc s u)" using that assms(5) by (auto split: if_splits)
    then have "\<not> alive s k" "\<And>w. w \<noteq> u \<Longrightarrow> w \<noteq> Snd k \<Longrightarrow> pc_conn (pc s w) \<noteq> Some k"
      using assms(1) unfolding destroy_inv_def by blast+
    with assms(6) show ?thesis by auto
  qed
  moreover have "\<not> connected (conn s' k)" if "((pc s)(t := p)) u = D_join k" for u k
  proof (cases "u = t")
    case False
    with that assms(1) have "\<not> connected (conn s k)" unfolding destroy_inv_def by auto
    with assms(7) show ?thesis by blast
  qed (use that assms(9) in auto)
  moreover have "((pc s)(t := p)) (Snd k) \<noteq> Idle" if "k < made s" "sender_joinable (conn s' k)" for k
    using that assms(1,8,10) by (auto simp: destroy_inv_def)
  ultimately show ?thesis using assms(2-4) by (simp add: destroy_inv_def)
qed

text \<open>An idle thread starts a call on an object somebody holds.\<close>

lemma destroy_inv_call:
  assumes "destroy_inv s" "pc s' = (pc s)(Caller t := p)" "alive s' = alive s" "made s' = made s" "conn s' = conn s"
    and "pc_conn p = Some k" "alive s k" "\<And>j. \<not> destroying j p"
  shows "destroy_inv s'"
proof -
  have "\<not> alive s j \<and> (\<forall>w. w \<noteq> u \<and> w \<noteq> Snd j \<longrightarrow> pc_conn (((pc s)(Caller t := p)) w) \<noteq> Some j)"
    if "destroying j (((pc s)(Caller t := p)) u)" for u j
  proof -
    have d: "destroying j (pc s u)" using that assms(8) by (auto split: if_splits)
    then have "\<not> alive s j" "\<And>w. w \<noteq> u \<Longrightarrow> w \<noteq> Snd j \<Longrightarrow> pc_conn (pc s w) \<noteq> Some j"
      using assms(1) unfolding destroy_inv_def by blast+
    with assms(6,7) show ?thesis by auto
  qed
  moreover have "p \<noteq> D_join j" for j using assms(8) [of j] by auto
  ultimately show ?thesis using assms(1-5) unfolding destroy_inv_def by auto
qed

lemma destroy_inv_drop:
  assumes "destroy_inv s" "alive s k" "\<forall>u. u \<noteq> t \<and> u \<noteq> Snd k \<longrightarrow> pc_conn (pc s u) \<noteq> Some k"
    and "pc_conn (pc s t) = None \<or> pc_conn (pc s t) = Some k"
    and "pc s' = (pc s)(t := Teardown_at Td_exchange k r C_destroy)" "alive s' = (alive s)(k := False)"
    and "made s' = made s" "conn s' = conn s"
  shows "destroy_inv s'"
proof -
  have none: "\<not> destroying k (pc s u)" for u using assms(1,2) by (auto simp: destroy_inv_def)
  have "\<not> alive s' j \<and> (\<forall>w. w \<noteq> u \<and> w \<noteq> Snd j \<longrightarrow> pc_conn (pc s' w) \<noteq> Some j)" if "destroying j (pc s' u)" for u j
  proof (cases "u = t")
    case True
    with that assms(3,5,6) show ?thesis by auto
  next
    case False
    with that assms(5) have d: "destroying j (pc s u)" by simp
    with none have "j \<noteq> k" by auto
    with d assms(1,5,6) show ?thesis by (auto simp: destroy_inv_def)
  qed
  with assms(1,5,7,8) show ?thesis by (auto simp: destroy_inv_def)
qed

lemma destroy_inv_create:
  assumes inv: "net_inv s" "destroy_inv s"
    and r: "NetworkConnection_Start created (NetworkConnection_new fd addr port srv) = (e, c)"
  shows "destroy_inv (s\<lparr>conn := (conn s)(made s := c), made := Suc (made s),
      alive := (alive s)(made s := (e = Net_SUCCESS)), fds := (fds s)(fd \<mapsto> made s),
      fd0 := (fd0 s)(made s := fd),
      pc := (if e = Net_SUCCESS then (pc s)(Snd (made s) := S_head (made s))
             else (pc s)(Caller t := Teardown_at Td_exchange (made s) Net_SHUTDOWN C_destroy))\<rparr>)"
proof -
  have new: "pc_conn (pc s u) \<noteq> Some (made s)" for u
    using pc_conn_made [of s u "made s"] inv(1) by (auto simp: net_inv_def)
  then have nd: "\<not> destroying (made s) (pc s u)" for u using destroying_conn by blast
  have nj: "pc s u \<noteq> D_join (made s)" for u using new [of u] by auto
  have j: "sender_joinable c \<longleftrightarrow> e = Net_SUCCESS"
    using r by (auto simp: NetworkConnection_Start_def NetworkConnection_new_def Let_def split: if_splits)
  have old: "destroying k (pc s u) \<Longrightarrow> \<not> alive s k" "destroying k (pc s u) \<Longrightarrow> w \<noteq> u \<Longrightarrow> w \<noteq> Snd k \<Longrightarrow> pc_conn (pc s w) \<noteq> Some k"
    "pc s u = D_join k \<Longrightarrow> \<not> connected (conn s k)" "k < made s \<Longrightarrow> sender_joinable (conn s k) \<Longrightarrow> pc s (Snd k) \<noteq> Idle"
    for k u w using inv(2) unfolding destroy_inv_def by blast+
  show ?thesis
  proof (cases "e = Net_SUCCESS")
    case True
    with new nd nj old show ?thesis unfolding destroy_inv_def by (auto simp: less_Suc_eq split: if_splits)
  next
    case False
    with new nd nj old j show ?thesis unfolding destroy_inv_def by (auto simp: less_Suc_eq split: if_splits)
  qed
qed

lemma destroy_inv_teardown:
  assumes inv: "net_inv s" "destroy_inv s" and at: "pc s t = Teardown_at p k r cont"
    and s': "conn s' = (conn s)(k := td_local p (conn s k))" "pc s' = (pc s)(t := td_pc p k r cont (conn s k))"
      "alive s' = alive s" "made s' = made s"
  shows "destroy_inv s'"
proof -
  have cont: "cont = C_send_return \<or> cont = C_destroy" if "t = Snd j" for j
    using at inv(1) that unfolding net_inv_def pcs_inv_def by (metis sender_pc.simps(9))
  have "connected (td_local p (conn s k)) \<Longrightarrow> connected (conn s k)" "sender_joinable (td_local p c) = sender_joinable c" for c
    by (cases p; simp)+
  moreover have "\<not> connected (td_local p (conn s k))" if "td_pc p k r cont (conn s k) = D_join j" for j
    using that inv(1) at pc_conn_made [of s t k] stage_inv_at [of s t p k r cont]
    by (cases p) (auto simp: td_pc_def net_inv_def conns_inv_def conn_ok_def split: if_splits)
  moreover have "j = k" if "td_pc p k r cont (conn s k) = D_join j" for j
    using that by (cases cont) (auto simp: td_pc_cases split: if_splits)
  moreover have "destroying j (td_pc p k r cont (conn s k)) \<Longrightarrow> j = k \<and> cont = C_destroy"
    "pc_conn (td_pc p k r cont (conn s k)) = None \<or> pc_conn (td_pc p k r cont (conn s k)) = Some k"
    "cont = C_send_return \<or> cont = C_destroy \<Longrightarrow> td_pc p k r cont (conn s k) \<noteq> Idle" for j
    by (cases cont; auto simp: td_pc_cases split: if_splits)+
  ultimately show ?thesis
    using at inv(2) cont
    by - (rule destroy_inv_move [where s = s and t = t and p = "td_pc p k r cont (conn s k)"], auto simp: s' split: if_splits)
qed

lemma destroy_inv_join:
  assumes inv: "net_inv s" "destroy_inv s" and at: "pc s t = D_join k"
    and r: "destroy_join (t = Snd k) (pc s (Snd k) = Ended) (conn s k) = Some c"
  shows "destroy_inv (s\<lparr>conn := (conn s)(k := c), pc := (pc s)(t := (if t = Snd k then Ended else Idle))\<rparr>)"
proof -
  have "connected c = connected (conn s k)" "sender_joinable c \<Longrightarrow> sender_joinable (conn s k)"
    using r by (auto simp: destroy_join_def split: if_splits)
  note c = this
  have sn: "j = k" if "t = Snd j" for j
    using at inv(1) that unfolding net_inv_def pcs_inv_def by (metis sender_pc.simps(10))
  show ?thesis
  proof (rule destroy_inv_move [OF inv(2), where t = t and p = "if t = Snd k then Ended else Idle"])
    show "(if t = Snd k then Ended else Idle) \<noteq> Idle" if "t = Snd j" for j using sn that by simp
  qed (use c in \<open>auto split: if_splits\<close>)
qed

lemma destroy_inv_step: "net_step reuse s s' \<Longrightarrow> net_inv s \<Longrightarrow> destroy_inv s \<Longrightarrow> destroy_inv s'"
proof (induction rule: net_step.induct)
  case (net_create s t fd created addr port srv e c)
  then show ?case using destroy_inv_create by blast
next
  case (net_push s t k chunk e c)
  have "connected c = connected (conn s k)" "sender_joinable c = sender_joinable (conn s k)"
    using net_push(2) by (auto simp: send_push_def Queue_Push_def split: if_splits)
  with net_push(4) show ?case
    by - (rule destroy_inv_move [where s = s and t = "Caller t" and p = Idle], auto split: if_splits)
next
  case (net_sender i s k p c wr)
  with SendLoop_step_destroying [OF net_sender(1)] show ?case
    by - (rule destroy_inv_move [where s = s and t = "Snd k" and p = p], auto split: if_splits)
next
  case (net_recv s t k i p c out ib)
  with Recv_step_destroying [OF net_recv(2)] show ?case
    by - (rule destroy_inv_move [where s = s and t = "Caller t" and p = p], auto split: if_splits)
next
  case (net_teardown s t p k r cont)
  then show ?case by (intro destroy_inv_teardown [OF net_teardown(2,3,1)]) auto
next
  case (net_drop t s k)
  then show ?case
    by - (rule destroy_inv_drop [where s = s and t = t and k = k and r = Net_SHUTDOWN], auto)
next
  case (net_join s t k c)
  then show ?case by (intro destroy_inv_join)
next
  case (net_send s t k data sz chunk)
  then show ?case
    by - (rule destroy_inv_call [where s = s and t = t and k = k and p = "Push_chunk k chunk"], auto)
next
  case (net_recv_call s t k n)
  then show ?case
    by - (rule destroy_inv_call [where s = s and t = t and k = k and p = "R_enter k n"], auto)
next
  case (net_close s t k)
  then show ?case
    by - (rule destroy_inv_call [where s = s and t = t and k = k and
          p = "Teardown_at Td_exchange k Net_SHUTDOWN C_close_return"], auto)
next
  case (net_arrive k s b)
  then show ?case by (simp add: destroy_inv_def)
qed

definition net_destroy_inv :: "NetSys \<Rightarrow> bool" where
  "net_destroy_inv s \<longleftrightarrow> net_inv s \<and> destroy_inv s"

interpretation net_destroy: inductive_invariant net_init "net_step reuse" net_destroy_inv for reuse
proof
  show "net_destroy_inv s" if "net_init s" for s
    using that net_sys.inv_init [OF that] by (auto simp: net_destroy_inv_def net_init_def destroy_inv_def)
  show "net_destroy_inv s'" if "net_step reuse s s'" "net_destroy_inv s" for s s'
    using net_inv_step [OF that(1)] destroy_inv_step [OF that(1)] that(2) by (simp add: net_destroy_inv_def)
qed

end
