(* ===== verification/Network_Channel.thy ===== *)
theory Network_Channel
  imports Network_Connection
begin

text \<open>
  What a \<open>NetworkConnection\<close> promises: an abstract byte channel, the proof that the threads of
  \<open>Network_Connection\<close> implement it as long as descriptors are not reused, the run in which a
  reused descriptor breaks it, and the properties of teardown and destruction.
\<close>

section \<open>The abstract channel\<close>

datatype ChannelState = Ch_fresh | Ch_open | Ch_closed

record Channel =
  ch_state :: ChannelState
  ch_written :: "u8 list"
  ch_sent :: "u8 list"
  ch_arrived :: "u8 list"
  ch_read :: "u8 list"
  ch_events :: "NetworkError list"

definition ch_init :: "Channel \<Rightarrow> bool" where
  "ch_init ch \<longleftrightarrow> ch = \<lparr>ch_state = Ch_fresh, ch_written = [], ch_sent = [], ch_arrived = [], ch_read = [], ch_events = []\<rparr>"

text \<open>A channel opens and closes once; what was written is sent in order, without loss, repetition
  or invention up to some point; what arrives is read in order; the end is announced at most
  once.\<close>

inductive ch_step :: "Channel \<Rightarrow> Channel \<Rightarrow> bool" where
  ch_opens: "ch_state ch = Ch_fresh \<Longrightarrow> ch_step ch (ch\<lparr>ch_state := Ch_open\<rparr>)"
| ch_writes: "ch_state ch \<noteq> Ch_fresh \<Longrightarrow> ch_step ch (ch\<lparr>ch_written := ch_written ch @ b\<rparr>)"
| ch_sends: "ch_state ch \<noteq> Ch_fresh \<Longrightarrow> prefix (ch_sent ch @ b) (ch_written ch) \<Longrightarrow>
    ch_step ch (ch\<lparr>ch_sent := ch_sent ch @ b\<rparr>)"
| ch_arrives: "ch_state ch \<noteq> Ch_fresh \<Longrightarrow> ch_step ch (ch\<lparr>ch_arrived := ch_arrived ch @ b\<rparr>)"
| ch_reads: "ch_state ch \<noteq> Ch_fresh \<Longrightarrow> prefix (ch_read ch @ b) (ch_arrived ch) \<Longrightarrow>
    ch_step ch (ch\<lparr>ch_read := ch_read ch @ b\<rparr>)"
| ch_closes: "ch_state ch = Ch_open \<Longrightarrow> ch_step ch (ch\<lparr>ch_state := Ch_closed\<rparr>)"
| ch_announces: "ch_state ch = Ch_closed \<Longrightarrow> ch_events ch = [] \<Longrightarrow> ch_step ch (ch\<lparr>ch_events := [r]\<rparr>)"

definition channel_of :: "nat \<Rightarrow> NetSys \<Rightarrow> Channel" where
  "channel_of k s =
     \<lparr>ch_state = (if k < made s then (if connected (conn s k) then Ch_open else Ch_closed) else Ch_fresh),
      ch_written = queued s k, ch_sent = wire s k, ch_arrived = arrived s k, ch_read = got s k,
      ch_events = events k (published s)\<rparr>"

section \<open>Refinement\<close>

lemma streams_prefix:
  assumes "streams s"
  shows "prefix (wire s k) (queued s k)" "prefix (got s k) (arrived s k)"
proof -
  have "stream_ok (wire s k) (pc s (Snd k)) (conn s k) (queued s k)" "got s k @ inbox s k = arrived s k"
    using assms by (auto simp: streams_def)
  then show "prefix (wire s k) (queued s k)" "prefix (got s k) (arrived s k)"
    unfolding stream_ok_def prefix_def by metis+
qed

lemma sim_sends:
  assumes "k < made s" "wire s' k = wire s k @ b" "prefix (wire s' k) (queued s k)"
    and "channel_of k s' = (channel_of k s)\<lparr>ch_sent := wire s' k\<rparr>"
  shows "ch_step (channel_of k s) (channel_of k s')"
  using ch_sends [of "channel_of k s" b] assms by (simp add: channel_of_def)

lemma sim_reads:
  assumes "k < made s" "got s' k = got s k @ b" "prefix (got s' k) (arrived s k)"
    and "channel_of k s' = (channel_of k s)\<lparr>ch_read := got s' k\<rparr>"
  shows "ch_step (channel_of k s) (channel_of k s')"
  using ch_reads [of "channel_of k s" b] assms by (simp add: channel_of_def)

lemma sim_writes:
  assumes "k < made s" "queued s' k = queued s k @ b" "channel_of k s' = (channel_of k s)\<lparr>ch_written := queued s' k\<rparr>"
  shows "ch_step (channel_of k s) (channel_of k s')"
  using ch_writes [of "channel_of k s" b] assms by (simp add: channel_of_def)

lemma sim_teardown:
  assumes pc: "pc s t = Teardown_at p k r cont" and inv: "net_inv s"
    and s': "conn s' = (conn s)(k := td_local p (conn s k))" "made s' = made s" "queued s' = queued s" "wire s' = wire s"
      "arrived s' = arrived s" "got s' = got s"
    and pub: "published s' = (if p = Td_publish \<and> is_server_side (conn s k) \<and> alive s k then published s @ [(k, r)]
        else published s)"
  shows "channel_of j s' = channel_of j s \<or> ch_step (channel_of j s) (channel_of j s')"
proof (cases "j = k")
  case False
  then show ?thesis using s' pub by (simp add: channel_of_def events_def)
next
  case True
  have k: "k < made s" using inv pc pc_conn_made [of s t k] by (simp add: net_inv_def)
  have st: "p \<noteq> Td_exchange \<Longrightarrow> stage s k = Claimed p t" using inv pc stage_inv_at [of s t p k r cont] by (simp add: net_inv_def)
  have ok: "conn_ok (conn s k) (stage s k) (fd0 s k)" using inv k by (simp add: net_inv_def conns_inv_def)
  show ?thesis
  proof (cases "p = Td_publish \<and> is_server_side (conn s k) \<and> alive s k")
    case pub': True
    have "stage s k = Claimed Td_publish t" using st pub' by simp
    moreover have "length (events k (published s)) \<le> (if stage s k = Torn then 1 else 0)"
      using inv by (simp add: net_inv_def events_inv_def)
    ultimately have "events k (published s) = []" "\<not> connected (conn s k)" using ok by (auto simp: conn_ok_def)
    then show ?thesis
      using ch_announces [of "channel_of k s" r] k pub' True s' pub by (simp add: channel_of_def events_append events_def [of _ "[_]"])
  next
    case False
    have "connected (td_local p (conn s k)) = (p \<noteq> Td_exchange \<and> connected (conn s k))" by (cases p) auto
    with False s' pub k True show ?thesis
      using ch_closes [of "channel_of k s"] by (auto simp: channel_of_def)
  qed
qed

lemma sim_push:
  assumes inv: "net_inv s" and pc: "pc s (Caller t) = Push_chunk j chunk" and r: "send_push chunk (conn s j) = (e, c)"
    and s': "s' = s\<lparr>conn := (conn s)(j := c), pc := (pc s)(Caller t := Idle),
      queued := (if e = Net_SUCCESS then (queued s)(j := queued s j @ chunk) else queued s)\<rparr>"
  shows "channel_of k s' = channel_of k s \<or> ch_step (channel_of k s) (channel_of k s')"
proof -
  have c: "connected c = connected (conn s j)" using r by (auto simp: send_push_def split: prod.splits)
  have j: "j < made s" using pc_conn_made [of s "Caller t" j] inv pc by (simp add: net_inv_def)
  show ?thesis
  proof (cases "k = j \<and> e = Net_SUCCESS")
    case True
    with c j s' show ?thesis by (intro disjI2 sim_writes [where b = chunk]) (auto simp: channel_of_def)
  next
    case False
    with c s' show ?thesis by (auto simp: channel_of_def)
  qed
qed

lemma sim_sender:
  assumes inv: "net_stream_inv s" and str: "streams s'"
    and r: "SendLoop_step i (pc s (Snd j)) (conn s j) = Some (p, c)"
    and ks: "kernel_send i (pc s (Snd j)) (fds s) (wire s) = Some wr"
    and s': "s' = s\<lparr>conn := (conn s)(j := c), pc := (pc s)(Snd j := p), wire := wr\<rparr>"
  shows "channel_of k s' = channel_of k s \<or> ch_step (channel_of k s) (channel_of k s')"
proof -
  have ninv: "net_inv s" "local_fds s" using inv by (auto simp: net_stream_inv_def)
  note own = sender_writes_own [OF ninv r ks]
  have c: "connected c = connected (conn s j)" using SendLoop_step_destroying [OF r] by blast
  show ?thesis
  proof (cases "k = j")
    case True
    with c own s' streams_prefix(1) [OF str, of j] show ?thesis
      by (intro disjI2 sim_sends [where b = "sent_by i (pc s (Snd j))"]) (auto simp: channel_of_def)
  next
    case False
    with own s' show ?thesis by (simp add: channel_of_def)
  qed
qed

lemma sim_net_step:
  assumes "net_step False s s'" "net_stream_inv s"
  shows "channel_of k s' = channel_of k s \<or> ch_step (channel_of k s) (channel_of k s')"
proof -
  have str: "streams s'" using net_streams.inv_step [OF assms] by (simp add: net_stream_inv_def)
  have ninv: "net_inv s" using assms(2) by (simp add: net_stream_inv_def)
  from assms(1) show ?thesis
  proof (cases rule: net_step.cases)
    case (net_create t fd created addr port srv e c)
    have "connected c" using net_create(6)
      by (auto simp: NetworkConnection_Start_def NetworkConnection_new_def Let_def split: if_splits)
    then show ?thesis
      using ch_opens [of "channel_of k s"] net_create(1) by (cases "k = made s") (auto simp: channel_of_def less_Suc_eq)
  next
    case (net_push t j chunk e c)
    then show ?thesis by (intro sim_push [OF ninv])
  next
    case (net_sender i j p c wr)
    then show ?thesis by (intro sim_sender [OF assms(2) str])
  next
    case (net_recv t j i p c out ib)
    have c: "connected c = connected (conn s j)" using Recv_step_destroying [OF net_recv(3)] by blast
    have j: "j < made s" using pc_conn_made net_recv(2) ninv by (auto simp: net_inv_def)
    show ?thesis
    proof (cases "k = j")
      case True
      with c j net_recv(1) streams_prefix(2) [OF str, of j] show ?thesis
        by (intro disjI2 sim_reads [where b = "bytes_of out"]) (auto simp: channel_of_def)
    next
      case False
      with net_recv(1) show ?thesis by (simp add: channel_of_def)
    qed
  next
    case (net_teardown t p j r cont)
    then show ?thesis by (intro sim_teardown [OF net_teardown(2) ninv]) auto
  next
    case (net_join t j c)
    have "connected c = connected (conn s j)" using net_join(3) by (auto simp: destroy_join_def split: if_splits)
    with net_join(1) show ?thesis by (simp add: channel_of_def)
  next
    case (net_arrive j b)
    with ch_arrives [of "channel_of k s" b] show ?thesis by (cases "k = j") (auto simp: channel_of_def)
  qed (simp_all add: channel_of_def)
qed

interpretation net_channel: simulation net_init "net_step False" net_stream_inv "channel_of k" ch_init ch_step for k
proof
  show "ch_init (channel_of k s)" if "net_init s" for s
    using that by (simp add: net_init_def channel_of_def ch_init_def events_def)
qed (rule sim_net_step)

lemma ch_reaches_prefix:
  "reaches ch_init ch_step ch \<Longrightarrow> prefix (ch_sent ch) (ch_written ch) \<and> prefix (ch_read ch) (ch_arrived ch) \<and>
    length (ch_events ch) \<le> 1 \<and> (ch_events ch \<noteq> [] \<longrightarrow> ch_state ch = Ch_closed)"
proof (induction rule: reaches.induct)
  case (reaches_step ch ch')
  from reaches_step(2,3) show ?case by (cases rule: ch_step.cases) (auto intro: prefix_prefix)
qed (simp add: ch_init_def)

section \<open>The run of a reused descriptor\<close>

definition net_start :: NetSys where
  "net_start = \<lparr>conn = (\<lambda>_. NetworkConnection_new 0 '''' 0 True), made = 0, alive = (\<lambda>_. False), fds = Map.empty,
     pc = (\<lambda>_. Idle), wire = (\<lambda>_. []), inbox = (\<lambda>_. []), published = [], stage = (\<lambda>_. Live), fd0 = (\<lambda>_. 0),
     queued = (\<lambda>_. []), arrived = (\<lambda>_. []), got = (\<lambda>_. [])\<rparr>"

lemma net_start_reaches: "reaches net_init (net_step reuse) net_start"
  by (rule reaches_init) (simp add: net_init_def net_start_def)

lemma sender_moves:
  assumes "SendLoop_step i (pc s (Snd k)) (conn s k) = Some (p, conn s k)"
    and "kernel_send i (pc s (Snd k)) (fds s) (wire s) = Some (wire s)"
  shows "net_step reuse s (s\<lparr>pc := (pc s)(Snd k := p)\<rparr>)"
  using net_step.net_sender [OF assms, of reuse] by simp

text \<open>Thread 0 opens a connection and sends one byte; the sender has taken it and read the
  descriptor.\<close>

lemma sender_has_fd:
  "\<exists>s. reaches net_init (net_step reuse) s \<and> made s = 1 \<and> alive s 0 \<and> fds s = [7 \<mapsto> 0] \<and> connected (conn s 0) \<and>
     nc_fd (conn s 0) = 7 \<and> is_server_side (conn s 0) \<and> pc s = (\<lambda>_. Idle)(Snd 0 := S_send 0 7 [65]) \<and> wire s = (\<lambda>_. []) \<and>
     queued s = (\<lambda>_. [])(0 := [65]) \<and> fd0 s 0 = 7 \<and> sender_joinable (conn s 0)"
proof -
  let ?R = "reaches net_init (net_step reuse)"
  let ?c = "(NetworkConnection_new 7 ''peer'' 80 True)\<lparr>sender_joinable := True\<rparr>"
  let ?q = "send_queue ?c"
  have c: "NetworkConnection_Start True (NetworkConnection_new 7 ''peer'' 80 True) = (Net_SUCCESS, ?c)"
    by (simp add: NetworkConnection_Start_def NetworkConnection_new_def Let_def)
  define s1 where "s1 = net_start\<lparr>conn := (conn net_start)(0 := ?c), made := 1, alive := (\<lambda>_. False)(0 := True),
     fds := [7 \<mapsto> 0], fd0 := (\<lambda>_. 0)(0 := 7), pc := (\<lambda>_. Idle)(Snd 0 := S_head 0)\<rparr>"
  have "net_step reuse net_start s1"
    using net_step.net_create [of net_start 0 7 reuse, OF _ _ _ _ c] by (simp add: s1_def net_start_def)
  with net_start_reaches have r1: "?R s1" by (rule reaches_step)
  define s2 where "s2 = s1\<lparr>pc := (pc s1)(Caller 0 := Push_chunk 0 [65])\<rparr>"
  have "net_step reuse s1 s2" unfolding s2_def
    by (rule net_step.net_send [where data = "Some [65]" and sz = 1])
      (simp_all add: s1_def send_guard_def kMaxSendChunkSize_def NetworkConnection_new_def)
  with r1 have r2: "?R s2" by (rule reaches_step)
  define s3 where "s3 = s2\<lparr>conn := (conn s2)(0 := ?c\<lparr>send_queue := ?q\<lparr>items := [[65]]\<rparr>\<rparr>), pc := (pc s2)(Caller 0 := Idle),
     queued := (queued s2)(0 := queued s2 0 @ [65])\<rparr>"
  have p: "send_push [65] (conn s2 0) = (Net_SUCCESS, ?c\<lparr>send_queue := ?q\<lparr>items := [[65]]\<rparr>\<rparr>)"
    by (simp add: s2_def s1_def send_push_def Queue_Push_def NetworkConnection_new_def Queue_new_def kSendQueueCapacity_def)
  have "net_step reuse s2 s3"
    using net_step.net_push [of s2 0 0 "[65]", OF _ p] by (simp add: s3_def s2_def)
  with r2 have r3: "?R s3" by (rule reaches_step)
  have st3: "pc s3 (Snd 0) = S_head 0" "conn s3 0 = ?c\<lparr>send_queue := ?q\<lparr>items := [[65]]\<rparr>\<rparr>"
    by (simp_all add: s3_def s2_def s1_def)
  define s4 where "s4 = s3\<lparr>pc := (pc s3)(Snd 0 := S_pop 0)\<rparr>"
  have "net_step reuse s3 s4"
    unfolding s4_def by (rule sender_moves [of In_go]) (simp_all add: st3 NetworkConnection_new_def)
  with r3 have r4: "?R s4" by (rule reaches_step)
  define s5 where "s5 = s4\<lparr>conn := (conn s4)(0 := ?c), pc := (pc s4)(Snd 0 := S_inner 0 [65])\<rparr>"
  have "net_step reuse s4 s5"
    using net_step.net_sender [of "In_pop False" s4 0 "S_inner 0 [65]" ?c "wire s4" reuse] st3
    by (simp add: s4_def s5_def NetworkConnection_new_def Queue_new_def kSendQueueCapacity_def Queue_PopFor_def
        pop_ready_def pop_body_def)
  with r4 have r5: "?R s5" by (rule reaches_step)
  define s6 where "s6 = s5\<lparr>pc := (pc s5)(Snd 0 := S_send 0 7 [65])\<rparr>"
  have "net_step reuse s5 s6"
    unfolding s6_def by (rule sender_moves [of In_go]) (simp_all add: s5_def NetworkConnection_new_def)
  with r5 have "?R s6" by (rule reaches_step)
  moreover have "pc s6 = (\<lambda>_. Idle)(Snd 0 := S_send 0 7 [65])"
    by (auto simp: s6_def s5_def s4_def s3_def s2_def s1_def fun_eq_iff)
  ultimately show ?thesis
    by (intro exI [of _ s6])
      (simp add: s6_def s5_def s4_def s3_def s2_def s1_def net_start_def NetworkConnection_new_def)
qed

lemma td_advance:
  assumes "reaches net_init (net_step reuse) s" "pc s t = Teardown_at p k r cont"
  shows "\<exists>s'. reaches net_init (net_step reuse) s' \<and> pc s' = (pc s)(t := td_pc p k r cont (conn s k)) \<and> made s' = made s \<and>
    wire s' = wire s \<and> queued s' = queued s \<and> fd0 s' = fd0 s \<and> conn s' = (conn s)(k := td_local p (conn s k)) \<and>
    fds s' = (if p = Td_close then (fds s)(nc_fd (conn s k) := None) else fds s) \<and> alive s' = alive s"
proof -
  define s' where "s' = s\<lparr>conn := (conn s)(k := td_local p (conn s k)), pc := (pc s)(t := td_pc p k r cont (conn s k)),
    fds := (if p = Td_close then (fds s)(nc_fd (conn s k) := None) else fds s),
    published := (if p = Td_publish \<and> is_server_side (conn s k) \<and> alive s k then published s @ [(k, r)] else published s),
    stage := (stage s)(k := stage_next p t (conn s k) (stage s k))\<rparr>"
  have "net_step reuse s s'" unfolding s'_def by (rule net_teardown [OF assms(2)])
  with assms(1) have "reaches net_init (net_step reuse) s'" by (rule reaches_step)
  then show ?thesis by (intro exI [of _ s']) (simp add: s'_def)
qed

text \<open>Thread 0 then closes that connection, up to the \<open>close\<close> of the descriptor, while the sender
  still holds it.\<close>

lemma closed_under_sender:
  "\<exists>s. reaches net_init (net_step reuse) s \<and> made s = 1 \<and> fds s = Map.empty \<and> pc s (Caller 1) = Idle \<and>
     pc s (Snd 0) = S_send 0 7 [65] \<and> wire s = (\<lambda>_. []) \<and> queued s = (\<lambda>_. [])(0 := [65]) \<and> fd0 s 0 = 7 \<and>
     nc_stop_requested (conn s 0)"
proof -
  let ?R = "reaches net_init (net_step reuse)" and ?at = "\<lambda>p. Teardown_at p 0 Net_SHUTDOWN C_close_return"
  note td = td_advance [where k = 0 and r = Net_SHUTDOWN and cont = C_close_return and t = "Caller 0"]
  obtain s where s: "?R s" "made s = 1" "alive s 0" "fds s = [7 \<mapsto> 0]" "connected (conn s 0)" "nc_fd (conn s 0) = 7"
    "pc s = (\<lambda>_. Idle)(Snd 0 := S_send 0 7 [65])" "wire s = (\<lambda>_. [])" "queued s = (\<lambda>_. [])(0 := [65])" "fd0 s 0 = 7"
    using sender_has_fd by blast
  define s0 where "s0 = s\<lparr>pc := (pc s)(Caller 0 := ?at Td_exchange)\<rparr>"
  have "net_step reuse s s0" unfolding s0_def by (rule net_close) (simp_all add: s)
  with s(1) have r0: "?R s0" by (rule reaches_step)
  have p0: "pc s0 (Caller 0) = ?at Td_exchange" "td_pc Td_exchange 0 Net_SHUTDOWN C_close_return (conn s0 0) = ?at Td_stop" by (simp_all add: s0_def s td_pc_def)
  from td [OF r0 p0(1), unfolded p0(2)] obtain s1 where s1: "?R s1" "pc s1 = (pc s0)(Caller 0 := ?at Td_stop)" "made s1 = 1" "wire s1 = wire s"
    "queued s1 = queued s" "fd0 s1 = fd0 s" "nc_fd (conn s1 0) = 7" "fds s1 = fds s" by (auto simp: s0_def s)
  have p1: "pc s1 (Caller 0) = ?at Td_stop" "td_pc Td_stop 0 Net_SHUTDOWN C_close_return (conn s1 0) = ?at Td_queue" by (simp_all add: s1 td_pc_def)
  from td [OF s1(1) p1(1), unfolded p1(2)] s1 obtain s2 where s2: "?R s2" "pc s2 = (pc s1)(Caller 0 := ?at Td_queue)" "made s2 = 1" "wire s2 = wire s"
    "queued s2 = queued s" "fd0 s2 = fd0 s" "nc_fd (conn s2 0) = 7" "fds s2 = fds s" "nc_stop_requested (conn s2 0)" by auto
  have p2: "pc s2 (Caller 0) = ?at Td_queue" "td_pc Td_queue 0 Net_SHUTDOWN C_close_return (conn s2 0) = ?at Td_close" by (simp_all add: s2 td_pc_def)
  from td [OF s2(1) p2(1), unfolded p2(2)] s2 obtain s3 where s3: "?R s3" "pc s3 = (pc s2)(Caller 0 := ?at Td_close)" "made s3 = 1" "wire s3 = wire s"
    "queued s3 = queued s" "fd0 s3 = fd0 s" "nc_fd (conn s3 0) = 7" "fds s3 = fds s" "nc_stop_requested (conn s3 0)" by auto
  have p3: "pc s3 (Caller 0) = ?at Td_close" "td_pc Td_close 0 Net_SHUTDOWN C_close_return (conn s3 0) = ?at Td_reset" by (simp_all add: s3 td_pc_def)
  from td [OF s3(1) p3(1), unfolded p3(2)] s3 obtain s4 where s4: "?R s4" "pc s4 = (pc s3)(Caller 0 := ?at Td_reset)" "made s4 = 1" "wire s4 = wire s"
    "queued s4 = queued s" "fd0 s4 = fd0 s" "fds s4 = (fds s)(7 := None)" "nc_stop_requested (conn s4 0)" by auto
  have "pc s4 (Caller 1) = Idle" "pc s4 (Snd 0) = S_send 0 7 [65]" by (simp_all add: s4 s3 s2 s1 s0_def s)
  with s4 s show ?thesis by (intro exI [of _ s4]) simp
qed

section \<open>The destructor waits for a sender that ends\<close>

text \<open>How many more statements the sender can execute once the connection is torn down.\<close>

fun join_rank :: "Pc \<Rightarrow> nat" where
  "join_rank (S_send k fd r) = 10"
| "join_rank (S_poll k fd r) = 9"
| "join_rank (S_pop k) = 4"
| "join_rank (S_inner k r) = 3"
| "join_rank (S_head k) = 2"
| "join_rank (S_return k) = 1"
| "join_rank (Teardown_at p k r cont) =
     (case p of Td_exchange \<Rightarrow> 8 | Td_stop \<Rightarrow> 7 | Td_queue \<Rightarrow> 6 | Td_close \<Rightarrow> 5 | Td_reset \<Rightarrow> 4 | Td_publish \<Rightarrow> 3)"
| "join_rank (D_join k) = 1"
| "join_rank _ = 0"

lemma join_rank_SendLoop:
  "SendLoop_step i p c = Some (p', c') \<Longrightarrow> nc_stop_requested c \<Longrightarrow> join_rank p' < join_rank p"
  by (induction i p c rule: SendLoop_step.induct) (auto split: option.splits if_splits NetSend.splits NetPoll.splits)

lemma join_rank_teardown:
  "cont = C_send_return \<or> cont = C_destroy \<Longrightarrow> join_rank (td_pc p k r cont c) < join_rank (Teardown_at p k r cont)"
  by (cases p) (auto simp: td_pc_def)

lemma SendLoop_step_in_loop: "SendLoop_step i p c = Some (p', c') \<Longrightarrow> in_send_loop p"
  by (induction i p c rule: SendLoop_step.induct) auto

lemma step_and: "net_step reuse s s' \<Longrightarrow> Q s' \<Longrightarrow> \<exists>s'. net_step reuse s s' \<and> Q s'"
  by blast

lemma SendLoop_step_changes: "SendLoop_step i p c = Some (p', c') \<Longrightarrow> p' \<noteq> p"
  by (induction i p c rule: SendLoop_step.induct) (auto split: option.splits if_splits NetSend.splits NetPoll.splits)

text \<open>While a thread waits in the destructor, the sender is either past its loop or told to stop.\<close>

lemma waiting_stop:
  assumes "net_inv s" "destroy_inv s" "pc s (Caller u) = D_join k" "in_send_loop (pc s (Snd k))"
  shows "nc_stop_requested (conn s k)"
proof -
  have k: "k < made s" using assms(1,3) pc_conn_made [of s "Caller u" k] by (simp add: net_inv_def)
  have ok: "conn_ok (conn s k) (stage s k) (fd0 s k)" using assms(1) k by (simp add: net_inv_def conns_inv_def)
  have nc: "\<not> connected (conn s k)" using assms(2,3) by (auto simp: destroy_inv_def)
  have "stage s k \<noteq> Claimed p t" for p t
  proof
    assume "stage s k = Claimed p t"
    then have t: "tearing (pc s t) = Some (p, k)" using assms(1) by (simp add: net_inv_def stage_inv_def)
    then have "pc_conn (pc s t) = Some k" "t \<noteq> Caller u" using assms(3) by (cases "pc s t"; auto split: if_splits)+
    moreover have "destroying k (pc s (Caller u))" using assms(3) by simp
    ultimately have "t = Snd k" using assms(2) unfolding destroy_inv_def by blast
    with t assms(4) show False by (cases "pc s (Snd k)") auto
  qed
  with ok nc show ?thesis by (auto simp: conn_ok_def)
qed

lemma waiting_rank:
  assumes "net_inv s" "destroy_inv s" "pc s (Caller u) = D_join k" "net_step reuse s s'"
  shows "pc s' (Snd k) = pc s (Snd k) \<or> join_rank (pc s' (Snd k)) < join_rank (pc s (Snd k))"
  using assms(4)
proof (cases rule: net_step.cases)
  case (net_create t fd created addr port srv e c)
  have "k < made s" using assms(1,3) pc_conn_made [of s "Caller u" k] by (simp add: net_inv_def)
  with net_create show ?thesis by simp
next
  case (net_sender i j p c wr)
  show ?thesis
  proof (cases "j = k")
    case True
    then have "nc_stop_requested (conn s k)"
      using waiting_stop [OF assms(1-3)] SendLoop_step_in_loop [OF net_sender(2)] by simp
    with True join_rank_SendLoop [OF net_sender(2)] net_sender(1) show ?thesis by simp
  qed (use net_sender in simp)
next
  case (net_teardown t p j r cont)
  show ?thesis
  proof (cases "t = Snd k")
    case True
    then have "sender_pc k (Teardown_at p j r cont)" using net_teardown(2) assms(1) unfolding net_inv_def pcs_inv_def by metis
    then have "cont = C_send_return \<or> cont = C_destroy" by simp
    from join_rank_teardown [OF this] True net_teardown(1,2) show ?thesis by simp
  qed (use net_teardown in simp)
next
  case (net_drop t j)
  show ?thesis
  proof (cases "t = Snd k")
    case True
    then have "j = k" using net_drop(2) by auto
    moreover have "\<not> alive s k" using assms(2,3) unfolding destroy_inv_def by (metis destroying.simps(2))
    ultimately show ?thesis using net_drop(4) by simp
  qed (use net_drop in auto)
next
  case (net_join t j c)
  then show ?thesis by (cases "t = Snd k") auto
qed simp_all

lemma waiting_progress:
  assumes "net_inv s" "pc s (Snd k) \<noteq> Ended" "pc s (Snd k) \<noteq> Idle"
  shows "\<exists>s'. net_step reuse s s' \<and> pc s' (Snd k) \<noteq> pc s (Snd k)"
proof -
  have sp: "sender_pc k (pc s (Snd k))" using assms(1) by (auto simp: net_inv_def pcs_inv_def)
  consider "in_send_loop (pc s (Snd k))" | p r cont where "pc s (Snd k) = Teardown_at p k r cont" "cont = C_send_return \<or> cont = C_destroy"
    | "pc s (Snd k) = D_join k"
    using sp assms(2,3) by (cases "pc s (Snd k)") auto
  then show ?thesis
  proof cases
    case 1
    then obtain i p c wr where st: "SendLoop_step i (pc s (Snd k)) (conn s k) = Some (p, c)"
      "kernel_send i (pc s (Snd k)) (fds s) (wire s) = Some wr" using SendLoop_step_enabled by metis
    show ?thesis by (rule step_and [OF net_step.net_sender [OF st]]) (use SendLoop_step_changes [OF st(1)] in simp)
  next
    case 2
    have "td_pc p k r cont (conn s k) \<noteq> Teardown_at p k r cont" using join_rank_teardown [OF 2(2)] by (metis less_irrefl)
    then show ?thesis using 2(1) by (intro step_and [OF net_step.net_teardown [OF 2(1)]]) simp
  next
    case 3
    have "destroy_join True b (conn s k) \<noteq> None" for b by (simp add: destroy_join_def)
    then obtain c where c: "destroy_join (Snd k = Snd k) (pc s (Snd k) = Ended) (conn s k) = Some c" by auto
    from 3 show ?thesis by (intro step_and [OF net_step.net_join [OF 3 c]]) simp
  qed
qed

text \<open>Only the sender itself or a caller runs the destructor, and a caller goes past its \<open>join\<close> only when
  the sender has ended.\<close>

lemma joining_thread: "net_inv s \<Longrightarrow> pc s t = D_join k \<Longrightarrow> t = Snd k \<or> (\<exists>u. t = Caller u)"
  by (cases t) (metis net_inv_def pcs_inv_def sender_pc.simps(10), simp)

lemma join_waits:
  assumes "pc s (Caller v) = D_join k" "net_step reuse s s'" "pc s' (Caller v) \<noteq> D_join k"
  shows "pc s (Snd k) = Ended \<or> \<not> sender_joinable (conn s k)"
  using assms(2)
proof (cases rule: net_step.cases)
  case (net_recv u j i p c out ib)
  then have "u = v" using assms(1,3) by (auto split: if_splits)
  with net_recv(3) assms(1) show ?thesis by simp
next
  case (net_join u j c)
  then have "u = Caller v" using assms(1,3) by (auto split: if_splits)
  with net_join assms(1) show ?thesis by (auto simp: destroy_join_def split: if_splits)
qed (use assms(1,3) in \<open>auto split: if_splits\<close>)

section \<open>Reachable destructors\<close>

lemma td_complete:
  assumes "reaches net_init (net_step reuse) s" "pc s t = Teardown_at Td_exchange k r cont"
    and "connected (conn s k)" "0 \<le> nc_fd (conn s k)"
  shows "\<exists>s'. reaches net_init (net_step reuse) s' \<and> pc s' = (pc s)(t := after_teardown k cont) \<and> made s' = made s \<and>
    alive s' = alive s \<and> \<not> connected (conn s' k) \<and> sender_joinable (conn s' k) = sender_joinable (conn s k)"
proof -
  let ?R = "\<lambda>s' p. reaches net_init (net_step reuse) s' \<and> pc s' = (pc s)(t := p) \<and> made s' = made s \<and> alive s' = alive s \<and>
    \<not> connected (conn s' k) \<and> sender_joinable (conn s' k) = sender_joinable (conn s k)"
  have go: "\<exists>s2. ?R s2 (td_pc p k r cont (conn s1 k)) \<and> nc_fd (conn s2 k) = nc_fd (td_local p (conn s1 k))"
    if "?R s1 (Teardown_at p k r cont)" for s1 p
    using td_advance [of reuse s1 t p k r cont] that by (cases p) auto
  obtain s1 where "reaches net_init (net_step reuse) s1" "pc s1 = (pc s)(t := td_pc Td_exchange k r cont (conn s k))"
    "made s1 = made s" "alive s1 = alive s" "conn s1 k = td_local Td_exchange (conn s k)"
    using td_advance [OF assms(1,2)] by auto
  then have "?R s1 (Teardown_at Td_stop k r cont)" "0 \<le> nc_fd (conn s1 k)" using assms(3,4) by (simp_all add: td_pc_def)
  then obtain s2 where "?R s2 (Teardown_at Td_queue k r cont)" "0 \<le> nc_fd (conn s2 k)"
    using go [of s1 Td_stop] by (auto simp: td_pc_def)
  then obtain s3 where "?R s3 (Teardown_at Td_close k r cont)"
    using go [of s2 Td_queue] by (auto simp: td_pc_def)
  then obtain s4 where "?R s4 (Teardown_at Td_reset k r cont)" using go [of s3 Td_close] by (auto simp: td_pc_def)
  then obtain s5 where "?R s5 (Teardown_at Td_publish k r cont)" using go [of s4 Td_reset] by (auto simp: td_pc_def)
  then show ?thesis using go [of s5 Td_publish] by (auto simp: td_pc_def)
qed

lemma waiting_destructor_reachable:
  "\<exists>s. reaches net_init (net_step reuse) s \<and> pc s (Caller 0) = D_join 0 \<and> pc s (Snd 0) = S_send 0 7 [65] \<and>
     sender_joinable (conn s 0)"
proof -
  obtain s where s: "reaches net_init (net_step reuse) s" "made s = 1" "alive s 0" "connected (conn s 0)" "nc_fd (conn s 0) = 7"
    "pc s = (\<lambda>_. Idle)(Snd 0 := S_send 0 7 [65])" "sender_joinable (conn s 0)" using sender_has_fd by blast
  define s0 where "s0 = s\<lparr>alive := (alive s)(0 := False), pc := (pc s)(Caller 0 := Teardown_at Td_exchange 0 Net_SHUTDOWN C_destroy)\<rparr>"
  have "net_step reuse s s0" unfolding s0_def by (rule net_drop) (simp_all add: s)
  with s(1) have "reaches net_init (net_step reuse) s0" by (rule reaches_step)
  from td_complete [OF this, of "Caller 0" 0] show ?thesis by (auto simp: s0_def s)
qed

text \<open>The sender finds the peer gone, tears the connection down while it holds the last reference, and
  so runs the destructor itself.\<close>

lemma self_destroying_reachable:
  "\<exists>s. reaches net_init (net_step reuse) s \<and> pc s (Snd 0) = D_join 0 \<and> sender_joinable (conn s 0)"
proof -
  let ?R = "reaches net_init (net_step reuse)"
  obtain s where s: "?R s" "made s = 1" "alive s 0" "connected (conn s 0)" "nc_fd (conn s 0) = 7" "fds s = [7 \<mapsto> 0]"
    "pc s = (\<lambda>_. Idle)(Snd 0 := S_send 0 7 [65])" "sender_joinable (conn s 0)" using sender_has_fd by blast
  define s1 where "s1 = s\<lparr>pc := (pc s)(Snd 0 := Teardown_at Td_exchange 0 Net_PEER_CLOSED C_send_return)\<rparr>"
  have "SendLoop_step (In_send NSend_EPIPE) (pc s (Snd 0)) (conn s 0) =
      Some (Teardown_at Td_exchange 0 Net_PEER_CLOSED C_send_return, conn s 0)"
    "kernel_send (In_send NSend_EPIPE) (pc s (Snd 0)) (fds s) (wire s) = Some (wire s)" by (simp_all add: s)
  from net_step.net_sender [OF this, of reuse] have "net_step reuse s s1" by (simp add: s1_def)
  with s(1) have "?R s1" by (rule reaches_step)
  from td_complete [OF this, of "Snd 0" 0] obtain s2 where s2: "?R s2" "pc s2 = (\<lambda>_. Idle)(Snd 0 := S_return 0)" "made s2 = 1"
    "alive s2 0" "\<not> connected (conn s2 0)" "sender_joinable (conn s2 0)" by (auto simp: s1_def s)
  define s3 where "s3 = s2\<lparr>alive := (alive s2)(0 := False), pc := (pc s2)(Snd 0 := Teardown_at Td_exchange 0 Net_SHUTDOWN C_destroy)\<rparr>"
  have "net_step reuse s2 s3" unfolding s3_def by (rule net_drop) (simp_all add: s2)
  with s2(1) have "?R s3" by (rule reaches_step)
  from td_advance [OF this, of "Snd 0" Td_exchange 0] show ?thesis by (auto simp: s3_def s2 td_pc_def)
qed

section \<open>Properties\<close>

text \<open>C1: A connection refines a byte channel. For any number of connections and threads, with
  every statement of \<open>Send\<close>, \<open>SendLoop\<close>, \<open>Recv\<close>, \<open>Close\<close>, \<open>Teardown\<close> and the destructor interleaved freely,
  and as long as the kernel does not reuse a descriptor, each connection behaves as the abstract
  channel: the bytes on the wire are a prefix of the bytes \<open>Send\<close> accepted, in order, the bytes
  \<open>Recv\<close> returned are a prefix of those that arrived, and \<open>NetworkDisconnected\<close> is published at most
  once, after the connection has been marked closed.\<close>

theorem net_refines_channel:
  assumes "reaches net_init (net_step False) s"
  shows "reaches ch_init ch_step (channel_of k s) \<and>
    prefix (wire s k) (queued s k) \<and> prefix (got s k) (arrived s k) \<and>
    length (events k (published s)) \<le> 1 \<and>
    (events k (published s) \<noteq> [] \<longrightarrow> \<not> NetworkConnection_IsConnected (conn s k))"
proof -
  have "reaches ch_init ch_step (channel_of k s)" by (rule net_channel.reaches_abs [OF assms])
  with ch_reaches_prefix [OF this] show ?thesis
    by (auto simp: channel_of_def NetworkConnection_IsConnected_def split: if_splits)
qed

theorem net_refines_channel_witness:
  "\<exists>s. reaches net_init (net_step False) s \<and> queued s 0 = [65] \<and> pc s (Snd 0) = S_send 0 7 [65] \<and>
     prefix (wire s 0) (queued s 0)"
proof -
  obtain s where s: "reaches net_init (net_step False) s" "pc s (Snd 0) = S_send 0 7 [65]" "queued s = (\<lambda>_. [])(0 := [65])"
    using closed_under_sender [of False] by blast
  with net_refines_channel [OF s(1), of 0] show ?thesis by auto
qed

text \<open>C38: Without that assumption the channel is broken: there is a run in which a connection is
  closed while its sender is between reading \<open>fd_\<close> and calling \<open>send\<close>, a new connection gets the
  same number, and the byte meant for the first peer goes to the second, for which nothing was ever
  sent.\<close>

theorem net_fd_reuse_misdelivers:
  "\<exists>s. reaches net_init (net_step True) s \<and> queued s 1 = [] \<and> wire s 1 = [65] \<and> wire s 0 = [] \<and> queued s 0 = [65]"
proof -
  let ?R = "reaches net_init (net_step True)"
  obtain s where s: "?R s" "made s = 1" "fds s = Map.empty" "pc s (Caller 1) = Idle" "pc s (Snd 0) = S_send 0 7 [65]"
    "wire s = (\<lambda>_. [])" "queued s = (\<lambda>_. [])(0 := [65])" using closed_under_sender [of True] by blast
  let ?c = "(NetworkConnection_new 7 ''other'' 81 True)\<lparr>sender_joinable := True\<rparr>"
  have c: "NetworkConnection_Start True (NetworkConnection_new 7 ''other'' 81 True) = (Net_SUCCESS, ?c)"
    by (simp add: NetworkConnection_Start_def NetworkConnection_new_def Let_def)
  define t where "t = s\<lparr>conn := (conn s)(1 := ?c), made := 2, alive := (alive s)(1 := True), fds := [7 \<mapsto> 1],
     fd0 := (fd0 s)(1 := 7), pc := (pc s)(Snd 1 := S_head 1)\<rparr>"
  have "net_step True s t"
    using net_step.net_create [OF s(4) _ _ _ c, of True] s(2,3) by (simp add: t_def numeral_2_eq_2)
  with s(1) have r: "?R t" by (rule reaches_step)
  define u where "u = t\<lparr>pc := (pc t)(Snd 0 := S_inner 0 []), wire := (wire t)(1 := [65])\<rparr>"
  have "SendLoop_step (In_send (NSent 1)) (pc t (Snd 0)) (conn t 0) = Some (S_inner 0 [], conn t 0)"
    "kernel_send (In_send (NSent 1)) (pc t (Snd 0)) (fds t) (wire t) = Some ((wire t)(1 := [65]))"
    by (simp_all add: t_def s)
  from net_step.net_sender [OF this, of True] have "net_step True t u" by (simp add: u_def)
  with r have "?R u" by (rule reaches_step)
  moreover have "queued u = queued s" "wire u = (wire s)(1 := [65])" by (simp_all add: u_def t_def)
  ultimately show ?thesis by (intro exI [of _ u]) (simp add: s)
qed

text \<open>C9: Teardown happens once, whatever races with it and whatever descriptors the kernel reuses:
  at most one \<open>NetworkDisconnected\<close> per connection, never two threads past the exchange of the same
  connection, the \<open>close\<close> closes the connection's own descriptor, and a connection's descriptor is
  open exactly while it is connected or its teardown has not reached the \<open>close\<close> (so none leaks and
  none is closed twice).\<close>

theorem net_teardown_once:
  assumes "reaches net_init (net_step reuse) s"
  shows "length (events k (published s)) \<le> 1 \<and>
    (\<forall>t u. tearing (pc s t) \<noteq> None \<and> map_option snd (tearing (pc s t)) = map_option snd (tearing (pc s u)) \<longrightarrow> t = u) \<and>
    (\<forall>t r cont. pc s t = Teardown_at Td_close k r cont \<longrightarrow> fds s (nc_fd (conn s k)) = Some k) \<and>
    (\<forall>fd. fds s fd = Some k \<longleftrightarrow> k < made s \<and> nc_fd (conn s k) = fd \<and>
       (connected (conn s k) \<or> (\<exists>t p. tearing (pc s t) = Some (p, k) \<and> p \<in> {Td_stop, Td_queue, Td_close})))"
proof -
  have inv: "net_inv s" by (rule net_sys.reaches_inv [OF assms])
  have st: "tearing (pc s t) = Some (p, j) \<longleftrightarrow> stage s j = Claimed p t" for t p j using inv by (simp add: net_inv_def stage_inv_def)
  have fi: "fds s fd = Some k \<longleftrightarrow> k < made s \<and> fd = fd0 s k \<and> holds_fd (stage s k)" for fd
    using inv by (simp add: net_inv_def fds_inv_def)
  have ok: "k < made s \<Longrightarrow> conn_ok (conn s k) (stage s k) (fd0 s k)" using inv by (simp add: net_inv_def conns_inv_def)
  have "length (events k (published s)) \<le> (if stage s k = Torn then 1 else 0)" using inv by (simp add: net_inv_def events_inv_def)
  then have "length (events k (published s)) \<le> 1" by (simp split: if_splits)
  moreover have "t = u" if "tearing (pc s t) \<noteq> None" "map_option snd (tearing (pc s t)) = map_option snd (tearing (pc s u))" for t u
  proof -
    from that obtain p q j where "tearing (pc s t) = Some (p, j)" "tearing (pc s u) = Some (q, j)" by (cases "tearing (pc s u)") auto
    then show ?thesis using st by (metis Stage.inject)
  qed
  moreover have "fds s fd = Some k \<longleftrightarrow> k < made s \<and> nc_fd (conn s k) = fd \<and>
       (connected (conn s k) \<or> (\<exists>t p. tearing (pc s t) = Some (p, k) \<and> p \<in> {Td_stop, Td_queue, Td_close}))" for fd
    using ok unfolding fi st by (cases "stage s k") (auto simp: conn_ok_def holds_fd_def)
  moreover have "fds s (nc_fd (conn s k)) = Some k" if "pc s t = Teardown_at Td_close k r cont" for t r cont
  proof -
    have "k < made s" using inv that pc_conn_made [of s t k] by (simp add: net_inv_def)
    moreover have "tearing (pc s t) = Some (Td_close, k)" using that by simp
    ultimately show ?thesis using ok fi st by (auto simp: conn_ok_def holds_fd_def)
  qed
  ultimately show ?thesis by blast
qed

theorem net_teardown_once_witness:
  "\<exists>s. reaches net_init (net_step True) s \<and> made s = 1 \<and> fds s 7 = Some 0 \<and> connected (conn s 0) \<and> nc_fd (conn s 0) = 7"
proof -
  obtain s where s: "reaches net_init (net_step True) s" "made s = 1" "connected (conn s 0)" "nc_fd (conn s 0) = 7"
    using sender_has_fd [of True] by blast
  with net_teardown_once [OF s(1), of 0] show ?thesis by auto
qed

text \<open>Once the stop flag is set the sender executes at most five more statements of \<open>SendLoop\<close>,
  whatever the socket answers and however full the queue is, and until it has left the loop it
  can always go on.\<close>

theorem net_sender_stops:
  assumes "nc_stop_requested c" "run_SendLoop is p c = Some (p', c')"
  shows "length is \<le> 5 \<and> (in_send_loop p' \<longrightarrow> (\<exists>i q d. SendLoop_step i p' c' = Some (q, d)))"
proof -
  have "stop_steps p \<le> 5" by (cases p) auto
  then have "length is \<le> 5" using run_SendLoop_length [OF assms(2,1)] by simp
  with SendLoop_step_enabled [of p' c'] show ?thesis by blast
qed

theorem net_sender_stops_witness:
  "run_SendLoop [In_send NSend_EAGAIN, In_poll NPoll_ready, In_go, In_go] (S_send 0 7 [65])
     ((NetworkConnection_new 7 [] 80 True)\<lparr>nc_stop_requested := True\<rparr>) =
     Some (Ended, (NetworkConnection_new 7 [] 80 True)\<lparr>nc_stop_requested := True\<rparr>) \<and>
   length [In_send NSend_EAGAIN, In_poll NPoll_ready, In_go, In_go] \<le> 5"
  using net_sender_stops [of "(NetworkConnection_new 7 [] 80 True)\<lparr>nc_stop_requested := True\<rparr>"
      "[In_send NSend_EAGAIN, In_poll NPoll_ready, In_go, In_go]" "S_send 0 7 [65]"]
  by (simp add: NetworkConnection_new_def)

text \<open>C18: The destructor's \<open>join\<close> returns, and nobody joins himself. On the sender's own thread the
  destructor detaches the handle without waiting and the thread ends. On any other thread \<open>join\<close>
  is passed only when the sender has ended (or there is no thread to join), and then leaves no
  joinable handle; until then every step of the system leaves the sender where it is or brings it
  closer to its end (at most ten steps away), and a sender that has not ended can take a step.\<close>

theorem net_destructor_joins:
  assumes "reaches net_init (net_step reuse) s" "pc s t = D_join k"
  shows "if t = Snd k
    then \<exists>s'. net_step reuse s s' \<and> pc s' (Snd k) = Ended \<and> \<not> sender_joinable (conn s' k)
    else (\<exists>u. t = Caller u) \<and> join_rank (pc s (Snd k)) \<le> 10 \<and>
      (\<forall>s'. net_step reuse s s' \<longrightarrow>
         (pc s' (Snd k) = pc s (Snd k) \<or> join_rank (pc s' (Snd k)) < join_rank (pc s (Snd k))) \<and>
         (pc s' t \<noteq> D_join k \<longrightarrow> pc s (Snd k) = Ended \<or> \<not> sender_joinable (conn s k))) \<and>
      (if pc s (Snd k) = Ended \<or> \<not> sender_joinable (conn s k)
       then \<exists>s'. net_step reuse s s' \<and> pc s' t = Idle \<and> \<not> sender_joinable (conn s' k)
       else \<exists>s'. net_step reuse s s' \<and> pc s' (Snd k) \<noteq> pc s (Snd k))"
proof (cases "t = Snd k")
  case True
  obtain c where c: "destroy_join (t = Snd k) (pc s (Snd k) = Ended) (conn s k) = Some c" "\<not> sender_joinable c"
    using True by (cases "sender_joinable (conn s k)") (auto simp: destroy_join_def)
  from net_step.net_join [OF assms(2) c(1), of reuse] True c(2) show ?thesis by (auto intro: step_and)
next
  case False
  have inv: "net_inv s" "destroy_inv s" using net_destroy.reaches_inv [OF assms(1)] by (auto simp: net_destroy_inv_def)
  obtain u where u: "t = Caller u" using False assms(2) inv(1) joining_thread [of s t k] by blast
  have k: "k < made s" using inv(1) assms(2) pc_conn_made [of s "Caller u" k] by (simp add: net_inv_def u)
  have "join_rank (pc s (Snd k)) \<le> 10" by (cases "pc s (Snd k)") (auto split: TdPc.splits)
  moreover have "\<exists>s'. net_step reuse s s' \<and> pc s' t = Idle \<and> \<not> sender_joinable (conn s' k)"
    if e: "pc s (Snd k) = Ended \<or> \<not> sender_joinable (conn s k)"
  proof -
    obtain c where c: "destroy_join (t = Snd k) (pc s (Snd k) = Ended) (conn s k) = Some c" "\<not> sender_joinable c"
      using e False by (cases "sender_joinable (conn s k)") (auto simp: destroy_join_def)
    from net_step.net_join [OF assms(2) c(1), of reuse] show ?thesis by (rule step_and) (use False c(2) in simp)
  qed
  moreover have "\<exists>s'. net_step reuse s s' \<and> pc s' (Snd k) \<noteq> pc s (Snd k)"
    if "\<not> (pc s (Snd k) = Ended \<or> \<not> sender_joinable (conn s k))"
    using that inv k waiting_progress [OF inv(1)] by (auto simp: destroy_inv_def)
  ultimately show ?thesis
    using False waiting_rank [OF inv assms(2) [unfolded u]] join_waits [OF assms(2) [unfolded u]] u by auto
qed

theorem net_destructor_joins_witness:
  "(\<exists>s. reaches net_init (net_step True) s \<and> pc s (Caller 0) = D_join 0 \<and> pc s (Snd 0) = S_send 0 7 [65] \<and>
      (\<exists>s'. net_step True s s' \<and> pc s' (Snd 0) \<noteq> S_send 0 7 [65])) \<and>
   (\<exists>s. reaches net_init (net_step True) s \<and> pc s (Snd 0) = D_join 0 \<and> sender_joinable (conn s 0) \<and>
      (\<exists>s'. net_step True s s' \<and> pc s' (Snd 0) = Ended \<and> \<not> sender_joinable (conn s' 0)))"
proof -
  obtain s where s: "reaches net_init (net_step True) s" "pc s (Caller 0) = D_join 0" "pc s (Snd 0) = S_send 0 7 [65]"
      "sender_joinable (conn s 0)"
    using waiting_destructor_reachable [of True] by blast
  obtain t where t: "reaches net_init (net_step True) t" "pc t (Snd 0) = D_join 0" "sender_joinable (conn t 0)"
    using self_destroying_reachable [of True] by blast
  from net_destructor_joins [OF s(1,2)] net_destructor_joins [OF t(1,2)] s t show ?thesis by auto
qed

end
