(* ===== verification/Network_Server.thy ===== *)
theory Network_Server
  imports Network_Channel Event_Bus Thread_Manager
begin

text \<open>
  \<open>services/network\<close>, the factories: \<open>NetworkServer\<close> with its accept thread, its list of connections
  and its subscription on the event bus, and \<open>NetworkClient\<close>. Here \<open>Teardown\<close> is run with its
  \<open>Publish\<close>, so this theory composes the connection, the event bus and the thread manager. One
  operation runs at a time (how the threads of a connection interleave is the subject of
  \<open>Network_Connection\<close>); what other subscribers do in a handler is a list of operations, any
  function of the event and the state.
\<close>

section \<open>Data\<close>

datatype NetCb = Cb_OnDisconnected | Cb_user nat

datatype NetEvent = Ev_Connected string u16 nat | Ev_Disconnected string u16 NetworkError nat

definition ty_Connected :: nat where
  "ty_Connected = 0"

definition ty_Disconnected :: nat where
  "ty_Disconnected = 1"

record NetworkServer =
  disconnect_sub :: Subscription
  net_listen_fd :: int
  accept_thread :: ThreadManager
  bind_address :: string
  listen_port :: u16
  net_running :: bool
  connections :: "nat list"

text \<open>The objects and descriptors of the process beside the bus; \<open>stopping\<close> is a history: a \<open>Stop\<close>
  that has passed its exchange has not returned yet.\<close>

record NetWorld = "NetCb BusWorld" +
  nconns :: "nat \<Rightarrow> NetworkConnection"
  nmade :: nat
  nopen :: "int set"
  server :: NetworkServer
  stopping :: bool

definition NetworkServer_new :: NetworkServer where
  "NetworkServer_new = \<lparr>disconnect_sub = Subscription_null, net_listen_fd = -1, accept_thread = ThreadManager_new,
     bind_address = [], listen_port = 0, net_running = False, connections = []\<rparr>"

section \<open>Handlers\<close>

definition NetworkServer_OnDisconnected :: "nat \<Rightarrow> NetworkServer \<Rightarrow> NetworkServer" where
  "NetworkServer_OnDisconnected k srv = srv\<lparr>connections := filter (\<lambda>c. c \<noteq> k) (connections srv)\<rparr>"

text \<open>\<open>Teardown\<close> up to the publication, for a connection that was connected.\<close>

definition teardown_object :: "nat \<Rightarrow> NetWorld \<Rightarrow> NetWorld" where
  "teardown_object k w =
     (let c1 = td_local Td_queue (td_local Td_stop (td_local Td_exchange (nconns w k))) in
      if nc_fd c1 \<ge> 0
      then w\<lparr>nconns := (nconns w)(k := td_local Td_reset c1), nopen := nopen w - {nc_fd c1}\<rparr>
      else w\<lparr>nconns := (nconns w)(k := c1)\<rparr>)"

text \<open>
  What a subscriber's handler does, as a program over the public operations. It has no access to
  the server's own handle, and the subscription counter does not wrap. A publication inside a
  handler is rejected by the bus, so \<open>Close\<close> there stops short of it
  (\<open>nested_teardown\<close> below).
\<close>

datatype HandlerOp = H_Subscribe nat nat | H_Cancel Subscription | H_Close nat | H_Send nat "u8 list"

fun exec_op :: "HandlerOp \<Rightarrow> NetWorld \<Rightarrow> NetWorld" where
  "exec_op (H_Subscribe ty n) w =
     (if next_id (bus w) + 1 = 0 then w else snd (EventBus_Subscribe ty (Some (Cb_user n)) w))"
| "exec_op (H_Cancel h) w =
     (if handle_id h = handle_id (disconnect_sub (server w)) then w
      else w\<lparr>bus := snd (Subscription_Cancel True h (bus w))\<rparr>)"
| "exec_op (H_Close k) w = (if connected (nconns w k) then teardown_object k w else w)"
| "exec_op (H_Send k b) w = w\<lparr>nconns := (nconns w)(k := snd (NetworkConnection_Send_bytes b (nconns w k)))\<rparr>"

type_synonym Users = "nat \<Rightarrow> NetEvent \<Rightarrow> NetWorld \<Rightarrow> HandlerOp list \<times> Outcome"

fun net_call :: "Users \<Rightarrow> NetCb \<Rightarrow> NetEvent \<Rightarrow> NetWorld \<Rightarrow> NetWorld \<times> Outcome" where
  "net_call user Cb_OnDisconnected (Ev_Disconnected a p r k) w =
     (w\<lparr>server := NetworkServer_OnDisconnected k (server w)\<rparr>, Returned)"
| "net_call user Cb_OnDisconnected (Ev_Connected a p k) w = (w, Returned)"
| "net_call user (Cb_user n) ev w = (case user n ev w of (ops, out) \<Rightarrow> (fold exec_op ops w, out))"

section \<open>Connections\<close>

text \<open>\<open>referenced\<close>: somebody still holds a \<open>shared_ptr\<close>, so \<open>weak_from_this().lock()\<close> is not null.\<close>

definition NetworkConnection_Teardown :: "Users \<Rightarrow> NetworkError \<Rightarrow> bool \<Rightarrow> nat \<Rightarrow> NetWorld \<Rightarrow> NetWorld" where
  "NetworkConnection_Teardown user reason referenced k w =
     (let c = nconns w k in
      if \<not> connected c then w
      else
        let w1 = teardown_object k w in
        if \<not> is_server_side c then w1
        else if \<not> referenced then w1
        else snd (EventBus_Publish (net_call user) ty_Disconnected
               (Ev_Disconnected (peer_address c) (peer_port c) reason k) w1))"

definition NetworkConnection_Close :: "Users \<Rightarrow> nat \<Rightarrow> NetWorld \<Rightarrow> NetWorld" where
  "NetworkConnection_Close user k w = NetworkConnection_Teardown user Net_SHUTDOWN True k w"

text \<open>\<open>Recv\<close> called alone: the statements of \<open>Recv_step\<close> with the answers of \<open>poll\<close> and \<open>recv\<close>. The last
  component is \<open>out_payload\<close> afterwards.\<close>

definition NetworkConnection_Recv ::
  "Users \<Rightarrow> nat \<Rightarrow> NetPoll \<Rightarrow> NetRecv \<Rightarrow> nat \<Rightarrow> u8 list \<Rightarrow> NetWorld \<Rightarrow> NetworkError \<times> NetWorld \<times> u8 list" where
  "NetworkConnection_Recv user k a b max_bytes out w =
     (let c = nconns w k in
      if max_bytes = 0 then (Net_INVALID_ARGUMENT, w, out)
      else if \<not> connected c then (Net_SHUTDOWN, w, out)
      else if nc_fd c < 0 then (Net_SHUTDOWN, w, out)
      else case a of
          NPoll_timeout \<Rightarrow> (Net_TIMEOUT, w, out)
        | NPoll_EINTR \<Rightarrow> (Net_TIMEOUT, w, out)
        | NPoll_error \<Rightarrow> (Net_RECEIVE_FAILED, NetworkConnection_Teardown user Net_RECEIVE_FAILED True k w, out)
        | NPoll_hangup \<Rightarrow> (Net_PEER_CLOSED, NetworkConnection_Teardown user Net_PEER_CLOSED True k w, out)
        | NPoll_ready \<Rightarrow>
            (case b of
               NGot bytes \<Rightarrow> (Net_SUCCESS, w, bytes)
             | NRecv_FIN \<Rightarrow> (Net_PEER_CLOSED, NetworkConnection_Teardown user Net_PEER_CLOSED True k w, out)
             | NRecv_again \<Rightarrow> (Net_TIMEOUT, w, out)
             | NRecv_ECONNRESET \<Rightarrow> (Net_PEER_CLOSED, NetworkConnection_Teardown user Net_PEER_CLOSED True k w, out)
             | NRecv_other \<Rightarrow>
                 (Net_RECEIVE_FAILED, NetworkConnection_Teardown user Net_RECEIVE_FAILED True k w, out)))"

section \<open>Server\<close>

text \<open>The answers of the calls of \<open>Start\<close>: the descriptor, whether each call succeeds, whether the
  address parses, and the thread.\<close>

record ListenIO =
  listen_fd_got :: int
  reuseaddr_ok :: bool
  pton_ok :: bool
  tcp_bind_ok :: bool
  tcp_listen_ok :: bool
  tcp_nonblock_ok :: bool
  accept_created :: bool
  accept_tid :: nat

definition open_fd :: "int \<Rightarrow> NetWorld \<Rightarrow> NetWorld" where
  "open_fd fd w = w\<lparr>nopen := insert fd (nopen w)\<rparr>"

definition close_fd :: "int \<Rightarrow> NetWorld \<Rightarrow> NetWorld" where
  "close_fd fd w = w\<lparr>nopen := nopen w - {fd}\<rparr>"

text \<open>\<open>None\<close>: \<open>std::terminate()\<close>, when the thread manager still holds a joinable thread.\<close>

definition NetworkServer_Start ::
  "ListenIO \<Rightarrow> string \<Rightarrow> u16 \<Rightarrow> NetWorld \<Rightarrow> (NetworkError \<times> NetWorld) option" where
  "NetworkServer_Start io address port w =
     (if address = [] then Some (Net_INVALID_ARGUMENT, w)
      else if net_running (server w) then Some (Net_ALREADY_RUNNING, w)
      else
        let fd = listen_fd_got io in
        if fd < 0 then Some (Net_SOCKET_CREATION_FAILED, w)
        else
          let w1 = open_fd fd w in
          if \<not> reuseaddr_ok io then Some (Net_SOCKET_CREATION_FAILED, close_fd fd w1)
          else if address \<noteq> ''0.0.0.0'' \<and> \<not> pton_ok io then Some (Net_INVALID_ARGUMENT, close_fd fd w1)
          else if \<not> tcp_bind_ok io then Some (Net_BIND_FAILED, close_fd fd w1)
          else if \<not> tcp_listen_ok io then Some (Net_LISTEN_FAILED, close_fd fd w1)
          else if \<not> tcp_nonblock_ok io then Some (Net_SOCKET_CREATION_FAILED, close_fd fd w1)
          else
            let (h, w2) = EventBus_Subscribe ty_Disconnected (Some Cb_OnDisconnected) w1;
                (sub, _, b) = Subscription_assign True (disconnect_sub (server w2)) h (bus w2);
                w3 = w2\<lparr>bus := b, server := (server w2)\<lparr>disconnect_sub := sub\<rparr>\<rparr> in
            if \<not> Subscription_IsValid True sub then Some (Net_SUBSCRIPTION_FAILED, close_fd fd w3)
            else
              let srv = (server w3)\<lparr>net_listen_fd := fd, bind_address := address, listen_port := port\<rparr> in
              case ThreadManager_Start ''net-accept'' True (accept_created io) (accept_tid io) (accept_thread srv) of
                None \<Rightarrow> None
              | Some (result, tm) \<Rightarrow>
                  if result \<noteq> Thread_SUCCESS then
                    (let (sub', b') = Subscription_Cancel True (disconnect_sub srv) (bus w3) in
                     Some (Net_THREAD_CREATION_FAILED,
                       close_fd (net_listen_fd srv) (w3\<lparr>bus := b',
                         server := srv\<lparr>accept_thread := tm, disconnect_sub := sub', net_listen_fd := -1\<rparr>\<rparr>)))
                  else
                    Some (Net_SUCCESS, w3\<lparr>server := srv\<lparr>accept_thread := tm, net_running := True\<rparr>\<rparr>))"

text \<open>\<open>Stop\<close> up to the \<open>Join\<close>: whether this caller goes on; the wait; the rest.\<close>

definition stop_begin :: "NetWorld \<Rightarrow> bool \<times> NetWorld" where
  "stop_begin w =
     (if \<not> net_running (server w) then (False, w)
      else (True, w\<lparr>server := (server w)\<lparr>net_running := False,
                     accept_thread := snd (ThreadManager_Stop (accept_thread (server w)))\<rparr>, stopping := True\<rparr>))"

definition stop_join :: "NetWorld \<Rightarrow> NetWorld option" where
  "stop_join w =
     (case ThreadManager_Join (accept_thread (server w)) of
        None \<Rightarrow> None
      | Some (e, tm, tid) \<Rightarrow> Some (w\<lparr>server := (server w)\<lparr>accept_thread := tm\<rparr>\<rparr>))"

definition stop_finish :: "Users \<Rightarrow> NetWorld \<Rightarrow> NetWorld" where
  "stop_finish user w =
     (let to_close = connections (server w);
          w1 = fold (NetworkConnection_Close user) to_close w;
          w2 = (if net_listen_fd (server w1) \<ge> 0
                then close_fd (net_listen_fd (server w1)) (w1\<lparr>server := (server w1)\<lparr>net_listen_fd := -1\<rparr>\<rparr>) else w1);
          (sub, b) = Subscription_Cancel True (disconnect_sub (server w2)) (bus w2)
      in w2\<lparr>bus := b, server := (server w2)\<lparr>disconnect_sub := sub\<rparr>, stopping := False\<rparr>)"

definition NetworkServer_Stop :: "Users \<Rightarrow> NetWorld \<Rightarrow> NetWorld option" where
  "NetworkServer_Stop user w =
     (case stop_begin w of
        (False, w1) \<Rightarrow> Some w1
      | (True, w1) \<Rightarrow> map_option (stop_finish user) (stop_join w1))"

text \<open>The destructor: \<open>Stop\<close>, then the members in reverse order, of which the list of connections, the
  thread manager (\<open>None\<close>: it terminates the process when a thread is still joinable) and the
  subscription do something. The connections on the list have been closed by then.\<close>

definition NetworkServer_destroy :: "Users \<Rightarrow> NetWorld \<Rightarrow> NetWorld option" where
  "NetworkServer_destroy user w =
     (case NetworkServer_Stop user w of
        None \<Rightarrow> None
      | Some w1 \<Rightarrow>
          let w2 = w1\<lparr>server := (server w1)\<lparr>connections := []\<rparr>\<rparr> in
          case ThreadManager_destroy (accept_thread (server w2)) of
            None \<Rightarrow> None
          | Some u \<Rightarrow> Some (w2\<lparr>bus := Subscription_destroy True (disconnect_sub (server w2)) (bus w2)\<rparr>))"

text \<open>One pass of \<open>AcceptLoop\<close> after the test of the token; the flag says whether the loop goes on. An
  answer \<open>NPoll_hangup\<close> of \<open>poll\<close> is one without \<open>POLLIN\<close>.\<close>

record AcceptAnswer =
  acc_poll :: NetPoll
  acc_fd :: int
  acc_nonblock_ok :: bool
  acc_name :: "string option"
  acc_port :: u16
  acc_thread_ok :: bool

definition accept_pass :: "Users \<Rightarrow> AcceptAnswer \<Rightarrow> NetWorld \<Rightarrow> bool \<times> NetWorld" where
  "accept_pass user a w =
     (case acc_poll a of
        NPoll_timeout \<Rightarrow> (True, w)
      | NPoll_EINTR \<Rightarrow> (True, w)
      | NPoll_error \<Rightarrow> (False, w)
      | NPoll_hangup \<Rightarrow> (True, w)
      | NPoll_ready \<Rightarrow>
          if acc_fd a < 0 then (True, w)
          else
            let w1 = open_fd (acc_fd a) w in
            if \<not> acc_nonblock_ok a then (True, close_fd (acc_fd a) w1)
            else
              let address = (case acc_name a of Some n \<Rightarrow> n | None \<Rightarrow> ''unknown'');
                  k = nmade w1;
                  (e, c) = NetworkConnection_Start (acc_thread_ok a) (NetworkConnection_new (acc_fd a) address (acc_port a) True);
                  w2 = w1\<lparr>nconns := (nconns w1)(k := c), nmade := Suc k\<rparr> in
              if e \<noteq> Net_SUCCESS then (True, NetworkConnection_Teardown user Net_SHUTDOWN False k w2)
              else
                let w3 = w2\<lparr>server := (server w2)\<lparr>connections := connections (server w2) @ [k]\<rparr>\<rparr> in
                (True, snd (EventBus_Publish (net_call user) ty_Connected (Ev_Connected address (acc_port a) k) w3)))"

fun NetworkServer_AcceptLoop :: "Users \<Rightarrow> AcceptAnswer list \<Rightarrow> NetWorld \<Rightarrow> bool \<times> NetWorld" where
  "NetworkServer_AcceptLoop user [] w = (StopToken_IsStopRequested (stop_token (accept_thread (server w))), w)"
| "NetworkServer_AcceptLoop user (a # as) w =
     (if StopToken_IsStopRequested (stop_token (accept_thread (server w))) then (True, w)
      else case accept_pass user a w of
          (False, w1) \<Rightarrow> (True, w1)
        | (True, w1) \<Rightarrow> NetworkServer_AcceptLoop user as w1)"

definition NetworkServer_IsRunning :: "NetWorld \<Rightarrow> bool" where
  "NetworkServer_IsRunning w = net_running (server w)"

definition NetworkServer_ConnectionCount :: "NetWorld \<Rightarrow> nat" where
  "NetworkServer_ConnectionCount w = length (connections (server w))"

section \<open>Client\<close>

datatype ConnectAnswer = Connect_done | Connect_in_progress | Connect_error

record DialIO =
  dial_fd :: int
  dial_pton_ok :: bool
  dial_nonblock_ok :: bool
  dial_connect :: ConnectAnswer
  dial_poll :: NetPoll
  dial_getsockopt_ok :: bool
  dial_so_error :: int
  dial_thread_ok :: bool

text \<open>\<open>Connect\<close>; the second component is \<open>out_connection\<close> when it was assigned. Every \<open>poll\<close> answer
  above zero goes on to \<open>getsockopt\<close>.\<close>

definition NetworkClient_Connect ::
  "Users \<Rightarrow> DialIO \<Rightarrow> string \<Rightarrow> u16 \<Rightarrow> NetWorld \<Rightarrow> NetworkError \<times> nat option \<times> NetWorld" where
  "NetworkClient_Connect user io host port w =
     (if host = [] then (Net_INVALID_ARGUMENT, None, w)
      else
        let fd = dial_fd io in
        if fd < 0 then (Net_SOCKET_CREATION_FAILED, None, w)
        else
          let w1 = open_fd fd w;
              k = nmade w1;
              (e, c) = NetworkConnection_Start (dial_thread_ok io) (NetworkConnection_new fd host port False);
              w2 = w1\<lparr>nconns := (nconns w1)(k := c), nmade := Suc k\<rparr>;
              finish = (if e \<noteq> Net_SUCCESS
                        then (Net_SEND_FAILED, None, NetworkConnection_Teardown user Net_SHUTDOWN False k w2)
                        else (Net_SUCCESS, Some k, w2)) in
          if \<not> dial_pton_ok io then (Net_INVALID_ARGUMENT, None, close_fd fd w1)
          else if \<not> dial_nonblock_ok io then (Net_SOCKET_CREATION_FAILED, None, close_fd fd w1)
          else case dial_connect io of
              Connect_error \<Rightarrow> (Net_CONNECT_FAILED, None, close_fd fd w1)
            | Connect_done \<Rightarrow> finish
            | Connect_in_progress \<Rightarrow>
                if dial_poll io = NPoll_timeout then (Net_TIMEOUT, None, close_fd fd w1)
                else if dial_poll io = NPoll_error \<or> dial_poll io = NPoll_EINTR
                then (Net_CONNECT_FAILED, None, close_fd fd w1)
                else if \<not> dial_getsockopt_ok io then (Net_CONNECT_FAILED, None, close_fd fd w1)
                else if dial_so_error io \<noteq> 0 then (Net_CONNECT_FAILED, None, close_fd fd w1)
                else finish)"

section \<open>What a dispatch may change\<close>

definition sub_entry :: "NetWorld \<Rightarrow> bool" where
  "sub_entry w \<longleftrightarrow> has_state (disconnect_sub (server w)) \<and> (\<exists>e \<in> set (entries_of ty_Disconnected (bus w)).
     sub_id e = handle_id (disconnect_sub (server w)) \<and> subscriber e = Cb_OnDisconnected)"

text \<open>Handlers of an event about connection \<open>k\<close> may disconnect connections and take \<open>k\<close> off the
  server's list; they add no connection, bring none back, open no descriptor, close the descriptor
  of every connection they disconnect and leave the server's subscription in place.\<close>

definition closes_fds :: "NetWorld \<Rightarrow> NetWorld \<Rightarrow> bool" where
  "closes_fds w w' \<longleftrightarrow> nopen w' \<subseteq> nopen w \<and>
     (\<forall>j. connected (nconns w j) \<longrightarrow>
        (if connected (nconns w' j) then nc_fd (nconns w' j) = nc_fd (nconns w j)
         else 0 \<le> nc_fd (nconns w j) \<longrightarrow> nc_fd (nconns w j) \<notin> nopen w'))"

lemma closes_fdsD:
  "closes_fds w w' \<Longrightarrow> connected (nconns w j) \<Longrightarrow> \<not> connected (nconns w' j) \<Longrightarrow> 0 \<le> nc_fd (nconns w j) \<Longrightarrow>
   nc_fd (nconns w j) \<notin> nopen w'"
  by (auto simp: closes_fds_def)

lemma closes_fds_trans:
  assumes "closes_fds w w1" "closes_fds w1 w2" "\<And>j. connected (nconns w2 j) \<Longrightarrow> connected (nconns w1 j)"
  shows "closes_fds w w2"
  unfolding closes_fds_def
proof (intro conjI allI impI)
  show "nopen w2 \<subseteq> nopen w" using assms(1,2) by (auto simp: closes_fds_def)
  fix j assume j: "connected (nconns w j)"
  show "if connected (nconns w2 j) then nc_fd (nconns w2 j) = nc_fd (nconns w j)
      else 0 \<le> nc_fd (nconns w j) \<longrightarrow> nc_fd (nconns w j) \<notin> nopen w2"
    using j assms unfolding closes_fds_def by (cases "connected (nconns w1 j)"; cases "connected (nconns w2 j)") fastforce+
qed

definition net_effect :: "nat option \<Rightarrow> NetWorld \<Rightarrow> NetWorld \<Rightarrow> bool" where
  "net_effect k w w' \<longleftrightarrow>
     nmade w' = nmade w \<and> stopping w' = stopping w \<and>
     (\<forall>j. is_server_side (nconns w' j) = is_server_side (nconns w j) \<and> (connected (nconns w' j) \<longrightarrow> connected (nconns w j))) \<and>
     closes_fds w w' \<and>
     (\<exists>P. server w' = (server w)\<lparr>connections := filter P (connections (server w))\<rparr> \<and> (\<forall>j. \<not> P j \<longrightarrow> k = Some j)) \<and>
     (bus_inv (bus w) \<longrightarrow> bus_inv (bus w') \<and> (sub_entry w \<longrightarrow> sub_entry w'))"

lemma effect_server:
  "nmade w' = nmade w \<Longrightarrow> stopping w' = stopping w \<Longrightarrow> nconns w' = nconns w \<Longrightarrow> server w' = server w \<Longrightarrow> bus w' = bus w \<Longrightarrow>
   nopen w' = nopen w \<Longrightarrow> net_effect k w w'"
  unfolding net_effect_def sub_entry_def closes_fds_def by (auto intro!: exI [of _ "\<lambda>_. True"])

lemma effect_refl [simp]: "net_effect k w w"
  by (rule effect_server) simp_all

lemma effect_trans:
  assumes "net_effect k w w1" "net_effect k w1 w2"
  shows "net_effect k w w2"
proof -
  obtain P where P: "server w1 = (server w)\<lparr>connections := filter P (connections (server w))\<rparr>" "\<forall>j. \<not> P j \<longrightarrow> k = Some j"
    using assms(1) by (auto simp: net_effect_def)
  obtain Q where Q: "server w2 = (server w1)\<lparr>connections := filter Q (connections (server w1))\<rparr>" "\<forall>j. \<not> Q j \<longrightarrow> k = Some j"
    using assms(2) by (auto simp: net_effect_def)
  have "server w2 = (server w)\<lparr>connections := filter (\<lambda>j. Q j \<and> P j) (connections (server w))\<rparr>"
    using P(1) Q(1) by (simp add: filter_filter conj_commute)
  moreover have "\<forall>j. \<not> (Q j \<and> P j) \<longrightarrow> k = Some j" using P(2) Q(2) by blast
  ultimately have "\<exists>P. server w2 = (server w)\<lparr>connections := filter P (connections (server w))\<rparr> \<and> (\<forall>j. \<not> P j \<longrightarrow> k = Some j)"
    by (intro exI [of _ "\<lambda>j. Q j \<and> P j"]) blast
  moreover have "closes_fds w w2" using assms closes_fds_trans [of w w1 w2] by (simp add: net_effect_def)
  ultimately show ?thesis using assms unfolding net_effect_def by simp
qed

lemma effect_weaken: "net_effect None w w' \<Longrightarrow> net_effect k w w'"
  unfolding net_effect_def by auto

lemma effect_conns:
  assumes "connected c \<longrightarrow> connected (nconns w k)" "is_server_side c = is_server_side (nconns w k)"
    and "closes_fds w (w\<lparr>nconns := (nconns w)(k := c), nopen := n\<rparr>)"
  shows "net_effect None w (w\<lparr>nconns := (nconns w)(k := c), nopen := n\<rparr>)"
  using assms by (auto simp: net_effect_def sub_entry_def intro!: exI [of _ "\<lambda>_. True"])

lemma effect_teardown_object: "net_effect None w (teardown_object k w)"
proof -
  have "\<exists>c n. teardown_object k w = w\<lparr>nconns := (nconns w)(k := c), nopen := n\<rparr> \<and> \<not> connected c \<and>
      is_server_side c = is_server_side (nconns w k) \<and> closes_fds w (w\<lparr>nconns := (nconns w)(k := c), nopen := n\<rparr>)"
    unfolding teardown_object_def Let_def closes_fds_def
    by (cases "0 \<le> nc_fd (nconns w k)") (fastforce intro: exI [of _ "nopen w"])+
  then obtain c n where "teardown_object k w = w\<lparr>nconns := (nconns w)(k := c), nopen := n\<rparr>" "\<not> connected c"
    "is_server_side c = is_server_side (nconns w k)" "closes_fds w (w\<lparr>nconns := (nconns w)(k := c), nopen := n\<rparr>)" by blast
  then show ?thesis using effect_conns [of c w k n] by simp
qed

lemma connected_teardown_object: "connected (nconns (teardown_object k w) j) \<longleftrightarrow> j \<noteq> k \<and> connected (nconns w j)"
  by (simp add: teardown_object_def Let_def)

lemma effect_subscribe:
  assumes "next_id (bus w) + 1 \<noteq> 0"
  shows "net_effect None w (snd (EventBus_Subscribe ty (Some cb) w))"
proof -
  have f: "nmade (snd (EventBus_Subscribe ty (Some cb) w)) = nmade w" "stopping (snd (EventBus_Subscribe ty (Some cb) w)) = stopping w"
    "nconns (snd (EventBus_Subscribe ty (Some cb) w)) = nconns w" "server (snd (EventBus_Subscribe ty (Some cb) w)) = server w"
    "nopen (snd (EventBus_Subscribe ty (Some cb) w)) = nopen w"
    by (auto simp: EventBus_Subscribe_def Let_def)
  have "sub_entry w \<longrightarrow> sub_entry (snd (EventBus_Subscribe ty (Some cb) w))"
  proof (cases "total_subscribers (bus w) < kMaxSubscribers")
    case True
    then show ?thesis using subscribe_entries [OF True, of ty_Disconnected ty cb] unfolding sub_entry_def f by auto
  next
    case False
    then have "bus (snd (EventBus_Subscribe ty (Some cb) w)) = bus w" by (simp add: EventBus_Subscribe_def Let_def)
    then show ?thesis unfolding sub_entry_def f by simp
  qed
  with bus_inv_subscribe [OF _ assms, of ty "Some cb"] f show ?thesis
    by (auto simp: net_effect_def closes_fds_def intro!: exI [of _ "\<lambda>_. True"])
qed

lemma effect_cancel:
  assumes "handle_id h \<noteq> handle_id (disconnect_sub (server w))"
  shows "net_effect None w (w\<lparr>bus := snd (Subscription_Cancel True h (bus w))\<rparr>)"
proof (cases "has_state h")
  case True
  then have b: "snd (Subscription_Cancel True h (bus w)) = RemoveSubscriberFromState (handle_id h) (bus w)"
    by (simp add: Subscription_Cancel_def)
  have "sub_entry w \<longrightarrow> sub_entry (w\<lparr>bus := RemoveSubscriberFromState (handle_id h) (bus w)\<rparr>)" if "bus_inv (bus w)"
    using assms by (auto simp: sub_entry_def entries_of_remove [OF that] without_def)
  with bus_inv_remove show ?thesis unfolding b net_effect_def closes_fds_def by (auto intro!: exI [of _ "\<lambda>_. True"])
next
  case False
  then have "snd (Subscription_Cancel True h (bus w)) = bus w" by (simp add: Subscription_Cancel_def)
  then show ?thesis by (intro effect_server) simp_all
qed

lemma send_bytes_frame:
  "connected (snd (NetworkConnection_Send_bytes b c)) = connected c"
  "is_server_side (snd (NetworkConnection_Send_bytes b c)) = is_server_side c"
  "nc_fd (snd (NetworkConnection_Send_bytes b c)) = nc_fd c"
  by (auto simp: NetworkConnection_Send_bytes_def NetworkConnection_Send_def send_push_def split: sum.splits prod.splits)

lemma effect_exec_op: "net_effect None w (exec_op op w)"
proof (cases op)
  case (H_Subscribe ty n)
  then show ?thesis using effect_subscribe [of w ty "Cb_user n"] by simp
next
  case (H_Cancel h)
  then show ?thesis using effect_cancel [of h w] by simp
next
  case (H_Close k)
  then show ?thesis using effect_teardown_object by simp
next
  case (H_Send k b)
  then show ?thesis
    using effect_conns [of "snd (NetworkConnection_Send_bytes b (nconns w k))" w k "nopen w"]
    by (simp add: send_bytes_frame closes_fds_def)
qed

lemma effect_exec_ops: "net_effect None w (fold exec_op ops w)"
  by (induction ops arbitrary: w) (auto intro: effect_trans effect_exec_op)

fun event_conn :: "NetEvent \<Rightarrow> nat option" where
  "event_conn (Ev_Disconnected a p r k) = Some k"
| "event_conn (Ev_Connected a p k) = None"

lemma effect_call: "net_effect (event_conn ev) w (fst (net_call user cb ev w))"
proof (induction user cb ev w rule: net_call.induct)
  case (1 user a p r k w)
  then show ?case
    by (auto simp: net_effect_def NetworkServer_OnDisconnected_def sub_entry_def closes_fds_def intro!: exI [of _ "\<lambda>c. c \<noteq> k"])
next
  case (3 user n ev w)
  then show ?case by (auto split: prod.splits intro: effect_weaken effect_exec_ops)
qed simp

lemma effect_note: "net_effect k w (note_outcome out w)"
  by (cases out) (auto intro: effect_server)

lemma effect_dispatch: "net_effect (event_conn ev) w (dispatch (net_call user) ev cbs w)"
proof (induction cbs arbitrary: w)
  case (Cons cb cbs)
  obtain w1 out where c: "net_call user cb ev (w\<lparr>calls := calls w @ [cb]\<rparr>) = (w1, out)" by fastforce
  have a: "net_effect (event_conn ev) w (w\<lparr>calls := calls w @ [cb]\<rparr>)" by (rule effect_server) simp_all
  have "net_effect (event_conn ev) (w\<lparr>calls := calls w @ [cb]\<rparr>) w1"
    using effect_call [of ev "w\<lparr>calls := calls w @ [cb]\<rparr>" user cb] c by simp
  from effect_trans [OF effect_trans [OF effect_trans [OF a this] effect_note] Cons.IH] c show ?case by simp
qed simp

text \<open>The server's handler, once called, takes the connection off the list for good.\<close>

lemma effect_off: "net_effect k w w' \<Longrightarrow> j \<notin> set (connections (server w)) \<Longrightarrow> j \<notin> set (connections (server w'))"
  by (auto simp: net_effect_def)

lemma dispatch_removes:
  assumes "Cb_OnDisconnected \<in> set cbs"
  shows "k \<notin> set (connections (server (dispatch (net_call user) (Ev_Disconnected a p r k) cbs w)))"
  using assms
proof (induction cbs arbitrary: w)
  case (Cons cb cbs)
  obtain w1 out where c: "net_call user cb (Ev_Disconnected a p r k) (w\<lparr>calls := calls w @ [cb]\<rparr>) = (w1, out)" by fastforce
  show ?case
  proof (cases "cb = Cb_OnDisconnected")
    case True
    then have "k \<notin> set (connections (server w1))" using c by (auto simp: NetworkServer_OnDisconnected_def)
    then have "k \<notin> set (connections (server (note_outcome out w1)))" using effect_off [OF effect_note] by blast
    with c show ?thesis using effect_off [OF effect_dispatch] by simp
  next
    case False
    with Cons c show ?thesis by simp
  qed
qed simp

section \<open>The network as a client of the bus\<close>

lemma exec_op_api: "bus_api w (exec_op op w)"
proof (cases op)
  case (H_Subscribe ty n)
  then show ?thesis using api_subscribe [of w ty "Some (Cb_user n)"] api_other [of w w] by simp
next
  case (H_Cancel h)
  then show ?thesis using api_cancel [of w True h] api_other [of w w] by simp
next
  case (H_Close k)
  then show ?thesis by (auto intro!: api_other simp: teardown_object_def Let_def)
next
  case (H_Send k b)
  then show ?thesis by (auto intro!: api_other)
qed

lemma exec_ops_api: "bus_api\<^sup>*\<^sup>* w (fold exec_op ops w)"
proof (induction ops arbitrary: w)
  case (Cons op ops)
  from converse_rtranclp_into_rtranclp [OF exec_op_api Cons.IH] show ?case by simp
qed simp

interpretation net_bus: bus_client "net_call user" for user
proof
  show "bus_api\<^sup>*\<^sup>* w (fst (net_call user cb ev w))" if "dispatching w" for w :: NetWorld and cb ev
  proof (induction user cb ev w rule: net_call.induct)
    case (1 user a p r k w)
    have "bus_api w (w\<lparr>server := NetworkServer_OnDisconnected k (server w)\<rparr>)" by (rule api_other) simp_all
    then show ?case by (simp add: r_into_rtranclp)
  next
    case (3 user n ev w)
    then show ?case by (auto split: prod.splits intro: exec_ops_api)
  qed simp
qed

lemma nested_teardown:
  assumes "dispatching w"
  shows "NetworkConnection_Close user k w = exec_op (H_Close k) w"
proof -
  have "dispatching (teardown_object k w)" using assms by (simp add: teardown_object_def Let_def)
  then show ?thesis by (simp add: NetworkConnection_Close_def NetworkConnection_Teardown_def Let_def publish_rejected)
qed

lemma effect_publish:
  assumes "\<not> dispatching w"
  shows "net_effect (event_conn ev) w (snd (EventBus_Publish (net_call user) ty ev w))"
proof (cases "map_of (subscribers (bus w)) ty")
  case None
  then show ?thesis using assms by (simp add: EventBus_Publish_def)
next
  case (Some es)
  let ?w1 = "dispatch (net_call user) ev (map subscriber es) (w\<lparr>dispatching := True\<rparr>)"
  have a: "net_effect (event_conn ev) w (w\<lparr>dispatching := True\<rparr>)" by (rule effect_server) simp_all
  have b: "net_effect (event_conn ev) ?w1 (?w1\<lparr>dispatching := False\<rparr>)" by (rule effect_server) simp_all
  from effect_trans [OF effect_trans [OF a effect_dispatch] b] Some assms show ?thesis
    by (simp add: EventBus_Publish_def Let_def)
qed

lemma publish_removes:
  assumes "\<not> dispatching w" "sub_entry w"
  shows "k \<notin> set (connections (server (snd (EventBus_Publish (net_call user) ty_Disconnected (Ev_Disconnected a p r k) w))))"
proof -
  obtain es where es: "map_of (subscribers (bus w)) ty_Disconnected = Some es" "Cb_OnDisconnected \<in> set (map subscriber es)"
    using assms(2) by (force simp: sub_entry_def entries_of_def split: option.splits)
  with dispatch_removes [OF es(2), of k user a p r "w\<lparr>dispatching := True\<rparr>"] assms(1) show ?thesis
    by (simp add: EventBus_Publish_def Let_def)
qed

lemma teardown_effect:
  assumes "\<not> dispatching w"
  shows "net_effect (Some k) w (NetworkConnection_Teardown user r ref k w)"
    "\<not> connected (nconns (NetworkConnection_Teardown user r ref k w) k)"
proof -
  let ?w1 = "teardown_object k w" and ?c = "nconns w k"
  let ?ev = "Ev_Disconnected (peer_address ?c) (peer_port ?c) r k"
  have nd: "\<not> dispatching ?w1" using assms by (simp add: teardown_object_def Let_def)
  note p = effect_publish [OF nd, of ?ev user ty_Disconnected, unfolded event_conn.simps]
  have t: "net_effect (Some k) w ?w1" by (rule effect_weaken [OF effect_teardown_object])
  have off: "\<not> connected (nconns ?w1 k)" by (simp add: connected_teardown_object)
  have off2: "\<not> connected (nconns (snd (EventBus_Publish (net_call user) ty_Disconnected ?ev ?w1)) k)"
    using p off unfolding net_effect_def by blast
  let ?w' = "NetworkConnection_Teardown user r ref k w"
  consider "\<not> connected ?c" "?w' = w" | "?w' = ?w1" | "?w' = snd (EventBus_Publish (net_call user) ty_Disconnected ?ev ?w1)"
    unfolding NetworkConnection_Teardown_def Let_def by (cases "connected ?c"; cases "is_server_side ?c"; cases ref) simp_all
  then have "net_effect (Some k) w ?w' \<and> \<not> connected (nconns ?w' k)"
  proof cases
    case 1
    then show ?thesis by simp
  next
    case 2
    with t off show ?thesis by simp
  next
    case 3
    with effect_trans [OF t p] off2 show ?thesis by simp
  qed
  then show "net_effect (Some k) w ?w'" "\<not> connected (nconns ?w' k)" by simp_all
qed

lemma publish_flag:
  fixes w :: NetWorld
  assumes "\<not> dispatching w" "bus_inv (bus w)"
  shows "\<not> dispatching (snd (EventBus_Publish (net_call user) ty ev w))"
  using net_bus.publish_delivers [OF assms, of user ty ev "fst (EventBus_Publish (net_call user) ty ev w)"
      "snd (EventBus_Publish (net_call user) ty ev w)"] by simp

lemma teardown_flag:
  assumes "\<not> dispatching w" "bus_inv (bus w)"
  shows "\<not> dispatching (NetworkConnection_Teardown user r ref k w)"
proof -
  have "\<not> dispatching (teardown_object k w)" "bus (teardown_object k w) = bus w"
    using assms by (simp_all add: teardown_object_def Let_def)
  with publish_flag [of "teardown_object k w"] assms show ?thesis by (simp add: NetworkConnection_Teardown_def Let_def)
qed

section \<open>The running server\<close>

definition thread_ok :: "ThreadManager \<Rightarrow> bool" where
  "thread_ok tm \<longleftrightarrow> (worker_thread tm \<noteq> None \<longleftrightarrow> tm_running tm)"

text \<open>Every live accepted connection is on the list, whatever the handlers do.\<close>

definition srv_inv :: "NetWorld \<Rightarrow> bool" where
  "srv_inv w \<longleftrightarrow> \<not> dispatching w \<and> bus_inv (bus w) \<and>
     (\<forall>k < nmade w. connected (nconns w k) \<and> is_server_side (nconns w k) \<longrightarrow> k \<in> set (connections (server w))) \<and>
     (\<forall>k \<in> set (connections (server w)). k < nmade w \<and> is_server_side (nconns w k)) \<and>
     distinct (connections (server w)) \<and>
     thread_ok (accept_thread (server w)) \<and>
     (net_running (server w) \<or> tm_running (accept_thread (server w)) \<longrightarrow>
        (net_running (server w) \<or> stopping w) \<and> sub_entry w) \<and>
     (net_running (server w) \<longrightarrow> \<not> stopping w) \<and> (stopping w \<longrightarrow> sub_entry w) \<and>
     (net_running (server w) \<or> stopping w \<longrightarrow> 0 \<le> net_listen_fd (server w)) \<and>
     (\<not> net_running (server w) \<and> \<not> stopping w \<longrightarrow> disconnect_sub (server w) = Subscription_null)"

text \<open>Start and Stop are called from one thread at a time.\<close>

inductive srv_step :: "Users \<Rightarrow> NetWorld \<Rightarrow> NetWorld \<Rightarrow> bool" for user where
  srv_start: "\<not> stopping w \<Longrightarrow> next_id (bus w) + 1 \<noteq> 0 \<Longrightarrow> NetworkServer_Start io address port w = Some (e, w') \<Longrightarrow>
    srv_step user w w'"
| srv_stop_begin: "stop_begin w = (True, w') \<Longrightarrow> srv_step user w w'"
| srv_stop_finish: "stopping w \<Longrightarrow> stop_join w = Some w1 \<Longrightarrow> srv_step user w (stop_finish user w1)"
| srv_accept: "tm_running (accept_thread (server w)) \<Longrightarrow> accept_pass user a w = (go, w') \<Longrightarrow> srv_step user w w'"
| srv_accept_ends: "tm_running (accept_thread (server w)) \<Longrightarrow>
    srv_step user w (w\<lparr>server := (server w)\<lparr>accept_thread := worker_epilogue (accept_thread (server w))\<rparr>\<rparr>)"
| srv_teardown: "k < nmade w \<Longrightarrow> srv_step user w (NetworkConnection_Teardown user r True k w)"
| srv_drop: "k < nmade w \<Longrightarrow> k \<notin> set (connections (server w)) \<Longrightarrow>
    srv_step user w (NetworkConnection_Teardown user Net_SHUTDOWN False k w)"
| srv_user: "(\<forall>k. op \<noteq> H_Close k) \<Longrightarrow> srv_step user w (exec_op op w)"
| srv_connect: "NetworkClient_Connect user io host port w = (e, out, w') \<Longrightarrow> srv_step user w w'"

definition srv_init :: "NetWorld \<Rightarrow> bool" where
  "srv_init w \<longleftrightarrow> \<not> dispatching w \<and> bus w = BusState_new \<and> nmade w = 0 \<and> server w = NetworkServer_new \<and> \<not> stopping w"

lemma srv_inv_effect:
  assumes "srv_inv w" "net_effect k w w'" "\<not> dispatching w'" "\<And>j. k = Some j \<Longrightarrow> \<not> connected (nconns w' j)"
  shows "srv_inv w'"
proof -
  obtain P where P: "server w' = (server w)\<lparr>connections := filter P (connections (server w))\<rparr>" "\<forall>j. \<not> P j \<longrightarrow> k = Some j"
    using assms(2) by (auto simp: net_effect_def)
  have b: "bus_inv (bus w')" "sub_entry w \<longrightarrow> sub_entry w'" "nmade w' = nmade w" "stopping w' = stopping w"
    using assms(1,2) by (auto simp: net_effect_def srv_inv_def)
  have c: "is_server_side (nconns w' j) = is_server_side (nconns w j)" "connected (nconns w' j) \<Longrightarrow> connected (nconns w j)" for j
    using assms(2) by (auto simp: net_effect_def)
  have s': "connections (server w') = filter P (connections (server w))" "net_running (server w') = net_running (server w)"
    "accept_thread (server w') = accept_thread (server w)" "disconnect_sub (server w') = disconnect_sub (server w)"
    "net_listen_fd (server w') = net_listen_fd (server w)"
    using P(1) by simp_all
  have "i \<in> set (connections (server w'))" if "i < nmade w'" "connected (nconns w' i)" "is_server_side (nconns w' i)" for i
  proof -
    have "i \<in> set (connections (server w))" using that assms(1) b(3) c unfolding srv_inv_def by metis
    moreover have "P i" using P(2) assms(4) that(2) by blast
    ultimately show ?thesis by (simp add: s')
  qed
  moreover have "i < nmade w' \<and> is_server_side (nconns w' i)" if "i \<in> set (connections (server w'))" for i
    using that assms(1) b(3) c(1) unfolding srv_inv_def s' by simp
  moreover have "distinct (connections (server w'))" using assms(1) by (simp add: srv_inv_def s')
  moreover have "thread_ok (accept_thread (server w'))" using assms(1) by (simp add: srv_inv_def s')
  moreover have "net_running (server w') \<or> tm_running (accept_thread (server w')) \<longrightarrow>
      (net_running (server w') \<or> stopping w') \<and> sub_entry w'"
    using assms(1) b(2,4) unfolding srv_inv_def s' by blast
  moreover have "(net_running (server w') \<longrightarrow> \<not> stopping w') \<and> (stopping w' \<longrightarrow> sub_entry w') \<and>
      (net_running (server w') \<or> stopping w' \<longrightarrow> 0 \<le> net_listen_fd (server w')) \<and>
      (\<not> net_running (server w') \<and> \<not> stopping w' \<longrightarrow> disconnect_sub (server w') = Subscription_null)"
    using assms(1) b(2,4) unfolding srv_inv_def s' by blast
  ultimately show ?thesis using assms(3) b(1) unfolding srv_inv_def by blast
qed

lemma srv_inv_teardown: "srv_inv w \<Longrightarrow> srv_inv (NetworkConnection_Teardown user r ref k w)"
  by (rule srv_inv_effect [OF _ teardown_effect(1)]) (auto simp: srv_inv_def teardown_flag teardown_effect(2))

lemma srv_inv_frame:
  assumes "srv_inv w" "dispatching w' = dispatching w" "bus w' = bus w" "nmade w' = nmade w" "nconns w' = nconns w"
    "server w' = server w" "stopping w' = stopping w"
  shows "srv_inv w'"
  using assms by (simp add: srv_inv_def sub_entry_def)

lemma srv_inv_new_conn:
  assumes "srv_inv w" "dispatching w' = dispatching w" "bus w' = bus w" "server w' = server w" "stopping w' = stopping w"
    and "nmade w' = Suc (nmade w)" "nconns w' = (nconns w)(nmade w := c)" "\<not> (connected c \<and> is_server_side c)"
  shows "srv_inv w'"
proof -
  have "k \<noteq> nmade w" if "k \<in> set (connections (server w))" for k using assms(1) that by (auto simp: srv_inv_def)
  then show ?thesis using assms unfolding srv_inv_def by (auto simp: less_Suc_eq sub_entry_def)
qed

lemma connection_start_frame:
  assumes "NetworkConnection_Start b (NetworkConnection_new fd a p srv) = (e, c)"
  shows "connected c" "is_server_side c = srv" "e = Net_SUCCESS \<or> e = Net_SEND_FAILED" "nc_fd c = fd"
  using assms by (auto simp: NetworkConnection_Start_def NetworkConnection_new_def Let_def split: if_splits)

text \<open>How a pass and a \<open>Connect\<close> can end.\<close>

definition new_conn :: "int \<Rightarrow> NetworkConnection \<Rightarrow> NetWorld \<Rightarrow> NetWorld" where
  "new_conn fd c w = (open_fd fd w)\<lparr>nconns := (nconns w)(nmade w := c), nmade := Suc (nmade w)\<rparr>"

lemma accept_pass_cases:
  assumes "accept_pass user a w = (go, w')"
  obtains "w' = w" | "w' = close_fd (acc_fd a) (open_fd (acc_fd a) w)"
  | c where "is_server_side c" "w' = NetworkConnection_Teardown user Net_SHUTDOWN False (nmade w) (new_conn (acc_fd a) c w)"
  | c name where "is_server_side c" "w' = snd (EventBus_Publish (net_call user) ty_Connected (Ev_Connected name (acc_port a) (nmade w))
      ((new_conn (acc_fd a) c w)\<lparr>server := (server w)\<lparr>connections := connections (server w) @ [nmade w]\<rparr>\<rparr>))"
proof -
  let ?addr = "case acc_name a of Some n \<Rightarrow> n | None \<Rightarrow> ''unknown''"
  obtain e c where st: "NetworkConnection_Start (acc_thread_ok a) (NetworkConnection_new (acc_fd a) ?addr (acc_port a) True) = (e, c)"
    by fastforce
  have "w' = w \<or> w' = close_fd (acc_fd a) (open_fd (acc_fd a) w) \<or>
      w' = NetworkConnection_Teardown user Net_SHUTDOWN False (nmade w) (new_conn (acc_fd a) c w) \<or>
      w' = snd (EventBus_Publish (net_call user) ty_Connected (Ev_Connected ?addr (acc_port a) (nmade w))
        ((new_conn (acc_fd a) c w)\<lparr>server := (server w)\<lparr>connections := connections (server w) @ [nmade w]\<rparr>\<rparr>))"
    using assms st by (auto simp: accept_pass_def Let_def open_fd_def new_conn_def split: if_splits NetPoll.splits)
  with that connection_start_frame(2) [OF st] show ?thesis by blast
qed

lemma connect_cases:
  assumes "NetworkClient_Connect user io host port w = (e, out, w')"
  obtains "w' = w" | "w' = close_fd (dial_fd io) (open_fd (dial_fd io) w)"
  | c where "\<not> is_server_side c" "w' = new_conn (dial_fd io) c w"
  | c where "\<not> is_server_side c" "w' = NetworkConnection_Teardown user Net_SHUTDOWN False (nmade w) (new_conn (dial_fd io) c w)"
proof -
  obtain e2 c where st: "NetworkConnection_Start (dial_thread_ok io) (NetworkConnection_new (dial_fd io) host port False) = (e2, c)"
    by fastforce
  have "w' = w \<or> w' = close_fd (dial_fd io) (open_fd (dial_fd io) w) \<or> w' = new_conn (dial_fd io) c w \<or>
      w' = NetworkConnection_Teardown user Net_SHUTDOWN False (nmade w) (new_conn (dial_fd io) c w)"
    using assms st by (auto simp: NetworkClient_Connect_def Let_def open_fd_def new_conn_def split: if_splits ConnectAnswer.splits)
  with that connection_start_frame(2) [OF st] show ?thesis by blast
qed

lemma srv_inv_connect:
  assumes "srv_inv w" "NetworkClient_Connect user io host port w = (e, out, w')"
  shows "srv_inv w'"
proof -
  have o: "srv_inv (close_fd (dial_fd io) (open_fd (dial_fd io) w))"
    by (auto intro!: srv_inv_frame [OF assms(1)] simp: open_fd_def close_fd_def)
  have n: "srv_inv (new_conn (dial_fd io) c w)" if "\<not> is_server_side c" for c
    by (rule srv_inv_new_conn [OF assms(1), where c = c]) (use that in \<open>simp_all add: new_conn_def open_fd_def\<close>)
  from assms(2) show ?thesis
    by (cases rule: connect_cases) (use assms(1) o n srv_inv_teardown in blast)+
qed

lemma srv_inv_accept:
  assumes "srv_inv w" "accept_pass user a w = (go, w')" "tm_running (accept_thread (server w))"
  shows "srv_inv w'"
  using assms(2)
proof (cases rule: accept_pass_cases)
  case 1
  with assms(1) show ?thesis by simp
next
  case 2
  then show ?thesis by (auto intro!: srv_inv_frame [OF assms(1)] simp: open_fd_def close_fd_def)
next
  case (3 c)
  let ?w2 = "new_conn (acc_fd a) c w"
  have t: "NetworkConnection_Teardown user Net_SHUTDOWN False (nmade w) ?w2 =
      (if connected c then teardown_object (nmade w) ?w2 else ?w2)"
    by (simp add: NetworkConnection_Teardown_def new_conn_def Let_def)
  show ?thesis
    unfolding 3(2) t
    by (rule srv_inv_new_conn [OF assms(1), where c = "nconns (if connected c then teardown_object (nmade w) ?w2 else ?w2) (nmade w)"])
      (auto simp: teardown_object_def Let_def open_fd_def new_conn_def)
next
  case (4 c name)
  let ?w3 = "(new_conn (acc_fd a) c w)\<lparr>server := (server w)\<lparr>connections := connections (server w) @ [nmade w]\<rparr>\<rparr>"
  have new: "k \<noteq> nmade w" if "k \<in> set (connections (server w))" for k using assms(1) that by (auto simp: srv_inv_def)
  have w3: "srv_inv ?w3"
    using assms(1) new 4(1) unfolding srv_inv_def new_conn_def by (auto simp: less_Suc_eq sub_entry_def open_fd_def)
  show ?thesis
    unfolding 4(2)
  proof (rule srv_inv_effect [OF w3])
    show "net_effect None ?w3 (snd (EventBus_Publish (net_call user) ty_Connected (Ev_Connected name (acc_port a) (nmade w)) ?w3))"
      using effect_publish [of ?w3 "Ev_Connected name (acc_port a) (nmade w)" user ty_Connected] w3 by (simp add: srv_inv_def)
    show "\<not> dispatching (snd (EventBus_Publish (net_call user) ty_Connected (Ev_Connected name (acc_port a) (nmade w)) ?w3))"
      using publish_flag [of ?w3] w3 by (simp add: srv_inv_def)
  qed simp
qed

section \<open>Start\<close>

definition listens :: "ListenIO \<Rightarrow> string \<Rightarrow> bool" where
  "listens io address \<longleftrightarrow> address \<noteq> [] \<and> 0 \<le> listen_fd_got io \<and> reuseaddr_ok io \<and> (address = ''0.0.0.0'' \<or> pton_ok io) \<and>
     tcp_bind_ok io \<and> tcp_listen_ok io \<and> tcp_nonblock_ok io"

lemma effect_thread: "net_effect k w w' \<Longrightarrow> accept_thread (server w') = accept_thread (server w)"
  by (auto simp: net_effect_def)

lemma accept_keeps_thread:
  assumes "\<not> dispatching w" "accept_pass user a w = (go, w')"
  shows "accept_thread (server w') = accept_thread (server w)"
proof -
  have "accept_thread (server (NetworkConnection_Teardown user r ref k v)) = accept_thread (server v)"
    "accept_thread (server (snd (EventBus_Publish (net_call user) ty ev v))) = accept_thread (server v)"
    if "\<not> dispatching v" for r ref k ty ev v
    using effect_thread [OF teardown_effect(1) [OF that]] effect_thread [OF effect_publish [OF that]] by auto
  with assms show ?thesis
    by (auto simp: accept_pass_def Let_def open_fd_def close_fd_def split: if_splits NetPoll.splits prod.splits)
qed

lemma start_early:
  assumes "NetworkServer_Start io address port w = Some (e, w')" "\<not> (listens io address \<and> \<not> net_running (server w))"
  shows "e \<noteq> Net_SUCCESS \<and> (w' = w \<or> w' = close_fd (listen_fd_got io) (open_fd (listen_fd_got io) w))"
  using assms by (auto simp: NetworkServer_Start_def listens_def Let_def split: if_splits)

text \<open>The late part: with room on the bus and a thread, the server runs; otherwise the bus is as
  before.\<close>

lemma start_full:
  assumes "NetworkServer_Start io address port w = Some (e, w')" "listens io address" "\<not> net_running (server w)"
    "disconnect_sub (server w) = Subscription_null" "\<not> total_subscribers (bus w) < kMaxSubscribers"
  shows "e = Net_SUBSCRIPTION_FAILED" "bus w' = bus w" "server w' = server w" "nconns w' = nconns w" "nmade w' = nmade w"
    "stopping w' = stopping w" "dispatching w' = dispatching w" "nopen w' = insert (listen_fd_got io) (nopen w) - {listen_fd_got io}"
  using assms
  by (auto simp: NetworkServer_Start_def listens_def Let_def EventBus_Subscribe_def Subscription_assign_def Subscription_Cancel_def
      Subscription_IsValid_def Subscription_null_def open_fd_def close_fd_def)

lemma start_late:
  assumes "NetworkServer_Start io address port w = Some (e, w')" "listens io address" "\<not> net_running (server w)"
    "disconnect_sub (server w) = Subscription_null" "total_subscribers (bus w) < kMaxSubscribers" "next_id (bus w) \<noteq> 0"
    "\<not> tm_running (accept_thread (server w))" "thread_ok (accept_thread (server w))"
  defines "h \<equiv> \<lparr>has_state = True, handle_id = next_id (bus w)\<rparr>" and "fd \<equiv> listen_fd_got io"
    and "b1 \<equiv> bus (snd (EventBus_Subscribe ty_Disconnected (Some Cb_OnDisconnected) w))"
  shows "if accept_created io
    then e = Net_SUCCESS \<and> bus w' = b1 \<and> nopen w' = insert fd (nopen w) \<and>
      server w' = (server w)\<lparr>disconnect_sub := h, net_listen_fd := fd, bind_address := address, listen_port := port,
        accept_thread := accept_thread (server w'), net_running := True\<rparr> \<and>
      tm_running (accept_thread (server w')) \<and> worker_thread (accept_thread (server w')) = Some (accept_tid io)
    else e = Net_THREAD_CREATION_FAILED \<and> bus w' = RemoveSubscriberFromState (next_id (bus w)) b1 \<and>
      nopen w' = insert fd (nopen w) - {fd} \<and>
      server w' = (server w)\<lparr>net_listen_fd := -1, bind_address := address, listen_port := port,
        accept_thread := accept_thread (server w')\<rparr> \<and>
      \<not> tm_running (accept_thread (server w')) \<and> worker_thread (accept_thread (server w')) = None"
    "nconns w' = nconns w" "nmade w' = nmade w" "stopping w' = stopping w" "dispatching w' = dispatching w"
  using assms(1-8) unfolding h_def fd_def b1_def
  by (auto simp: NetworkServer_Start_def listens_def Let_def EventBus_Subscribe_def Subscription_assign_def Subscription_Cancel_def
      Subscription_IsValid_def Subscription_null_def open_fd_def close_fd_def ThreadManager_Start_def thread_ok_def split: if_splits)

lemma start_late_server:
  assumes "NetworkServer_Start io address port w = Some (e, w')" "listens io address" "\<not> net_running (server w)"
    "disconnect_sub (server w) = Subscription_null" "total_subscribers (bus w) < kMaxSubscribers" "next_id (bus w) \<noteq> 0"
    "\<not> tm_running (accept_thread (server w))" "thread_ok (accept_thread (server w))"
  shows "connections (server w') = connections (server w)" "net_running (server w') = accept_created io"
    "disconnect_sub (server w') = (if accept_created io then \<lparr>has_state = True, handle_id = next_id (bus w)\<rparr> else Subscription_null)"
    "accept_created io \<Longrightarrow> 0 \<le> net_listen_fd (server w')"
proof -
  note sl = start_late(1) [OF assms]
  have fd: "0 \<le> listen_fd_got io" using assms(2) by (simp add: listens_def)
  have "connections (server w') = connections (server w) \<and> net_running (server w') = accept_created io \<and> disconnect_sub (server w') =
      (if accept_created io then \<lparr>has_state = True, handle_id = next_id (bus w)\<rparr> else Subscription_null) \<and>
      (accept_created io \<longrightarrow> 0 \<le> net_listen_fd (server w'))"
  proof (cases "accept_created io")
    case True
    then have sv: "server w' = (server w)\<lparr>disconnect_sub := \<lparr>has_state = True, handle_id = next_id (bus w)\<rparr>,
      net_listen_fd := listen_fd_got io, bind_address := address, listen_port := port,
      accept_thread := accept_thread (server w'), net_running := True\<rparr>" using sl by simp
    show ?thesis
      using arg_cong [where f = connections, OF sv] arg_cong [where f = net_running, OF sv] arg_cong [where f = disconnect_sub, OF sv]
        arg_cong [where f = net_listen_fd, OF sv] True fd by simp
  next
    case False
    then have sv: "server w' = (server w)\<lparr>net_listen_fd := -1, bind_address := address, listen_port := port,
      accept_thread := accept_thread (server w')\<rparr>" using sl by simp
    show ?thesis
      using arg_cong [where f = connections, OF sv] arg_cong [where f = net_running, OF sv] arg_cong [where f = disconnect_sub, OF sv]
        False assms(3,4) by simp
  qed
  then show "connections (server w') = connections (server w)" "net_running (server w') = accept_created io"
    "disconnect_sub (server w') = (if accept_created io then \<lparr>has_state = True, handle_id = next_id (bus w)\<rparr> else Subscription_null)"
    "accept_created io \<Longrightarrow> 0 \<le> net_listen_fd (server w')"
    by simp_all
qed

lemma srv_inv_start:
  assumes "srv_inv w" "\<not> stopping w" "next_id (bus w) + 1 \<noteq> 0" "NetworkServer_Start io address port w = Some (e, w')"
  shows "srv_inv w'"
proof (cases "listens io address \<and> \<not> net_running (server w)")
  case False
  with start_early [OF assms(4)] assms(1) show ?thesis
    by (auto intro!: srv_inv_frame [OF assms(1)] simp: open_fd_def close_fd_def)
next
  case True
  then have l: "listens io address" "\<not> net_running (server w)" by auto
  have inv: "disconnect_sub (server w) = Subscription_null" "\<not> tm_running (accept_thread (server w))"
    "thread_ok (accept_thread (server w))" "bus_inv (bus w)" "\<not> dispatching w"
    using assms(1,2) l(2) by (auto simp: srv_inv_def)
  have nz: "next_id (bus w) \<noteq> 0" using inv(4) by (simp add: bus_inv_def)
  show ?thesis
  proof (cases "total_subscribers (bus w) < kMaxSubscribers")
    case False
    from start_full [OF assms(4) l inv(1) False] show ?thesis by (intro srv_inv_frame [OF assms(1)]) simp_all
  next
    case room: True
    note st = start_late [OF assms(4) l inv(1) room nz inv(2,3)]
    let ?b1 = "bus (snd (EventBus_Subscribe ty_Disconnected (Some Cb_OnDisconnected) w))"
    have b1: "bus_inv ?b1" by (rule bus_inv_subscribe [OF inv(4) assms(3)])
    note ss = start_late_server [OF assms(4) l inv(1) room nz inv(2,3)]
    show ?thesis
    proof (cases "accept_created io")
      case True
      have b: "bus w' = ?b1" and tm: "tm_running (accept_thread (server w'))" "worker_thread (accept_thread (server w')) = Some (accept_tid io)"
        using st(1) True by simp_all
      have "sub_entry w'"
        using subscribe_entries [OF room, of ty_Disconnected ty_Disconnected Cb_OnDisconnected] True by (simp add: sub_entry_def b ss)
      then show ?thesis
        using assms(1,2) st(2-5) b b1 tm ss(1-3) ss(4) [OF True] True unfolding srv_inv_def thread_ok_def by simp
    next
      case False
      have b: "bus w' = RemoveSubscriberFromState (next_id (bus w)) ?b1"
        and tm: "\<not> tm_running (accept_thread (server w'))" "worker_thread (accept_thread (server w')) = None"
        using st(1) False by simp_all
      then show ?thesis
        using assms(1,2) st(2-5) bus_inv_remove [OF b1] ss(1-3) False unfolding srv_inv_def thread_ok_def by simp
    qed
  qed
qed

section \<open>Stop\<close>

lemma join_manager:
  assumes "ThreadManager_Join tm = Some (e, tm', tid)" "thread_ok tm"
  shows "thread_ok tm'" "\<not> tm_running tm'"
  using assms by (auto simp: ThreadManager_Join_def join_wait_def ThreadManager_CompleteJoin_def thread_ok_def split: if_splits option.splits)

lemma srv_inv_stop_begin:
  assumes "srv_inv w" "stop_begin w = (True, w')"
  shows "srv_inv w'"
  using assms
  by (auto simp: stop_begin_def srv_inv_def sub_entry_def thread_ok_def ThreadManager_Stop_def split: if_splits)

lemma srv_inv_stop_join:
  assumes "srv_inv w" "stopping w" "stop_join w = Some w1"
  shows "srv_inv w1" "stopping w1" "\<not> tm_running (accept_thread (server w1))" "connections (server w1) = connections (server w)"
    "nconns w1 = nconns w" "nmade w1 = nmade w"
proof -
  obtain e tm tid where j: "ThreadManager_Join (accept_thread (server w)) = Some (e, tm, tid)"
    "w1 = w\<lparr>server := (server w)\<lparr>accept_thread := tm\<rparr>\<rparr>"
    using assms(3) by (auto simp: stop_join_def split: option.splits)
  have "thread_ok tm" "\<not> tm_running tm" using join_manager [OF j(1)] assms(1) by (auto simp: srv_inv_def)
  with assms(1,2) show "srv_inv w1" unfolding j(2) by (auto simp: srv_inv_def sub_entry_def)
  show "stopping w1" "\<not> tm_running (accept_thread (server w1))" "connections (server w1) = connections (server w)"
    "nconns w1 = nconns w" "nmade w1 = nmade w"
    using assms(2) \<open>\<not> tm_running tm\<close> by (simp_all add: j(2))
qed

text \<open>What \<open>Stop\<close> leaves alone until the accept thread has ended.\<close>

definition stop_frame :: "NetWorld \<Rightarrow> NetWorld \<Rightarrow> bool" where
  "stop_frame w w' \<longleftrightarrow> nconns w' = nconns w \<and> nmade w' = nmade w \<and> nopen w' = nopen w \<and> bus w' = bus w \<and>
     net_listen_fd (server w') = net_listen_fd (server w) \<and> disconnect_sub (server w') = disconnect_sub (server w) \<and>
     connections (server w') = connections (server w)"

text \<open>Closing a list of connections.\<close>

lemma close_all:
  assumes "srv_inv w"
  shows "srv_inv (fold (NetworkConnection_Close user) ks w) \<and>
    (\<forall>k \<in> set ks. \<not> connected (nconns (fold (NetworkConnection_Close user) ks w) k)) \<and>
    (\<forall>k. connected (nconns (fold (NetworkConnection_Close user) ks w) k) \<longrightarrow> connected (nconns w k)) \<and>
    (\<forall>k. is_server_side (nconns (fold (NetworkConnection_Close user) ks w) k) = is_server_side (nconns w k)) \<and>
    nmade (fold (NetworkConnection_Close user) ks w) = nmade w \<and> stopping (fold (NetworkConnection_Close user) ks w) = stopping w \<and>
    closes_fds w (fold (NetworkConnection_Close user) ks w) \<and>
    (\<exists>P. server (fold (NetworkConnection_Close user) ks w) = (server w)\<lparr>connections := filter P (connections (server w))\<rparr> \<and>
       (\<forall>j. \<not> P j \<longrightarrow> j \<in> set ks))"
  using assms
proof (induction ks arbitrary: w)
  case Nil
  have "(\<exists>P. server w = (server w)\<lparr>connections := filter P (connections (server w))\<rparr> \<and> (\<forall>j. P j))"
    by (intro exI [of _ "\<lambda>_. True"]) simp
  with Nil show ?case by (simp add: closes_fds_def)
next
  case (Cons k ks)
  let ?w1 = "NetworkConnection_Close user k w"
  let ?w' = "fold (NetworkConnection_Close user) ks ?w1"
  have nd: "\<not> dispatching w" using Cons.prems by (simp add: srv_inv_def)
  have e: "net_effect (Some k) w ?w1" "\<not> connected (nconns ?w1 k)"
    using teardown_effect [OF nd, where user = user and r = Net_SHUTDOWN and ref = True and k = k] by (simp_all add: NetworkConnection_Close_def)
  have inv: "srv_inv ?w1" using srv_inv_teardown [OF Cons.prems] by (simp add: NetworkConnection_Close_def)
  note IH = Cons.IH [OF inv]
  obtain P where P: "server ?w1 = (server w)\<lparr>connections := filter P (connections (server w))\<rparr>" "\<forall>j. \<not> P j \<longrightarrow> k = j"
    using e(1) by (auto simp: net_effect_def)
  obtain Q where Q: "server ?w' = (server ?w1)\<lparr>connections := filter Q (connections (server ?w1))\<rparr>" "\<forall>j. \<not> Q j \<longrightarrow> j \<in> set ks"
    using IH by blast
  have "server ?w' = (server w)\<lparr>connections := filter (\<lambda>j. Q j \<and> P j) (connections (server w))\<rparr>"
    using P(1) Q(1) by (simp add: filter_filter conj_commute)
  moreover have "\<forall>j. \<not> (Q j \<and> P j) \<longrightarrow> j \<in> set (k # ks)" using P(2) Q(2) by auto
  ultimately have ex: "\<exists>P. server ?w' = (server w)\<lparr>connections := filter P (connections (server w))\<rparr> \<and> (\<forall>j. \<not> P j \<longrightarrow> j \<in> set (k # ks))"
    by (intro exI [of _ "\<lambda>j. Q j \<and> P j"]) blast
  have "nmade ?w1 = nmade w" "stopping ?w1 = stopping w" "\<forall>j. is_server_side (nconns ?w1 j) = is_server_side (nconns w j)"
    "\<forall>j. connected (nconns ?w1 j) \<longrightarrow> connected (nconns w j)" using e(1) by (auto simp: net_effect_def)
  moreover have "closes_fds w ?w'" using closes_fds_trans [of w ?w1 ?w'] e(1) IH by (simp add: net_effect_def)
  ultimately show ?case using IH e(2) ex unfolding fold.simps comp_apply by auto
qed

lemma stop_finish_spec:
  assumes "srv_inv w" "stopping w" "\<not> tm_running (accept_thread (server w))"
  shows "srv_inv (stop_finish user w)" "\<not> stopping (stop_finish user w)" "net_listen_fd (server (stop_finish user w)) < 0"
    "disconnect_sub (server (stop_finish user w)) = Subscription_null" "\<not> net_running (server (stop_finish user w))"
    "k < nmade w \<Longrightarrow> is_server_side (nconns w k) \<Longrightarrow> \<not> connected (nconns (stop_finish user w) k)"
    "closes_fds w (stop_finish user w)" "net_listen_fd (server w) \<notin> nopen (stop_finish user w)"
    "handle_id (disconnect_sub (server w)) \<notin> sub_id ` set (entries_of ty (bus (stop_finish user w)))"
proof -
  let ?w1 = "fold (NetworkConnection_Close user) (connections (server w)) w" and ?f = "stop_finish user w"
  note ca = close_all [OF assms(1), of user "connections (server w)"]
  obtain P where P: "server ?w1 = (server w)\<lparr>connections := filter P (connections (server w))\<rparr>" using ca by blast
  have f: "nconns ?f = nconns ?w1" "nmade ?f = nmade ?w1" "dispatching ?f = dispatching ?w1" "\<not> stopping ?f"
    "connections (server ?f) = connections (server ?w1)" "accept_thread (server ?f) = accept_thread (server ?w1)"
    "net_running (server ?f) = net_running (server ?w1)" "disconnect_sub (server ?f) = Subscription_null"
    "net_listen_fd (server ?f) < 0"
    "bus ?f = snd (Subscription_Cancel True (disconnect_sub (server ?w1)) (bus ?w1))"
    by (simp_all add: stop_finish_def Let_def Subscription_Cancel_def close_fd_def split: prod.splits)
  have inv1: "srv_inv ?w1" "stopping ?w1" using ca assms(2) by auto
  have keep: "net_listen_fd (server ?w1) = net_listen_fd (server w)" "disconnect_sub (server ?w1) = disconnect_sub (server w)"
    by (simp_all add: P)
  have "0 \<le> net_listen_fd (server ?w1)" using inv1 by (simp add: srv_inv_def)
  then have o: "nopen ?f = nopen ?w1 - {net_listen_fd (server w)}"
    by (simp add: keep [symmetric] stop_finish_def Let_def close_fd_def split: prod.splits)
  then show "net_listen_fd (server w) \<notin> nopen ?f" by simp
  have "closes_fds w ?w1" using ca by blast
  then show "closes_fds w ?f" unfolding closes_fds_def by (simp add: o f(1)) blast
  have "has_state (disconnect_sub (server w))" using assms(1,2) by (simp add: srv_inv_def sub_entry_def)
  then have "bus ?f = RemoveSubscriberFromState (handle_id (disconnect_sub (server w))) (bus ?w1)"
    by (simp add: f(10) keep Subscription_Cancel_def)
  moreover have "bus_inv (bus ?w1)" using inv1 by (simp add: srv_inv_def)
  ultimately show "handle_id (disconnect_sub (server w)) \<notin> sub_id ` set (entries_of ty (bus ?f))"
    by (auto simp: entries_of_remove without_def)
  have tm: "\<not> tm_running (accept_thread (server ?f))" using assms(3) by (simp add: f(6) P)
  have nr: "\<not> net_running (server ?f)" using inv1 by (simp add: f(7) srv_inv_def)
  have "bus_inv (bus ?f)" using inv1(1) bus_inv_remove by (auto simp: f(10) srv_inv_def Subscription_Cancel_def)
  then show "srv_inv ?f" using inv1(1) f tm nr unfolding srv_inv_def by simp
  show "\<not> stopping ?f" "net_listen_fd (server ?f) < 0" "disconnect_sub (server ?f) = Subscription_null" "\<not> net_running (server ?f)"
    using f nr by simp_all
  show "\<not> connected (nconns ?f k)" if "k < nmade w" "is_server_side (nconns w k)"
  proof
    assume c: "connected (nconns ?f k)"
    then have "connected (nconns w k)" using ca f(1) by simp
    with that assms(1) have "k \<in> set (connections (server w))" by (simp add: srv_inv_def)
    with ca c f(1) show False by simp
  qed
qed

lemma srv_inv_step: "srv_step user w w' \<Longrightarrow> srv_inv w \<Longrightarrow> srv_inv w'"
proof (induction rule: srv_step.induct)
  case (srv_start w io address port e w')
  then show ?case using srv_inv_start by blast
next
  case (srv_stop_begin w w')
  then show ?case using srv_inv_stop_begin by blast
next
  case (srv_stop_finish w w1)
  note j = srv_inv_stop_join [OF srv_stop_finish(3,1,2)]
  show ?case by (rule stop_finish_spec(1) [OF j(1-3)])
next
  case (srv_accept w a go w')
  then show ?case using srv_inv_accept by blast
next
  case (srv_accept_ends w)
  then show ?case by (auto simp: srv_inv_def sub_entry_def worker_epilogue_def thread_ok_def)
next
  case (srv_user op w)
  then have "\<not> dispatching (exec_op op w)"
    by (cases op) (auto simp: srv_inv_def EventBus_Subscribe_def Let_def)
  then show ?case using srv_inv_effect [OF srv_user(2) effect_exec_op] by simp
next
  case (srv_connect io host port w e out w')
  then show ?case using srv_inv_connect by blast
qed (blast intro: srv_inv_teardown)+

interpretation srv_sys: inductive_invariant srv_init "srv_step user" srv_inv for user
proof
  show "srv_inv w" if "srv_init w" for w
    using that by (simp add: srv_init_def srv_inv_def NetworkServer_new_def ThreadManager_new_def thread_ok_def)
qed (rule srv_inv_step)

text \<open>The whole operations are runs of these steps.\<close>

lemma accept_loop_reaches:
  assumes "reaches srv_init (srv_step user) w" "tm_running (accept_thread (server w))"
  shows "reaches srv_init (srv_step user) (snd (NetworkServer_AcceptLoop user as w))"
  using assms
proof (induction "as" arbitrary: w)
  case (Cons a "as")
  obtain go w1 where a: "accept_pass user a w = (go, w1)" by fastforce
  have r: "reaches srv_init (srv_step user) w1"
    by (rule reaches_step [OF Cons.prems(1) srv_accept [OF Cons.prems(2) a]])
  have "tm_running (accept_thread (server w1))" using accept_keeps_thread [OF _ a] srv_sys.reaches_inv [OF Cons.prems(1)] Cons.prems(2)
    by (simp add: srv_inv_def)
  with Cons.IH [OF r] r Cons.prems(1) a show ?case by (auto split: bool.splits)
qed simp

lemma stop_steps:
  assumes "NetworkServer_Stop user w = Some w'"
  shows "(srv_step user)\<^sup>*\<^sup>* w w'"
proof (cases "fst (stop_begin w)")
  case True
  then obtain w1 where b: "stop_begin w = (True, w1)" by (cases "stop_begin w") auto
  then obtain w2 where j: "stop_join w1 = Some w2" "w' = stop_finish user w2" using assms by (auto simp: NetworkServer_Stop_def)
  have "stopping w1" using b by (auto simp: stop_begin_def split: if_splits)
  from srv_stop_begin [OF b] srv_stop_finish [OF this j(1)] j(2) show ?thesis by (metis rtranclp.simps)
next
  case False
  then have "w' = w" using assms by (auto simp: NetworkServer_Stop_def stop_begin_def split: if_splits)
  then show ?thesis by simp
qed

lemma stop_reaches:
  assumes "reaches srv_init (srv_step user) w" "NetworkServer_Stop user w = Some w'"
  shows "reaches srv_init (srv_step user) w'"
  using stop_steps [OF assms(2)] assms(1) by (induction rule: rtranclp_induct) (auto intro: reaches_step)

text \<open>The destructor waits for the accept thread at most; it never terminates the process.\<close>

lemma destroy_waits_only:
  assumes "reaches srv_init (srv_step user) w" "\<not> stopping w" "NetworkServer_Stop user w = Some w'"
  shows "\<exists>w''. NetworkServer_destroy user w = Some w''"
proof -
  have inv: "srv_inv w'" by (rule srv_sys.reaches_inv [OF stop_reaches [OF assms(1,3)]])
  have "\<not> net_running (server w') \<and> \<not> stopping w'"
  proof (cases "net_running (server w)")
    case True
    then obtain w1 w2 where b: "stop_begin w = (True, w1)" and j: "stop_join w1 = Some w2" "w' = stop_finish user w2"
      using assms(3) by (auto simp: NetworkServer_Stop_def stop_begin_def)
    have "srv_inv w1" "stopping w1"
      using srv_inv_stop_begin [OF srv_sys.reaches_inv [OF assms(1)] b] b by (auto simp: stop_begin_def split: if_splits)
    note sj = srv_inv_stop_join [OF this j(1)]
    from stop_finish_spec(2,5) [OF sj(1-3)] j(2) show ?thesis by simp
  next
    case False
    then have "w' = w" using assms(3) by (simp add: NetworkServer_Stop_def stop_begin_def)
    with False assms(2) show ?thesis by simp
  qed
  then have "worker_thread (accept_thread (server w')) = None" using inv by (auto simp: srv_inv_def thread_ok_def)
  then show ?thesis
    using assms(3) by (simp add: NetworkServer_destroy_def ThreadManager_destroy_def)
qed

section \<open>Dead connections on the list\<close>

text \<open>A connection that was disconnected without its event: nothing takes it off the list any more, since
  only its own \<open>NetworkDisconnected\<close> would and it will never publish one.\<close>

definition dead_listed :: "nat \<Rightarrow> NetWorld \<Rightarrow> bool" where
  "dead_listed k w \<longleftrightarrow> k \<in> set (connections (server w)) \<and> \<not> connected (nconns w k)"

lemma dead_effect: "net_effect j w w' \<Longrightarrow> j \<noteq> Some k \<Longrightarrow> dead_listed k w \<Longrightarrow> dead_listed k w'"
  by (auto simp: net_effect_def dead_listed_def)

lemma teardown_dead: "\<not> connected (nconns w k) \<Longrightarrow> NetworkConnection_Teardown user r ref k w = w"
  by (simp add: NetworkConnection_Teardown_def Let_def)

lemma dead_teardown:
  assumes "\<not> dispatching w" "dead_listed k w"
  shows "dead_listed k (NetworkConnection_Teardown user r ref j w)"
proof (cases "j = k")
  case True
  with assms(2) teardown_dead show ?thesis by (simp add: dead_listed_def)
qed (use assms dead_effect [OF teardown_effect(1)] in auto)

lemma dead_close_all: "srv_inv w \<Longrightarrow> dead_listed k w \<Longrightarrow> dead_listed k (fold (NetworkConnection_Close user) ks w)"
proof (induction ks arbitrary: w)
  case (Cons j ks)
  then have "srv_inv (NetworkConnection_Close user j w)" "dead_listed k (NetworkConnection_Close user j w)"
    using srv_inv_teardown dead_teardown by (auto simp: NetworkConnection_Close_def srv_inv_def)
  with Cons.IH show ?case by simp
qed simp

lemma dead_stop_finish:
  assumes "srv_inv w" "dead_listed k w"
  shows "dead_listed k (stop_finish user w)"
  using dead_close_all [OF assms, of user "connections (server w)"]
  by (simp add: dead_listed_def stop_finish_def Let_def close_fd_def split: prod.splits)

lemma dead_start:
  assumes "srv_inv w" "\<not> stopping w" "NetworkServer_Start io address port w = Some (e, w')" "dead_listed k w"
  shows "dead_listed k w'"
proof (cases "listens io address \<and> \<not> net_running (server w)")
  case False
  with start_early [OF assms(3)] assms(4) show ?thesis by (auto simp: dead_listed_def open_fd_def close_fd_def)
next
  case True
  then have l: "listens io address" "\<not> net_running (server w)" by auto
  have inv: "disconnect_sub (server w) = Subscription_null" "\<not> tm_running (accept_thread (server w))"
    "thread_ok (accept_thread (server w))" "next_id (bus w) \<noteq> 0"
    using assms(1,2) l(2) by (auto simp: srv_inv_def bus_inv_def)
  show ?thesis
  proof (cases "total_subscribers (bus w) < kMaxSubscribers")
    case False
    from start_full [OF assms(3) l inv(1) False] assms(4) show ?thesis by (simp add: dead_listed_def)
  next
    case room: True
    from start_late(2) [OF assms(3) l inv(1) room inv(4,2,3)] start_late_server(1) [OF assms(3) l inv(1) room inv(4,2,3)] assms(4)
    show ?thesis by (simp add: dead_listed_def)
  qed
qed

text \<open>An accepted connection gets a number of its own.\<close>

lemma dead_new_conn: "k \<noteq> nmade w \<Longrightarrow> dead_listed k w \<Longrightarrow> dead_listed k (new_conn fd c w)"
  by (simp add: dead_listed_def new_conn_def open_fd_def)

lemma dead_accept:
  assumes "srv_inv w" "accept_pass user a w = (go, w')" "dead_listed k w"
  shows "dead_listed k w'"
proof -
  have new: "k \<noteq> nmade w" "\<not> dispatching w" using assms(1,3) by (auto simp: srv_inv_def dead_listed_def)
  from assms(2) show ?thesis
  proof (cases rule: accept_pass_cases)
    case (3 c)
    show ?thesis
      unfolding 3 by (rule dead_teardown [OF _ dead_new_conn [OF new(1) assms(3)]]) (simp add: new new_conn_def open_fd_def)
  next
    case (4 c name)
    let ?w3 = "(new_conn (acc_fd a) c w)\<lparr>server := (server w)\<lparr>connections := connections (server w) @ [nmade w]\<rparr>\<rparr>"
    have d: "dead_listed k ?w3" using new assms(3) by (simp add: dead_listed_def new_conn_def open_fd_def)
    have "\<not> dispatching ?w3" using new by (simp add: new_conn_def open_fd_def)
    then have "net_effect None ?w3 w'"
      unfolding 4(2) by (rule effect_publish [of _ "Ev_Connected name (acc_port a) (nmade w)", unfolded event_conn.simps])
    from dead_effect [OF this _ d] show ?thesis by blast
  qed (use assms(3) in \<open>simp_all add: dead_listed_def open_fd_def close_fd_def\<close>)
qed

lemma dead_connect:
  assumes "srv_inv w" "NetworkClient_Connect user io host port w = (e, out, w')" "dead_listed k w"
  shows "dead_listed k w'"
proof -
  have new: "k \<noteq> nmade w" "\<not> dispatching w" using assms(1,3) by (auto simp: srv_inv_def dead_listed_def)
  from assms(2) show ?thesis
  proof (cases rule: connect_cases)
    case (4 c)
    show ?thesis
      unfolding 4 by (rule dead_teardown [OF _ dead_new_conn [OF new(1) assms(3)]]) (simp add: new new_conn_def open_fd_def)
  qed (use assms(3) dead_new_conn [OF new(1)] in \<open>simp_all add: dead_listed_def open_fd_def close_fd_def\<close>)
qed

lemma dead_step: "srv_step user w w' \<Longrightarrow> srv_inv w \<Longrightarrow> dead_listed k w \<Longrightarrow> dead_listed k w'"
proof (induction rule: srv_step.induct)
  case (srv_start w io address port e w')
  then show ?case using dead_start by blast
next
  case (srv_stop_begin w w')
  then show ?case by (auto simp: stop_begin_def dead_listed_def split: if_splits)
next
  case (srv_stop_finish w w1)
  note j = srv_inv_stop_join [OF srv_stop_finish(3,1,2)]
  with srv_stop_finish show ?case by (intro dead_stop_finish) (simp_all add: dead_listed_def)
next
  case (srv_accept w a go w')
  then show ?case using dead_accept by blast
next
  case (srv_accept_ends w)
  then show ?case by (simp add: dead_listed_def)
next
  case (srv_user op w)
  then show ?case using dead_effect [OF effect_exec_op] by blast
next
  case (srv_connect io host port w e out w')
  then show ?case using dead_connect by blast
qed (simp_all add: dead_teardown srv_inv_def)

interpretation dead: inductive_invariant "\<lambda>w. srv_inv w \<and> dead_listed k w" "srv_step user" "\<lambda>w. srv_inv w \<and> dead_listed k w"
  for k user
  by unfold_locales (blast intro: srv_inv_step dead_step)+

text \<open>A handler that closes a connection leaves it disconnected, whatever the other handlers do.\<close>

lemma exec_ops_closes: "H_Close k \<in> set ops \<Longrightarrow> \<not> connected (nconns (fold exec_op ops w) k)"
proof (induction ops arbitrary: w)
  case (Cons op ops)
  show ?case
  proof (cases "op = H_Close k")
    case True
    then have "\<not> connected (nconns (exec_op op w) k)" by (simp add: connected_teardown_object)
    then show ?thesis using effect_exec_ops [of "exec_op op w" ops] by (auto simp: net_effect_def)
  qed (use Cons in auto)
qed simp

lemma dispatch_closes:
  assumes "Cb_user n \<in> set cbs" "\<forall>v. H_Close k \<in> set (fst (user n ev v))"
  shows "\<not> connected (nconns (dispatch (net_call user) ev cbs w) k)"
  using assms(1)
proof (induction cbs arbitrary: w)
  case (Cons cb cbs)
  obtain w1 out where c: "net_call user cb ev (w\<lparr>calls := calls w @ [cb]\<rparr>) = (w1, out)" by fastforce
  show ?case
  proof (cases "cb = Cb_user n")
    case True
    then have "\<not> connected (nconns w1 k)"
      using c exec_ops_closes [of k "fst (user n ev (w\<lparr>calls := calls w @ [cb]\<rparr>))"] assms(2) True by (auto split: prod.splits)
    then have "\<not> connected (nconns (note_outcome out w1) k)" using effect_note [of None w1 out] by (auto simp: net_effect_def)
    then show ?thesis using c effect_dispatch [of ev "note_outcome out w1" user cbs] by (auto simp: net_effect_def)
  next
    case False
    with Cons c show ?thesis by simp
  qed
qed simp

lemma accept_closes:
  assumes "srv_inv w" "acc_poll a = NPoll_ready" "0 \<le> acc_fd a" "acc_nonblock_ok a" "acc_thread_ok a"
    and "Cb_user n \<in> set (map subscriber (entries_of ty_Connected (bus w)))"
    and "\<forall>name v. H_Close (nmade w) \<in> set (fst (user n (Ev_Connected name (acc_port a) (nmade w)) v))"
  shows "\<exists>w'. accept_pass user a w = (True, w') \<and> dead_listed (nmade w) w' \<and>
    calls w' = calls w @ map subscriber (entries_of ty_Connected (bus w))"
proof -
  let ?addr = "case acc_name a of Some n \<Rightarrow> n | None \<Rightarrow> ''unknown''"
  let ?ev = "Ev_Connected ?addr (acc_port a) (nmade w)"
  obtain c where st: "NetworkConnection_Start True (NetworkConnection_new (acc_fd a) ?addr (acc_port a) True) = (Net_SUCCESS, c)"
    by (simp add: NetworkConnection_Start_def NetworkConnection_new_def Let_def)
  define w3 where "w3 = (open_fd (acc_fd a) w)\<lparr>nconns := (nconns w)(nmade w := c), nmade := Suc (nmade w),
    server := (server w)\<lparr>connections := connections (server w) @ [nmade w]\<rparr>\<rparr>"
  define w' where "w' = snd (EventBus_Publish (net_call user) ty_Connected ?ev w3)"
  have f: "bus w3 = bus w" "calls w3 = calls w" "\<not> dispatching w3" "bus_inv (bus w3)" "nmade w \<in> set (connections (server w3))"
    using assms(1) by (simp_all add: w3_def open_fd_def srv_inv_def)
  have "accept_pass user a w = (True, w')"
    using assms(2-5) st by (simp add: accept_pass_def Let_def w'_def w3_def open_fd_def)
  moreover have "calls w' = calls w @ map subscriber (entries_of ty_Connected (bus w))"
    using net_bus.publish_delivers [OF f(3,4), of user ty_Connected ?ev "fst (EventBus_Publish (net_call user) ty_Connected ?ev w3)" w']
    by (simp add: w'_def f)
  moreover have "nmade w \<in> set (connections (server w'))"
    using effect_publish [OF f(3), of ?ev user ty_Connected] f(5) by (auto simp: w'_def net_effect_def)
  moreover have "\<not> connected (nconns w' (nmade w))"
  proof -
    obtain es where es: "map_of (subscribers (bus w3)) ty_Connected = Some es" "Cb_user n \<in> set (map subscriber es)"
      using assms(6) by (force simp: f entries_of_def split: option.splits)
    have "\<forall>v. H_Close (nmade w) \<in> set (fst (user n ?ev v))" using assms(7) by blast
    from dispatch_closes [where user = user, OF es(2) this, where w = "w3\<lparr>dispatching := True\<rparr>"] es(1) f(3) show ?thesis
      by (simp add: w'_def EventBus_Publish_def Let_def)
  qed
  ultimately show ?thesis by (auto simp: dead_listed_def)
qed

section \<open>Concrete runs\<close>

definition no_users :: Users where
  "no_users n ev w = ([], Returned)"

text \<open>A subscriber that closes every new connection from its handler.\<close>

definition closing_user :: Users where
  "closing_user n ev w = (case ev of Ev_Connected a p k \<Rightarrow> ([H_Close k], Returned) | _ \<Rightarrow> ([], Returned))"

definition demo_listen :: ListenIO where
  "demo_listen = \<lparr>listen_fd_got = 4, reuseaddr_ok = True, pton_ok = True, tcp_bind_ok = True, tcp_listen_ok = True,
     tcp_nonblock_ok = True, accept_created = True, accept_tid = 9\<rparr>"

definition demo_accept :: AcceptAnswer where
  "demo_accept = \<lparr>acc_poll = NPoll_ready, acc_fd = 5, acc_nonblock_ok = True, acc_name = Some ''10.0.0.2'', acc_port = 4000,
     acc_thread_ok = True\<rparr>"

definition demo_world :: NetWorld where
  "demo_world = \<lparr>bus = BusState_new, dispatching = False, bus_stderr = [], calls = [],
     nconns = (\<lambda>_. NetworkConnection_new (-1) [] 0 False), nmade = 0, nopen = {0, 1, 2}, server = NetworkServer_new,
     stopping = False\<rparr>"

definition demo_subscribed :: NetWorld where
  "demo_subscribed = exec_op (H_Subscribe ty_Connected 0) demo_world"

definition demo_listening :: NetWorld where
  "demo_listening = snd (the (NetworkServer_Start demo_listen ''0.0.0.0'' 554 demo_subscribed))"

definition demo_accepted :: "Users \<Rightarrow> NetWorld" where
  "demo_accepted user = snd (accept_pass user demo_accept demo_listening)"

lemma demo_subscribed_eq:
  "demo_subscribed = demo_world\<lparr>bus := \<lparr>subscribers = [(0, [\<lparr>sub_id = 1, subscriber = Cb_user 0\<rparr>])], next_id = 2, total_subscribers = 1\<rparr>\<rparr>"
  by (simp add: demo_subscribed_def demo_world_def BusState_new_def EventBus_Subscribe_def kMaxSubscribers_def ty_Connected_def)

lemma demo_start_eq:
  "NetworkServer_Start demo_listen ''0.0.0.0'' 554 demo_subscribed = Some (Net_SUCCESS, demo_listening) \<and>
   demo_listening = demo_world\<lparr>bus := \<lparr>subscribers = [(0, [\<lparr>sub_id = 1, subscriber = Cb_user 0\<rparr>]), (1, [\<lparr>sub_id = 2, subscriber = Cb_OnDisconnected\<rparr>])],
       next_id = 3, total_subscribers = 2\<rparr>, nopen := {4, 0, 1, 2},
     server := NetworkServer_new\<lparr>disconnect_sub := \<lparr>has_state = True, handle_id = 2\<rparr>, net_listen_fd := 4, bind_address := ''0.0.0.0'',
       listen_port := 554, net_running := True,
       accept_thread := \<lparr>worker_thread = Some 9, stop_token = StopToken_new, tm_running = True, worker_finished = False, thread_name = ''net-accept''\<rparr>\<rparr>\<rparr>"
  by (simp add: demo_listening_def demo_subscribed_eq NetworkServer_Start_def demo_listen_def demo_world_def NetworkServer_new_def Let_def
      open_fd_def EventBus_Subscribe_def kMaxSubscribers_def ty_Disconnected_def Subscription_assign_def Subscription_Cancel_def
      Subscription_null_def Subscription_IsValid_def ThreadManager_Start_def ThreadManager_new_def StopToken_Reset_def StopToken_new_def
      NormalizeName_def MAX_THREAD_NAME_LENGTH_def)

lemma demo_subscribed_reaches: "reaches srv_init (srv_step user) demo_subscribed"
proof -
  have "reaches srv_init (srv_step user) demo_world"
    by (rule reaches_init) (simp add: srv_init_def demo_world_def)
  then show ?thesis unfolding demo_subscribed_def by (rule reaches_step) (rule srv_user, simp)
qed

lemma demo_reaches:
  "reaches srv_init (srv_step user) demo_listening" "reaches srv_init (srv_step user) (demo_accepted user)"
proof -
  from demo_subscribed_reaches show r: "reaches srv_init (srv_step user) demo_listening"
    by (rule reaches_step) (rule srv_start [where io = demo_listen and address = "''0.0.0.0''" and port = 554 and e = Net_SUCCESS],
        simp_all add: demo_start_eq, simp_all add: demo_subscribed_eq demo_world_def)
  have "srv_step user demo_listening (demo_accepted user)"
    by (rule srv_accept [where a = demo_accept and go = "fst (accept_pass user demo_accept demo_listening)"])
      (simp_all add: demo_start_eq demo_accepted_def NetworkServer_new_def)
  with r show "reaches srv_init (srv_step user) (demo_accepted user)" by (rule reaches_step)
qed

lemma demo_accept_eq:
  "NetworkConnection_Start True (NetworkConnection_new 5 ''10.0.0.2'' 4000 True) =
     (Net_SUCCESS, (NetworkConnection_new 5 ''10.0.0.2'' 4000 True)\<lparr>sender_joinable := True\<rparr>)"
  by (simp add: NetworkConnection_Start_def NetworkConnection_new_def Let_def)

lemma demo_accepted_eq:
  assumes "\<And>w. user 0 (Ev_Connected ''10.0.0.2'' 4000 0) w = (ops, Returned)"
  shows "demo_accepted user = (fold exec_op ops (demo_listening\<lparr>dispatching := True, calls := [Cb_user 0], nopen := {5, 4, 0, 1, 2},
    nconns := (nconns demo_world)(0 := (NetworkConnection_new 5 ''10.0.0.2'' 4000 True)\<lparr>sender_joinable := True\<rparr>), nmade := 1,
    server := (server demo_listening)\<lparr>connections := [0]\<rparr>\<rparr>))\<lparr>dispatching := False\<rparr>"
  using assms
  by (simp add: demo_accepted_def accept_pass_def demo_accept_def Let_def demo_accept_eq EventBus_Publish_def ty_Connected_def
      demo_start_eq demo_world_def NetworkServer_new_def open_fd_def)

lemma demo_accepted_quiet:
  "demo_accepted no_users = (demo_listening\<lparr>dispatching := False, calls := [Cb_user 0], nopen := {5, 4, 0, 1, 2},
    nconns := (nconns demo_world)(0 := (NetworkConnection_new 5 ''10.0.0.2'' 4000 True)\<lparr>sender_joinable := True\<rparr>), nmade := 1,
    server := (server demo_listening)\<lparr>connections := [0]\<rparr>\<rparr>)"
  by (simp add: demo_accepted_eq [where ops = "[]"] no_users_def)

section \<open>Properties\<close>

text \<open>C5: The server never loses track of a live connection: after any sequence of starts, stops,
  accepted peers, teardowns, client connections and subscriptions, with handlers that subscribe,
  cancel, send and close as they like, every accepted connection that is still connected is on the
  server's list, the list names each connection once and only accepted ones, so \<open>ConnectionCount\<close>
  is an upper bound on the live ones, and a running server is subscribed to the disconnect events.\<close>

theorem net_server_tracks_live:
  assumes "reaches srv_init (srv_step user) w"
  shows "(\<forall>k < nmade w. NetworkConnection_IsConnected (nconns w k) \<and> is_server_side (nconns w k) \<longrightarrow>
      k \<in> set (connections (server w))) \<and>
    distinct (connections (server w)) \<and>
    (\<forall>k \<in> set (connections (server w)). k < nmade w \<and> is_server_side (nconns w k)) \<and>
    card {k. k < nmade w \<and> connected (nconns w k) \<and> is_server_side (nconns w k)} \<le> NetworkServer_ConnectionCount w \<and>
    (NetworkServer_IsRunning w \<longrightarrow> Cb_OnDisconnected \<in> set (map subscriber (entries_of ty_Disconnected (bus w))))"
proof -
  have inv: "srv_inv w" by (rule srv_sys.reaches_inv [OF assms])
  have "{k. k < nmade w \<and> connected (nconns w k) \<and> is_server_side (nconns w k)} \<subseteq> set (connections (server w))"
    using inv by (auto simp: srv_inv_def)
  then have "card {k. k < nmade w \<and> connected (nconns w k) \<and> is_server_side (nconns w k)} \<le> card (set (connections (server w)))"
    by (rule card_mono [OF finite_set])
  also have "\<dots> = NetworkServer_ConnectionCount w"
    using inv by (simp add: srv_inv_def distinct_card NetworkServer_ConnectionCount_def)
  finally have "card {k. k < nmade w \<and> connected (nconns w k) \<and> is_server_side (nconns w k)} \<le> NetworkServer_ConnectionCount w" .
  moreover have "Cb_OnDisconnected \<in> set (map subscriber (entries_of ty_Disconnected (bus w)))" if "NetworkServer_IsRunning w"
    using inv that by (force simp: srv_inv_def sub_entry_def NetworkServer_IsRunning_def)
  moreover have "\<forall>k < nmade w. connected (nconns w k) \<and> is_server_side (nconns w k) \<longrightarrow> k \<in> set (connections (server w))"
    "distinct (connections (server w))" "\<forall>k \<in> set (connections (server w)). k < nmade w \<and> is_server_side (nconns w k)"
    using inv by (simp_all add: srv_inv_def)
  ultimately show ?thesis unfolding NetworkConnection_IsConnected_def by blast
qed

theorem net_server_tracks_live_witness:
  "connected (nconns (demo_accepted no_users) 0) \<and> 0 \<in> set (connections (server (demo_accepted no_users)))"
proof -
  have "nmade (demo_accepted no_users) = 1" "connected (nconns (demo_accepted no_users) 0)"
    "is_server_side (nconns (demo_accepted no_users) 0)"
    by (simp_all add: demo_accepted_eq [where ops = "[]"] no_users_def NetworkConnection_new_def)
  with net_server_tracks_live [OF demo_reaches(2) [of no_users]] show ?thesis
    by (simp add: NetworkConnection_IsConnected_def)
qed

text \<open>C20: \<open>Stop\<close> of a running server, once the accept thread has ended, disconnects every accepted
  connection and closes the descriptor each of them held, closes the listener, opens nothing, and
  takes the server's entry, which was on the bus, off it; the server is then stopped without a listener or a
  subscription, and a second \<open>Stop\<close> changes nothing.\<close>

theorem net_server_stop_closes_all:
  assumes "reaches srv_init (srv_step user) w" "NetworkServer_IsRunning w" "NetworkServer_Stop user w = Some w'"
  shows "(\<forall>k < nmade w. is_server_side (nconns w k) \<longrightarrow> \<not> NetworkConnection_IsConnected (nconns w' k) \<and>
      (NetworkConnection_IsConnected (nconns w k) \<and> 0 \<le> nc_fd (nconns w k) \<longrightarrow> nc_fd (nconns w k) \<notin> nopen w')) \<and>
    0 \<le> net_listen_fd (server w) \<and> net_listen_fd (server w) \<notin> nopen w' \<and> nopen w' \<subseteq> nopen w \<and>
    handle_id (disconnect_sub (server w)) \<in> sub_id ` set (entries_of ty_Disconnected (bus w)) \<and>
    (\<forall>ty. handle_id (disconnect_sub (server w)) \<notin> sub_id ` set (entries_of ty (bus w'))) \<and>
    \<not> NetworkServer_IsRunning w' \<and> net_listen_fd (server w') < 0 \<and> disconnect_sub (server w') = Subscription_null \<and>
    NetworkServer_Stop user w' = Some w'"
proof -
  have inv: "srv_inv w" by (rule srv_sys.reaches_inv [OF assms(1)])
  obtain w1 where b: "stop_begin w = (True, w1)" "stopping w1" and same: "stop_frame w w1"
    using assms(2) by (auto simp: stop_begin_def NetworkServer_IsRunning_def stop_frame_def)
  obtain w2 where j: "stop_join w1 = Some w2" "w' = stop_finish user w2"
    using assms(3) b(1) by (auto simp: NetworkServer_Stop_def)
  have same2: "stop_frame w1 w2" using j(1) by (auto simp: stop_join_def stop_frame_def split: option.splits)
  note j2 = srv_inv_stop_join [OF srv_inv_stop_begin [OF inv b(1)] b(2) j(1)]
  note f = stop_finish_spec [OF j2(1-3), where user = user, folded j(2)]
  have "nconns w2 = nconns w" "nopen w2 = nopen w" using same same2 by (simp_all add: stop_frame_def)
  with f(7) have closes: "closes_fds w w'" unfolding closes_fds_def by metis
  have "\<not> net_running (server w')" using f(5) by simp
  then have "NetworkServer_Stop user w' = Some w'" by (simp add: NetworkServer_Stop_def stop_begin_def)
  moreover have "0 \<le> net_listen_fd (server w)" "sub_entry w"
    using inv assms(2) by (auto simp: srv_inv_def NetworkServer_IsRunning_def)
  moreover from this(2) have "handle_id (disconnect_sub (server w)) \<in> sub_id ` set (entries_of ty_Disconnected (bus w))"
    by (force simp: sub_entry_def)
  moreover have "nc_fd (nconns w k) \<notin> nopen w'"
    if "k < nmade w" "is_server_side (nconns w k)" "connected (nconns w k)" "0 \<le> nc_fd (nconns w k)" for k
    using that f(6) [of k] same same2 closes_fdsD [OF closes, of k] by (simp add: stop_frame_def)
  moreover have "nopen w' \<subseteq> nopen w" using closes by (simp add: closes_fds_def)
  ultimately show ?thesis
    using f(3-6,8,9) same same2 by (simp add: stop_frame_def NetworkConnection_IsConnected_def NetworkServer_IsRunning_def)
qed

definition demo_ended :: NetWorld where
  "demo_ended = (demo_accepted no_users)\<lparr>server := (server (demo_accepted no_users))\<lparr>accept_thread :=
     worker_epilogue (accept_thread (server (demo_accepted no_users)))\<rparr>\<rparr>"

theorem net_server_stop_closes_all_witness:
  "connected (nconns demo_ended 0) \<and>
   (\<exists>w'. NetworkServer_Stop no_users demo_ended = Some w' \<and> \<not> connected (nconns w' 0) \<and> \<not> NetworkServer_IsRunning w' \<and>
      4 \<notin> nopen w' \<and> 5 \<notin> nopen w' \<and> 2 \<notin> sub_id ` set (entries_of ty_Disconnected (bus w')))"
proof -
  note eq = demo_accepted_quiet
  have r: "reaches srv_init (srv_step no_users) demo_ended"
    unfolding demo_ended_def
    by (rule reaches_step [OF demo_reaches(2)], rule srv_accept_ends) (simp add: eq demo_start_eq NetworkServer_new_def)
  have run: "NetworkServer_IsRunning demo_ended" "nmade demo_ended = 1" "is_server_side (nconns demo_ended 0)"
    "connected (nconns demo_ended 0)" "nc_fd (nconns demo_ended 0) = 5" "net_listen_fd (server demo_ended) = 4"
    "handle_id (disconnect_sub (server demo_ended)) = 2"
    by (simp_all add: demo_ended_def eq demo_start_eq NetworkServer_IsRunning_def NetworkConnection_new_def)
  have "\<exists>w'. NetworkServer_Stop no_users demo_ended = Some w'"
    by (simp add: NetworkServer_Stop_def stop_begin_def stop_join_def demo_ended_def eq demo_start_eq worker_epilogue_def
        ThreadManager_Stop_def ThreadManager_Join_def join_wait_def ThreadManager_CompleteJoin_def)
  then obtain w' where "NetworkServer_Stop no_users demo_ended = Some w'" ..
  with net_server_stop_closes_all [OF r run(1) this] run show ?thesis by (auto simp: NetworkConnection_IsConnected_def)
qed

text \<open>C19: When a live accepted connection ends while the server runs, whoever noticed it (\<open>Close\<close>,
  \<open>Recv\<close> or the sender), the connection is marked disconnected, every current subscriber of
  \<open>NetworkDisconnected\<close> is called exactly once and in subscription order, the server's own handler
  among them, and the connection is off the server's list afterwards.\<close>

theorem net_disconnect_notifies:
  assumes "reaches srv_init (srv_step user) w" "NetworkServer_IsRunning w"
    and "connected (nconns w k)" "is_server_side (nconns w k)"
    and "w' = NetworkConnection_Teardown user r True k w"
  shows "calls w' = calls w @ map subscriber (entries_of ty_Disconnected (bus w)) \<and>
    Cb_OnDisconnected \<in> set (map subscriber (entries_of ty_Disconnected (bus w))) \<and>
    \<not> connected (nconns w' k) \<and> k \<notin> set (connections (server w')) \<and> \<not> dispatching w'"
proof -
  have inv: "srv_inv w" by (rule srv_sys.reaches_inv [OF assms(1)])
  let ?w1 = "teardown_object k w" and ?c = "nconns w k"
  let ?ev = "Ev_Disconnected (peer_address ?c) (peer_port ?c) r k"
  have w1: "\<not> dispatching ?w1" "bus ?w1 = bus w" "calls ?w1 = calls w" "server ?w1 = server w"
    using inv by (simp_all add: teardown_object_def Let_def srv_inv_def)
  have sub: "sub_entry ?w1" using inv assms(2) by (simp add: srv_inv_def sub_entry_def NetworkServer_IsRunning_def w1)
  have w': "w' = snd (EventBus_Publish (net_call user) ty_Disconnected ?ev ?w1)"
    using assms(3-5) by (simp add: NetworkConnection_Teardown_def Let_def)
  have bi: "bus_inv (bus ?w1)" using inv w1 by (simp add: srv_inv_def)
  from net_bus.publish_delivers [OF w1(1) bi, of user ty_Disconnected ?ev "fst (EventBus_Publish (net_call user) ty_Disconnected ?ev ?w1)" w']
  have "calls w' = calls w @ map subscriber (entries_of ty_Disconnected (bus w))" "\<not> dispatching w'" using w' w1 by simp_all
  moreover have "Cb_OnDisconnected \<in> set (map subscriber (entries_of ty_Disconnected (bus w)))"
    using sub w1 by (force simp: sub_entry_def)
  moreover have "k \<notin> set (connections (server w'))" unfolding w' by (rule publish_removes [OF w1(1) sub])
  moreover have "\<not> connected (nconns w' k)" using teardown_effect(2) [of w user r True k] inv assms(5) by (simp add: srv_inv_def)
  ultimately show ?thesis by blast
qed

theorem net_disconnect_notifies_witness:
  "calls (NetworkConnection_Close no_users 0 (demo_accepted no_users)) = [Cb_user 0, Cb_OnDisconnected] \<and>
   connections (server (NetworkConnection_Close no_users 0 (demo_accepted no_users))) = []"
proof -
  note eq = demo_accepted_quiet
  have h: "NetworkServer_IsRunning (demo_accepted no_users)" "connected (nconns (demo_accepted no_users) 0)"
    "is_server_side (nconns (demo_accepted no_users) 0)"
    by (simp_all add: eq demo_start_eq NetworkServer_IsRunning_def NetworkConnection_new_def)
  let ?w' = "NetworkConnection_Close no_users 0 (demo_accepted no_users)"
  have "j \<notin> set (connections (server ?w'))" if "j \<noteq> 0" for j
  proof (rule effect_off [where k = "Some 0" and w = "demo_accepted no_users"])
    show "net_effect (Some 0) (demo_accepted no_users) ?w'"
      unfolding NetworkConnection_Close_def by (rule teardown_effect(1)) (simp add: eq)
  qed (use that in \<open>simp add: eq\<close>)
  moreover have "calls ?w' = calls (demo_accepted no_users) @ map subscriber (entries_of ty_Disconnected (bus (demo_accepted no_users)))"
    "0 \<notin> set (connections (server ?w'))"
    using net_disconnect_notifies [OF demo_reaches(2) [of no_users] h, where r = Net_SHUTDOWN, OF refl]
    by (simp_all add: NetworkConnection_Close_def)
  moreover have "calls (demo_accepted no_users) = [Cb_user 0]"
    "map subscriber (entries_of ty_Disconnected (bus (demo_accepted no_users))) = [Cb_OnDisconnected]"
    by (simp_all add: eq demo_start_eq entries_of_def ty_Disconnected_def)
  ultimately have "calls ?w' = [Cb_user 0, Cb_OnDisconnected]" "set (connections (server ?w')) = {}"
    by (simp, metis empty_iff subsetI subset_empty)
  then show ?thesis by simp
qed

text \<open>C39: A subscriber that closes the new connection while \<open>NetworkConnected\<close> is being published defeats
  the bookkeeping. Whatever peer was accepted and whatever the other handlers do: the connection is
  disconnected when the pass ends, only the subscribers of \<open>NetworkConnected\<close> were called (the nested
  publication of \<open>NetworkDisconnected\<close> is rejected), and from then on, through every sequence of
  operations, whole runs of \<open>Stop\<close> included, the dead connection stays on the server's list, and closing it again
  changes nothing.\<close>

theorem net_close_in_handler_leaks:
  assumes "reaches srv_init (srv_step user) w" "tm_running (accept_thread (server w))"
    and "acc_poll a = NPoll_ready" "0 \<le> acc_fd a" "acc_nonblock_ok a" "acc_thread_ok a"
    and "Cb_user n \<in> set (map subscriber (entries_of ty_Connected (bus w)))"
    and "\<forall>name v. H_Close (nmade w) \<in> set (fst (user n (Ev_Connected name (acc_port a) (nmade w)) v))"
  shows "\<exists>w'. accept_pass user a w = (True, w') \<and> \<not> NetworkConnection_IsConnected (nconns w' (nmade w)) \<and>
    calls w' = calls w @ map subscriber (entries_of ty_Connected (bus w)) \<and>
    (\<forall>w''. (srv_step user)\<^sup>*\<^sup>* w' w'' \<longrightarrow>
       nmade w \<in> set (connections (server w'')) \<and> \<not> NetworkConnection_IsConnected (nconns w'' (nmade w)) \<and>
       (\<forall>r ref. NetworkConnection_Teardown user r ref (nmade w) w'' = w'') \<and>
       (\<forall>w3. NetworkServer_Stop user w'' = Some w3 \<longrightarrow> nmade w \<in> set (connections (server w3))))"
proof -
  have inv: "srv_inv w" by (rule srv_sys.reaches_inv [OF assms(1)])
  obtain w' where a: "accept_pass user a w = (True, w')" "dead_listed (nmade w) w'"
    "calls w' = calls w @ map subscriber (entries_of ty_Connected (bus w))"
    using accept_closes [where user = user, OF inv assms(3-8)] by blast
  have inv': "srv_inv w'" by (rule srv_inv_accept [OF inv a(1) assms(2)])
  have stay: "srv_inv w'' \<and> dead_listed (nmade w) w''" if "(srv_step user)\<^sup>*\<^sup>* w' w''" for w''
    using dead.steps_inv [OF that] inv' a(2) by blast
  have "dead_listed (nmade w) w3" if "(srv_step user)\<^sup>*\<^sup>* w' w''" "NetworkServer_Stop user w'' = Some w3" for w'' w3
    using stay [OF rtranclp_trans [OF that(1) stop_steps [OF that(2)]]] by blast
  with a stay show ?thesis by (auto simp: dead_listed_def NetworkConnection_IsConnected_def teardown_dead)
qed

theorem net_close_in_handler_leaks_witness:
  "\<exists>w' w3. (srv_step closing_user)\<^sup>*\<^sup>* (demo_accepted closing_user) w' \<and> NetworkServer_Stop closing_user w' = Some w3 \<and>
     calls (demo_accepted closing_user) = [Cb_user 0] \<and> \<not> connected (nconns (demo_accepted closing_user) 0) \<and>
     0 \<in> set (connections (server w3))"
proof -
  let ?w = "demo_accepted closing_user"
  let ?e = "?w\<lparr>server := (server ?w)\<lparr>accept_thread := worker_epilogue (accept_thread (server ?w))\<rparr>\<rparr>"
  have h: "tm_running (accept_thread (server demo_listening))" "nmade demo_listening = 0" "calls demo_listening = []"
    "map subscriber (entries_of ty_Connected (bus demo_listening)) = [Cb_user 0]"
    by (simp_all add: demo_start_eq demo_world_def NetworkServer_new_def entries_of_def ty_Connected_def)
  obtain w' where w': "accept_pass closing_user demo_accept demo_listening = (True, w')" "\<not> connected (nconns w' 0)" "calls w' = [Cb_user 0]"
    and later: "\<And>w'' w3. (srv_step closing_user)\<^sup>*\<^sup>* w' w'' \<Longrightarrow> NetworkServer_Stop closing_user w'' = Some w3 \<Longrightarrow>
      0 \<in> set (connections (server w3))"
    using net_close_in_handler_leaks [OF demo_reaches(1) [of closing_user] h(1), of demo_accept 0] h
    by (auto simp: demo_accept_def closing_user_def NetworkConnection_IsConnected_def)
  have w: "?w = w'" by (simp add: demo_accepted_def w'(1))
  have t: "accept_thread (server ?w) = accept_thread (server demo_listening)"
    using accept_keeps_thread [OF _ w'(1)] srv_sys.reaches_inv [OF demo_reaches(1)] by (simp add: w srv_inv_def)
  have "\<exists>w3. NetworkServer_Stop closing_user ?e = Some w3"
    by (simp add: NetworkServer_Stop_def stop_begin_def stop_join_def t demo_start_eq worker_epilogue_def
        ThreadManager_Stop_def ThreadManager_Join_def join_wait_def ThreadManager_CompleteJoin_def)
  then obtain w3 where w3: "NetworkServer_Stop closing_user ?e = Some w3" ..
  have "(srv_step closing_user)\<^sup>*\<^sup>* ?w ?e"
    by (rule r_into_rtranclp, rule srv_accept_ends) (simp add: t h(1))
  with w3 later [of ?e w3] w'(2,3) show ?thesis unfolding w by blast
qed

text \<open>\<open>Start\<close> never assigns to a live thread, and a subscription taken back leaves no entry.\<close>

lemma start_total:
  assumes "srv_inv w" "\<not> stopping w"
  shows "\<exists>e w'. NetworkServer_Start io address port w = Some (e, w')"
proof (cases "net_running (server w)")
  case False
  then have "\<not> tm_running (accept_thread (server w))" "worker_thread (accept_thread (server w)) = None"
    using assms by (auto simp: srv_inv_def thread_ok_def)
  then show ?thesis
    by (auto simp: NetworkServer_Start_def Let_def EventBus_Subscribe_def ThreadManager_Start_def Subscription_assign_def
        Subscription_Cancel_def open_fd_def close_fd_def)
qed (simp add: NetworkServer_Start_def)

lemma subscribe_remove_entries:
  assumes "bus_inv (bus w)" "next_id (bus w) + 1 \<noteq> 0" "total_subscribers (bus w) < kMaxSubscribers"
  shows "entries_of ty (RemoveSubscriberFromState (next_id (bus w)) (bus (snd (EventBus_Subscribe ty' (Some cb) w)))) =
    entries_of ty (bus w)"
proof -
  have "next_id (bus w) \<notin> sub_id ` set (entries_of ty (bus w))"
    using assms(1) entries_of_subset [of ty "bus w"] by (fastforce simp: bus_inv_def)
  then show ?thesis
    unfolding entries_of_remove [OF bus_inv_subscribe [OF assms(1,2)]] subscribe_entries [OF assms(3)]
    using without_absent [of "next_id (bus w)" "entries_of ty (bus w)"] by (auto simp: without_def)
qed

text \<open>C25: \<open>NetworkServer::Start\<close> never aborts and is all or nothing: with a fresh descriptor from the
  kernel, any error leaves the open descriptors, the connections, the running state and every
  subscription as they were; success adds the listener and exactly one subscription.\<close>

theorem net_start_atomic:
  assumes "reaches srv_init (srv_step user) w" "\<not> stopping w" "next_id (bus w) + 1 \<noteq> 0" "listen_fd_got io \<notin> nopen w"
  shows "\<exists>e w'. NetworkServer_Start io address port w = Some (e, w') \<and> nconns w' = nconns w \<and>
    (if e = Net_SUCCESS
     then NetworkServer_IsRunning w' \<and> nopen w' = insert (listen_fd_got io) (nopen w) \<and>
       (\<forall>ty. entries_of ty (bus w') = entries_of ty (bus w) @ (if ty = ty_Disconnected
          then [\<lparr>sub_id = next_id (bus w), subscriber = Cb_OnDisconnected\<rparr>] else []))
     else NetworkServer_IsRunning w' = NetworkServer_IsRunning w \<and> nopen w' = nopen w \<and>
       (\<forall>ty. entries_of ty (bus w') = entries_of ty (bus w)))"
proof -
  have inv: "srv_inv w" by (rule srv_sys.reaches_inv [OF assms(1)])
  obtain e w' where st: "NetworkServer_Start io address port w = Some (e, w')"
    using start_total [OF inv assms(2)] by blast
  show ?thesis
  proof (cases "listens io address \<and> \<not> net_running (server w)")
    case False
    with start_early [OF st False] st assms(4) show ?thesis
      by (auto simp: open_fd_def close_fd_def NetworkServer_IsRunning_def)
  next
    case True
    then have l: "listens io address" "\<not> net_running (server w)" by auto
    have i: "disconnect_sub (server w) = Subscription_null" "\<not> tm_running (accept_thread (server w))"
      "thread_ok (accept_thread (server w))" "bus_inv (bus w)" using inv assms(2) l(2) by (auto simp: srv_inv_def)
    have nz: "next_id (bus w) \<noteq> 0" using i(4) by (simp add: bus_inv_def)
    show ?thesis
    proof (cases "total_subscribers (bus w) < kMaxSubscribers")
      case False
      from start_full [OF st l i(1) False] st assms(4) show ?thesis by (auto simp: NetworkServer_IsRunning_def)
    next
      case room: True
      note sl = start_late [OF st l i(1) room nz i(2,3)] and ss = start_late_server [OF st l i(1) room nz i(2,3)]
      with st l(2) assms(4) subscribe_entries [OF room] subscribe_remove_entries [OF i(4) assms(3) room] show ?thesis
        by (cases "accept_created io") (simp_all add: NetworkServer_IsRunning_def)
    qed
  qed
qed

theorem net_start_atomic_witness:
  "\<exists>e w'. NetworkServer_Start (demo_listen\<lparr>accept_created := False\<rparr>) ''0.0.0.0'' 554 demo_subscribed = Some (e, w') \<and>
     e = Net_THREAD_CREATION_FAILED \<and> nopen w' = {0, 1, 2} \<and> entries_of ty_Disconnected (bus w') = []"
proof -
  let ?io = "demo_listen\<lparr>accept_created := False\<rparr>"
  have "reaches srv_init (srv_step no_users) demo_subscribed" by (rule demo_subscribed_reaches)
  moreover have "\<not> stopping demo_subscribed" "next_id (bus demo_subscribed) + 1 \<noteq> 0" "listen_fd_got ?io \<notin> nopen demo_subscribed"
    by (simp_all add: demo_subscribed_eq demo_world_def demo_listen_def)
  ultimately obtain e w' where w': "NetworkServer_Start ?io ''0.0.0.0'' 554 demo_subscribed = Some (e, w')"
    "if e = Net_SUCCESS then NetworkServer_IsRunning w' else nopen w' = nopen demo_subscribed \<and>
       (\<forall>ty. entries_of ty (bus w') = entries_of ty (bus demo_subscribed))"
    using net_start_atomic [of no_users demo_subscribed ?io "''0.0.0.0''" 554] by (auto split: if_splits)
  moreover have "e = Net_THREAD_CREATION_FAILED"
    using w'(1) by (auto simp: NetworkServer_Start_def demo_listen_def demo_subscribed_eq demo_world_def NetworkServer_new_def Let_def open_fd_def
        EventBus_Subscribe_def kMaxSubscribers_def ty_Disconnected_def Subscription_assign_def Subscription_Cancel_def Subscription_null_def
        Subscription_IsValid_def ThreadManager_Start_def ThreadManager_new_def)
  ultimately show ?thesis
    by (auto simp: demo_subscribed_eq demo_world_def entries_of_def ty_Disconnected_def)
qed

text \<open>\<open>NetworkClient::Connect\<close> leaks nothing and publishes nothing: with a fresh descriptor from the
  kernel, on every error the open descriptors and all existing connections are as before and
  \<open>out_connection\<close> is not assigned; on success the new connection is live, client-side and owns the
  only new descriptor; the bus is untouched either way.\<close>

theorem net_connect_no_leak:
  assumes "dial_fd io \<notin> nopen w" "NetworkClient_Connect user io host port w = (e, out, w')"
  shows "(e = Net_SUCCESS \<longleftrightarrow> out \<noteq> None) \<and> bus w' = bus w \<and> calls w' = calls w \<and>
    (\<forall>k < nmade w. nconns w' k = nconns w k) \<and>
    (case out of
       None \<Rightarrow> nopen w' = nopen w
     | Some k \<Rightarrow> k = nmade w \<and> nopen w' = insert (dial_fd io) (nopen w) \<and> nc_fd (nconns w' k) = dial_fd io \<and>
         NetworkConnection_IsConnected (nconns w' k) \<and> \<not> is_server_side (nconns w' k))"
proof -
  obtain e2 c where st: "NetworkConnection_Start (dial_thread_ok io) (NetworkConnection_new (dial_fd io) host port False) = (e2, c)"
    by fastforce
  let ?w2 = "(open_fd (dial_fd io) w)\<lparr>nconns := (nconns w)(nmade w := c), nmade := Suc (nmade w)\<rparr>"
  note cf = connection_start_frame [OF st]
  have t: "NetworkConnection_Teardown user Net_SHUTDOWN False (nmade w) ?w2 = teardown_object (nmade w) ?w2"
    using cf by (simp add: NetworkConnection_Teardown_def Let_def)
  have "out = None \<and> e \<noteq> Net_SUCCESS \<and> (w' = w \<or> w' = close_fd (dial_fd io) (open_fd (dial_fd io) w)) \<or>
      out = None \<and> e \<noteq> Net_SUCCESS \<and> 0 \<le> dial_fd io \<and> w' = teardown_object (nmade w) ?w2 \<or>
      out = Some (nmade w) \<and> e = Net_SUCCESS \<and> w' = ?w2"
    using assms(2) st unfolding t [symmetric]
    by (auto simp: NetworkClient_Connect_def Let_def open_fd_def split: if_splits ConnectAnswer.splits)
  then consider "out = None" "e \<noteq> Net_SUCCESS" "w' = w \<or> w' = close_fd (dial_fd io) (open_fd (dial_fd io) w)"
    | "out = None" "e \<noteq> Net_SUCCESS" "0 \<le> dial_fd io" "w' = teardown_object (nmade w) ?w2"
    | "out = Some (nmade w)" "e = Net_SUCCESS" "w' = ?w2" by blast
  then show ?thesis
  proof cases
    case 1
    with assms(1) show ?thesis by (auto simp: open_fd_def close_fd_def)
  next
    case 2
    with assms(1) cf show ?thesis by (simp add: teardown_object_def Let_def open_fd_def)
  next
    case 3
    with cf show ?thesis by (simp add: open_fd_def NetworkConnection_IsConnected_def)
  qed
qed

theorem net_connect_no_leak_witness:
  "let io = \<lparr>dial_fd = 6, dial_pton_ok = True, dial_nonblock_ok = True, dial_connect = Connect_in_progress, dial_poll = NPoll_hangup,
       dial_getsockopt_ok = True, dial_so_error = 111, dial_thread_ok = True\<rparr>;
       r = NetworkClient_Connect no_users io ''10.0.0.9'' 80 demo_world
   in fst r = Net_CONNECT_FAILED \<and> nopen (snd (snd r)) = {0, 1, 2}"
proof -
  let ?io = "\<lparr>dial_fd = 6, dial_pton_ok = True, dial_nonblock_ok = True, dial_connect = Connect_in_progress, dial_poll = NPoll_hangup,
       dial_getsockopt_ok = True, dial_so_error = 111, dial_thread_ok = True\<rparr>"
  obtain e out w' where r: "NetworkClient_Connect no_users ?io ''10.0.0.9'' 80 demo_world = (e, out, w')" by (metis prod_cases3)
  have "dial_fd ?io \<notin> nopen demo_world" by (simp add: demo_world_def)
  note n = net_connect_no_leak [OF this r]
  have "e = Net_CONNECT_FAILED" "out = None" using r by (auto simp: NetworkClient_Connect_def Let_def split: prod.splits)
  with n r show ?thesis by (simp add: Let_def demo_world_def)
qed

text \<open>The result a thread in \<open>Recv\<close> is about to return, and \<open>Recv\<close> as the run of its statements.\<close>

fun result_of :: "Pc \<Rightarrow> NetworkError option" where
  "result_of (R_unlock k e) = Some e"
| "result_of (Teardown_at p k r (C_recv_return e)) = Some e"
| "result_of _ = None"

fun recv_run :: "RecvIn list \<Rightarrow> Pc \<Rightarrow> NetworkConnection \<Rightarrow> (Pc \<times> u8 list option) option" where
  "recv_run [] p c = Some (p, None)"
| "recv_run (i # is) p c =
     (case Recv_step i p c of
        None \<Rightarrow> None
      | Some (p', c', out) \<Rightarrow> if result_of p' \<noteq> None then Some (p', out) else recv_run is p' c')"

text \<open>C34: \<open>Recv\<close> called alone returns what the interleaved statements return, and \<open>out_payload\<close> changes
  on \<open>SUCCESS\<close> only. It disconnects exactly on \<open>PEER_CLOSED\<close> and \<open>RECEIVE_FAILED\<close>; in particular a
  \<open>poll\<close> that reports a hang-up loses whatever \<open>recv\<close> could still have returned.\<close>

theorem net_recv_result:
  assumes "0 < n" "\<not> recv_locked (nconns w k)" "\<not> dispatching w" "NetworkConnection_Recv user k a b n out w = (e, w', out')"
  shows "map_option (\<lambda>(p, o1). (result_of p, case o1 of None \<Rightarrow> out | Some x \<Rightarrow> x))
      (recv_run [In_lock, In_rpoll a, In_recv b] (R_enter k n) (nconns w k)) = Some (Some e, out') \<and>
    (if e = Net_PEER_CLOSED \<or> e = Net_RECEIVE_FAILED then connected (nconns w k) \<and> \<not> connected (nconns w' k) else w' = w) \<and>
    (e \<noteq> Net_SUCCESS \<longrightarrow> out' = out) \<and>
    (e = Net_SUCCESS \<longleftrightarrow> connected (nconns w k) \<and> 0 \<le> nc_fd (nconns w k) \<and> a = NPoll_ready \<and> b = NGot out')"
  using assms teardown_effect(2) [OF assms(3), where user = user and ref = True and k = k]
  by (auto simp: NetworkConnection_Recv_def Let_def split: if_splits NetPoll.splits NetRecv.splits)

theorem net_recv_result_witness:
  "fst (NetworkConnection_Recv no_users 0 NPoll_hangup (NGot [1, 2]) 10 [] (demo_accepted no_users)) = Net_PEER_CLOSED \<and>
   snd (snd (NetworkConnection_Recv no_users 0 NPoll_hangup (NGot [1, 2]) 10 [] (demo_accepted no_users))) = []"
proof -
  let ?w = "demo_accepted no_users"
  obtain e w' out' where r: "NetworkConnection_Recv no_users 0 NPoll_hangup (NGot [1, 2]) 10 [] ?w = (e, w', out')" by (metis prod_cases3)
  have "\<not> recv_locked (nconns ?w 0)" "\<not> dispatching ?w" by (simp_all add: demo_accepted_quiet NetworkConnection_new_def)
  note n = net_recv_result [OF _ this r]
  have "e = Net_PEER_CLOSED"
    using r by (simp add: NetworkConnection_Recv_def Let_def demo_accepted_quiet NetworkConnection_new_def)
  with n r show ?thesis by simp
qed

end
