(* ===== verification/Timed_Calls.thy ===== *)
theory Timed_Calls
  imports Ipc_Endpoints Network_Server
begin

text \<open>
  What becomes of the timeouts that callers pass to the IPC and network operations. The deadline of a
  framed message is a 64-bit sum, the backoff of the retry loop a 64-bit product, and three calls
  hand their timeout to \<open>poll\<close> through a cast to \<open>int\<close>. Each is modelled at its width and compared
  with the unbounded operations of \<open>Ipc_Socket\<close>, \<open>Ipc_Endpoints\<close> and \<open>Network_Server\<close>.
\<close>

section \<open>Deadlines and backoff at machine width\<close>

text \<open>\<open>None\<close>: the sum overflows.\<close>

definition IpcSocket_Send64 ::
  "nsec \<Rightarrow> SendAnswer list \<Rightarrow> u8 list option \<Rightarrow> nat \<Rightarrow> msec \<Rightarrow> IpcSocket \<Rightarrow> (IpcError option \<times> u8 list) option" where
  "IpcSocket_Send64 now script data sz timeout s =
     (if sock_fd s < 0 then Some (Some NOT_CONNECTED, [])
      else if sz > kIpcMaxMessageSize then Some (Some MESSAGE_TOO_LARGE, [])
      else if sz > 0 \<and> data = None then Some (Some Ipc_INVALID_ARGUMENT, [])
      else
        case clock_add now timeout of
          None \<Rightarrow> None
        | Some deadline \<Rightarrow> Some (send_message deadline script data sz))"

definition IpcSocket_Recv64 ::
  "nsec \<Rightarrow> RecvAnswer list \<Rightarrow> msec \<Rightarrow> u8 list \<Rightarrow> u8 list \<Rightarrow> IpcSocket \<Rightarrow>
   (IpcError option \<times> u8 list \<times> u8 list) option" where
  "IpcSocket_Recv64 now script timeout out_payload stream s =
     (if sock_fd s < 0 then Some (Some NOT_CONNECTED, out_payload, stream)
      else
        case clock_add now timeout of
          None \<Rightarrow> None
        | Some deadline \<Rightarrow> Some (recv_message deadline script out_payload stream))"

fun retry_loop64 ::
  "(nat \<Rightarrow> ConnectIO) \<Rightarrow> string \<Rightarrow> msec \<Rightarrow> nat \<Rightarrow> nat \<Rightarrow> msec \<Rightarrow> IpcError \<Rightarrow> IpcClient \<Rightarrow> IpcWorld \<Rightarrow>
   (IpcError \<times> msec list \<times> IpcClient \<times> IpcWorld) option" where
  "retry_loop64 io path max_delay i 0 delay last_error c w = Some (last_error, [], c, w)"
| "retry_loop64 io path max_delay i (Suc n) delay last_error c w =
     (case IpcClient_Connect (io i) path c w of
        (e, c1, w1) \<Rightarrow>
          if e = Ipc_SUCCESS then Some (Ipc_SUCCESS, [], c1, w1)
          else if n > 0 then
            (case checked64 (delay * 2) of
               None \<Rightarrow> None
             | Some doubled \<Rightarrow>
                 map_option (\<lambda>(r, sleeps, c2, w2). (r, delay # sleeps, c2, w2))
                   (retry_loop64 io path max_delay (i + 1) n (min doubled max_delay) e c1 w1))
          else retry_loop64 io path max_delay (i + 1) n delay e c1 w1)"

definition ConnectWithRetry64 ::
  "(nat \<Rightarrow> ConnectIO) \<Rightarrow> string \<Rightarrow> int \<Rightarrow> msec \<Rightarrow> msec \<Rightarrow> IpcClient \<Rightarrow> IpcWorld \<Rightarrow>
   (IpcError \<times> msec list \<times> IpcClient \<times> IpcWorld) option" where
  "ConnectWithRetry64 io path max_attempts initial_delay max_delay c w =
     (if max_attempts \<le> 0 then Some (Ipc_INVALID_ARGUMENT, [], c, w)
      else retry_loop64 io path max_delay 0 (nat max_attempts) initial_delay CONNECT_FAILED c w)"

section \<open>Timeouts handed to poll\<close>

text \<open>
  \<open>poll(2)\<close> on one descriptor that becomes ready after \<open>ready\<close> milliseconds (\<open>None\<close>: never), without
  signals or errors: whether it is ready in time, or \<open>None\<close> when the call never returns. A negative
  timeout means no limit.
\<close>

definition poll_for :: "int \<Rightarrow> nat option \<Rightarrow> bool option" where
  "poll_for timeout ready =
     (case ready of
        None \<Rightarrow> if timeout < 0 then None else Some False
      | Some t \<Rightarrow> Some (timeout < 0 \<or> int t \<le> timeout))"

text \<open>The three calls with their timeout; the checks before the \<open>poll\<close> are those of the operation.\<close>

definition Accept_timed ::
  "msec \<Rightarrow> nat option \<Rightarrow> AcceptIO \<Rightarrow> IpcServer \<Rightarrow> IpcWorld \<Rightarrow> (IpcError \<times> IpcServer \<times> IpcWorld) option" where
  "Accept_timed timeout ready io s w =
     (if \<not> srv_running s then Some (NOT_CONNECTED, s, w)
      else if IpcSocket_IsValid (client s) then Some (ALREADY_CONNECTED, s, w)
      else
        map_option (\<lambda>r. IpcServer_Accept (io\<lparr>accept_poll := (if r then Poll_ready else Poll_timeout)\<rparr>) s w)
          (poll_for (int_cast timeout) ready))"

definition Recv_timed ::
  "Users \<Rightarrow> nat \<Rightarrow> msec \<Rightarrow> nat option \<Rightarrow> NetRecv \<Rightarrow> nat \<Rightarrow> u8 list \<Rightarrow> NetWorld \<Rightarrow>
   (NetworkError \<times> NetWorld \<times> u8 list) option" where
  "Recv_timed user k timeout ready b max_bytes out w =
     (if max_bytes = 0 then Some (Net_INVALID_ARGUMENT, w, out)
      else if \<not> connected (nconns w k) \<or> nc_fd (nconns w k) < 0 then Some (Net_SHUTDOWN, w, out)
      else
        map_option (\<lambda>r. NetworkConnection_Recv user k (if r then NPoll_ready else NPoll_timeout) b max_bytes out w)
          (poll_for (int_cast timeout) ready))"

definition Connect_timed ::
  "Users \<Rightarrow> msec \<Rightarrow> nat option \<Rightarrow> DialIO \<Rightarrow> string \<Rightarrow> u16 \<Rightarrow> NetWorld \<Rightarrow>
   (NetworkError \<times> nat option \<times> NetWorld) option" where
  "Connect_timed user timeout ready io host port w =
     (if host = [] \<or> dial_fd io < 0 \<or> \<not> dial_pton_ok io \<or> \<not> dial_nonblock_ok io \<or>
        dial_connect io \<noteq> Connect_in_progress
      then Some (NetworkClient_Connect user io host port w)
      else
        map_option (\<lambda>r. NetworkClient_Connect user (io\<lparr>dial_poll := (if r then NPoll_ready else NPoll_timeout)\<rparr>)
            host port w)
          (poll_for (int_cast timeout) ready))"

section \<open>Facts\<close>

lemma retry_loop64_exact:
  assumes "0 \<le> d" "d < 2 ^ 62" "0 \<le> m" "m < 2 ^ 62"
  shows "retry_loop64 io path m i n d le c w = Some (retry_loop io path m i n d le c w)"
  using assms(1,2)
proof (induction n arbitrary: i d le c w)
  case (Suc n)
  have "checked64 (d * 2) = Some (d * 2)" using Suc.prems by (simp add: checked64_def int64_def)
  with Suc.prems assms(3,4) show ?case by (auto simp: Suc.IH split: prod.splits)
qed simp

section \<open>Properties\<close>

text \<open>C28: The deadlines of framed messages at 64 bits: for a clock reading and a timeout that are not
  negative, \<open>Send\<close> and \<open>Recv\<close> behave as the unbounded model exactly when the check of the arguments
  fails or the deadline fits the clock, and overflow otherwise (in particular for the largest
  duration, the usual way to ask for no timeout); the doubling of the retry delay does not
  overflow when the initial and the maximal delay are below \<open>2 ^ 62\<close> milliseconds, and does, after the
  sleep, when the first of at least two attempts fails with a larger initial delay.\<close>

theorem ipc_clock_exact:
  assumes "0 \<le> now" "0 \<le> timeout"
  shows "IpcSocket_Send64 now sends data sz timeout s =
      (if IpcSocket_IsValid s \<and> sz \<le> kIpcMaxMessageSize \<and> (sz = 0 \<or> data \<noteq> None) \<and> 2 ^ 63 \<le> now + ns_of_ms timeout
       then None else Some (IpcSocket_Send now sends data sz timeout s)) \<and>
    IpcSocket_Recv64 now recvs timeout out stream s =
      (if IpcSocket_IsValid s \<and> 2 ^ 63 \<le> now + ns_of_ms timeout
       then None else Some (IpcSocket_Recv now recvs timeout out stream s)) \<and>
    (0 \<le> d \<and> 0 \<le> m \<and> m < 2 ^ 62 \<and> d < 2 ^ 62 \<longrightarrow>
       ConnectWithRetry64 io path n d m c w = Some (IpcClient_ConnectWithRetry io path n d m c w)) \<and>
    (2 ^ 62 \<le> d \<and> 2 \<le> n \<and> fst (IpcClient_Connect (io 0) path c w) \<noteq> Ipc_SUCCESS \<longrightarrow>
       ConnectWithRetry64 io path n d m c w = None)"
proof (intro conjI impI)
  show "ConnectWithRetry64 io path n d m c w = None"
    if "2 ^ 62 \<le> d \<and> 2 \<le> n \<and> fst (IpcClient_Connect (io 0) path c w) \<noteq> Ipc_SUCCESS"
  proof -
    have "nat n = Suc (Suc (nat n - 2))" using that by linarith
    then obtain k where "nat n = Suc (Suc k)" by blast
    moreover have "checked64 (d * 2) = None" using that by (simp add: checked64_def int64_def)
    ultimately show ?thesis using that by (auto simp: ConnectWithRetry64_def split: prod.splits)
  qed
qed (use assms in \<open>auto simp: IpcSocket_Send64_def IpcSocket_Send_def IpcSocket_Recv64_def IpcSocket_Recv_def
    IpcSocket_IsValid_def clock_add_eq ConnectWithRetry64_def IpcClient_ConnectWithRetry_def retry_loop64_exact\<close>)

theorem ipc_clock_exact_witness:
  "IpcSocket_Recv64 5 [] 9223372036854775807 [] [] demo_socket = None \<and>
   IpcSocket_Recv64 5 [] 1000 [] [] demo_socket = Some (IpcSocket_Recv 5 [] 1000 [] [] demo_socket)"
  using ipc_clock_exact [of 5 9223372036854775807 "[]" None 0 demo_socket "[]" "[]" "[]"]
    ipc_clock_exact [of 5 1000 "[]" None 0 demo_socket "[]" "[]" "[]"]
  by (simp add: ns_of_ms_def demo_socket_def IpcSocket_IsValid_def)

text \<open>C27: The timeouts of \<open>IpcServer::Accept\<close>, \<open>NetworkConnection::Recv\<close> and \<open>NetworkClient::Connect\<close>, for every
  count of milliseconds: what \<open>poll\<close> waits for is the count cut to its low 32 bits and read as two's
  complement (the count itself from 0 to \<open>2 ^ 31 - 1\<close>). When the cut count is not negative every call
  returns: if the descriptor is ready within it the call goes on with it, otherwise it reports
  a timeout, changes nothing and keeps no descriptor. When it is negative, as for counts
  from \<open>- (2 ^ 31)\<close> to \<open>-1\<close> and from \<open>2 ^ 31\<close> to \<open>2 ^ 32 - 1\<close>, the wait has no limit: each call goes on once the descriptor
  is ready, and with a peer that stays silent none of the three ever returns.\<close>

theorem timed_calls_exact:
  assumes "srv_running s" "\<not> IpcSocket_IsValid (client s)"
    and "0 < n" "connected (nconns w k)" "0 \<le> nc_fd (nconns w k)"
    and "host \<noteq> []" "0 \<le> dial_fd dio" "dial_pton_ok dio" "dial_nonblock_ok dio"
      "dial_connect dio = Connect_in_progress"
  shows "let low = t mod 2 ^ 32; cut = (if low < 2 ^ 31 then low else low - 2 ^ 32) in
    (0 \<le> t \<and> t < 2 ^ 31 \<longrightarrow> cut = t) \<and>
    (- (2 ^ 31) \<le> t \<and> t < 0 \<or> 2 ^ 31 \<le> t \<and> t < 2 ^ 32 \<longrightarrow> cut < 0) \<and>
    (if cut < 0 \<and> ready = None
     then Accept_timed t ready aio s v = None \<and> Recv_timed user k t ready b n out w = None \<and>
       Connect_timed user t ready dio host port w = None
     else if \<exists>r. ready = Some r \<and> (cut < 0 \<or> int r \<le> cut)
     then Accept_timed t ready aio s v = Some (IpcServer_Accept (aio\<lparr>accept_poll := Poll_ready\<rparr>) s v) \<and>
       Recv_timed user k t ready b n out w = Some (NetworkConnection_Recv user k NPoll_ready b n out w) \<and>
       Connect_timed user t ready dio host port w =
         Some (NetworkClient_Connect user (dio\<lparr>dial_poll := NPoll_ready\<rparr>) host port w)
     else Accept_timed t ready aio s v = Some (TIMEOUT, s, v) \<and>
       Recv_timed user k t ready b n out w = Some (Net_TIMEOUT, w, out) \<and>
       Connect_timed user t ready dio host port w =
         Some (Net_TIMEOUT, None, close_fd (dial_fd dio) (open_fd (dial_fd dio) w)))"
proof -
  have "if int_cast t < 0 \<and> ready = None
     then Accept_timed t ready aio s v = None \<and> Recv_timed user k t ready b n out w = None \<and>
       Connect_timed user t ready dio host port w = None
     else if \<exists>r. ready = Some r \<and> (int_cast t < 0 \<or> int r \<le> int_cast t)
     then Accept_timed t ready aio s v = Some (IpcServer_Accept (aio\<lparr>accept_poll := Poll_ready\<rparr>) s v) \<and>
       Recv_timed user k t ready b n out w = Some (NetworkConnection_Recv user k NPoll_ready b n out w) \<and>
       Connect_timed user t ready dio host port w =
         Some (NetworkClient_Connect user (dio\<lparr>dial_poll := NPoll_ready\<rparr>) host port w)
     else Accept_timed t ready aio s v = Some (TIMEOUT, s, v) \<and>
       Recv_timed user k t ready b n out w = Some (Net_TIMEOUT, w, out) \<and>
       Connect_timed user t ready dio host port w =
         Some (Net_TIMEOUT, None, close_fd (dial_fd dio) (open_fd (dial_fd dio) w))"
    using assms
    by (auto simp: Accept_timed_def Recv_timed_def Connect_timed_def poll_for_def IpcServer_Accept_def
        NetworkConnection_Recv_def NetworkClient_Connect_def Let_def split: option.splits)
  moreover have "0 \<le> t \<and> t < 2 ^ 31 \<longrightarrow> int_cast t = t" using int_cast_small [of t] by simp
  moreover have "- (2 ^ 31) \<le> t \<and> t < 0 \<or> 2 ^ 31 \<le> t \<and> t < 2 ^ 32 \<longrightarrow> int_cast t < 0"
    by (auto simp: int_cast_small int_cast_wrap)
  ultimately show ?thesis unfolding Let_def int_cast_low [of t, unfolded Let_def, symmetric] by (intro conjI)
qed

definition demo_dial :: DialIO where
  "demo_dial = \<lparr>dial_fd = 9, dial_pton_ok = True, dial_nonblock_ok = True, dial_connect = Connect_in_progress,
     dial_poll = NPoll_timeout, dial_getsockopt_ok = True, dial_so_error = 0, dial_thread_ok = True\<rparr>"

definition demo_peer :: NetWorld where
  "demo_peer = demo_world\<lparr>nconns := (\<lambda>_. NetworkConnection_new 7 ''10.0.0.2'' 80 False), nmade := 1\<rparr>"

theorem timed_calls_exact_witness:
  "Recv_timed closing_user 0 250 (Some 300) NRecv_FIN 16 [] demo_peer = Some (Net_TIMEOUT, demo_peer, []) \<and>
   Recv_timed closing_user 0 3000000000 None NRecv_FIN 16 [] demo_peer = None \<and>
   Recv_timed closing_user 0 (- 4294967296) None NRecv_FIN 16 [] demo_peer = Some (Net_TIMEOUT, demo_peer, [])"
proof -
  note t = timed_calls_exact [of "IpcServer_new\<lparr>srv_running := True\<rparr>" 16 demo_peer 0 "''10.0.0.2''" demo_dial]
  show ?thesis
    using t [of 250 "Some 300" _ _ closing_user] t [of 3000000000 None _ _ closing_user]
      t [of "- 4294967296" None _ _ closing_user]
    by (simp add: IpcServer_new_def IpcSocket_new_def IpcSocket_IsValid_def demo_peer_def demo_dial_def
        NetworkConnection_new_def)
qed

end
