(* ===== verification/Network_Typing.thy ===== *)
theory Network_Typing
  imports Network_Server Event_Typing
begin

text \<open>
  The network service on the typed event bus. \<open>OnDisconnected\<close> is written for \<open>NetworkDisconnected\<close>
  events only; the model of \<open>Network_Server\<close> has a branch for the call with the other event type. It
  is never taken: the service is a typed client of the bus, and every operation keeps the table
  typed.
\<close>

fun net_fits :: "nat \<Rightarrow> NetCb \<Rightarrow> bool" where
  "net_fits ty Cb_OnDisconnected = (ty = ty_Disconnected)"
| "net_fits ty (Cb_user n) = True"

fun event_type :: "NetEvent \<Rightarrow> nat" where
  "event_type (Ev_Connected a p k) = ty_Connected"
| "event_type (Ev_Disconnected a p r k) = ty_Disconnected"

lemma exec_op_typed: "typed_api net_fits w (exec_op op w)"
proof (cases op)
  case (H_Subscribe ty n)
  then show ?thesis
    using typed_subscribe [of net_fits ty "Some (Cb_user n)" w] typed_other [of w w net_fits] by simp
next
  case (H_Cancel h)
  then show ?thesis using typed_cancel [of net_fits w True h] typed_other [of w w net_fits] by simp
next
  case (H_Close k)
  then show ?thesis by (auto intro!: typed_other simp: teardown_object_def Let_def)
next
  case (H_Send k b)
  then show ?thesis by (auto intro!: typed_other)
qed

lemma exec_ops_typed: "(typed_api net_fits)\<^sup>*\<^sup>* w (fold exec_op ops w)"
proof (induction ops arbitrary: w)
  case (Cons op ops)
  from converse_rtranclp_into_rtranclp [OF exec_op_typed Cons.IH] show ?case by simp
qed simp

interpretation net_typed: typed_client net_fits event_type "net_call user" for user
proof
  show "(typed_api net_fits)\<^sup>*\<^sup>* w (fst (net_call user cb ev w))" if "net_fits (event_type ev) cb" for w cb ev
    using that
  proof (induction user cb ev w rule: net_call.induct)
    case (1 user a p r k w)
    have "typed_api net_fits w (w\<lparr>server := NetworkServer_OnDisconnected k (server w)\<rparr>)"
      by (rule typed_other) simp_all
    then show ?case by (simp add: r_into_rtranclp)
  next
    case (3 user n ev w)
    then show ?case by (auto split: prod.splits intro: exec_ops_typed)
  qed simp
qed

abbreviation net_table_typed :: "NetWorld \<Rightarrow> bool" where
  "net_table_typed w \<equiv> typed_table net_fits (bus w)"

lemmas publish_net_typed =
  net_typed.publish_typed [of _ _ "Ev_Disconnected a p r k" for a p r k, unfolded event_type.simps]
  net_typed.publish_typed [of _ _ "Ev_Connected a p k" for a p k, unfolded event_type.simps]

lemma teardown_typed: "net_table_typed w \<Longrightarrow> net_table_typed (NetworkConnection_Teardown user r ref k w)"
  using publish_net_typed(1) [of "teardown_object k w"]
  by (auto simp: NetworkConnection_Teardown_def Let_def) (auto simp: teardown_object_def Let_def)

lemma close_all_typed: "net_table_typed w \<Longrightarrow> net_table_typed (fold (NetworkConnection_Close user) ks w)"
  by (induction ks arbitrary: w) (simp_all add: NetworkConnection_Close_def teardown_typed)

lemma accept_typed:
  assumes "net_table_typed w" "accept_pass user a w = (go, w')"
  shows "net_table_typed w'"
  using assms
  by (auto simp: accept_pass_def Let_def open_fd_def close_fd_def split: if_splits NetPoll.splits prod.splits
      intro!: teardown_typed publish_net_typed)

lemma connect_typed:
  assumes "net_table_typed w" "NetworkClient_Connect user io host port w = (e, out, w')"
  shows "net_table_typed w'"
  using assms
  by (auto simp: NetworkClient_Connect_def Let_def open_fd_def close_fd_def
      split: if_splits ConnectAnswer.splits prod.splits intro!: teardown_typed)

lemma start_typed:
  assumes "net_table_typed w" "NetworkServer_Start io address port w = Some (e, w')"
  shows "net_table_typed w'"
proof -
  have t: "typed_table net_fits (bus w2)"
    if "EventBus_Subscribe ty_Disconnected (Some Cb_OnDisconnected) (w\<lparr>nopen := n\<rparr>) = (h, w2)" for n h w2
    using typed_subscribed [of net_fits "w\<lparr>nopen := n\<rparr>" ty_Disconnected "Some Cb_OnDisconnected"] assms(1) that by simp
  have c: "typed_table net_fits b'" if "Subscription_Cancel alive h b = (h', b')" "typed_table net_fits b" for alive h b h' b'
    using typed_cancelled [OF that(2), of alive h] that(1) by simp
  show ?thesis
    using assms
    by (auto simp: NetworkServer_Start_def Let_def open_fd_def close_fd_def Subscription_assign_def
        split: if_splits option.splits prod.splits intro!: typed_cancelled dest!: t c)
qed

lemma stop_finish_typed:
  assumes "net_table_typed w"
  shows "net_table_typed (stop_finish user w)"
  using typed_cancelled [OF close_all_typed [OF assms, of user "connections (server w)"]]
  by (simp add: stop_finish_def Let_def close_fd_def case_prod_unfold)

lemma srv_step_typed: "srv_step user w w' \<Longrightarrow> net_table_typed w \<Longrightarrow> net_table_typed w'"
proof (induction rule: srv_step.induct)
  case (srv_start w io address port e w')
  then show ?case using start_typed by blast
next
  case (srv_stop_begin w w')
  then show ?case by (auto simp: stop_begin_def split: if_splits)
next
  case (srv_stop_finish w w1)
  then have "net_table_typed w1" by (auto simp: stop_join_def split: option.splits)
  then show ?case by (rule stop_finish_typed)
next
  case (srv_accept w a go w')
  then show ?case using accept_typed by blast
next
  case (srv_user op w)
  then show ?case using typed_api_table [OF exec_op_typed] by blast
next
  case (srv_connect io host port w e out w')
  then show ?case using connect_typed by blast
qed (simp_all add: teardown_typed)

interpretation srv_types: inductive_invariant srv_init "srv_step user" net_table_typed for user
  by unfold_locales (simp add: srv_init_def, rule srv_step_typed)

text \<open>Whatever the server, the clients and the subscribers have done, and however subscriptions
  came and went, the server's own handler is registered for \<open>NetworkDisconnected\<close> only, and every
  subscriber that the publication of an event calls may be called with an event of its type;
  publishing \<open>NetworkConnected\<close> never reaches \<open>OnDisconnected\<close>.\<close>

theorem net_handler_types:
  assumes "reaches srv_init (srv_step user) w"
  shows "(\<forall>ty. \<forall>e \<in> set (entries_of ty (bus w)). subscriber e = Cb_OnDisconnected \<longrightarrow> ty = ty_Disconnected) \<and>
    (\<exists>cbs. calls (snd (EventBus_Publish (net_call user) (event_type ev) ev w)) = calls w @ cbs \<and>
       list_all (net_fits (event_type ev)) cbs \<and>
       (event_type ev = ty_Connected \<longrightarrow> Cb_OnDisconnected \<notin> set cbs))"
proof -
  have t: "net_table_typed w" by (rule srv_types.reaches_inv [OF assms])
  have s: "\<not> dispatching w" "bus_inv (bus w)" using srv_sys.reaches_inv [OF assms] by (simp_all add: srv_inv_def)
  have "\<forall>ty. \<forall>e \<in> set (entries_of ty (bus w)). subscriber e = Cb_OnDisconnected \<longrightarrow> ty = ty_Disconnected"
    using typed_entries [OF t] by (metis net_fits.simps(1))
  moreover obtain cbs where c: "calls (snd (EventBus_Publish (net_call user) (event_type ev) ev w)) = calls w @ cbs"
    "list_all (net_fits (event_type ev)) cbs"
    using net_typed.publish_fits [OF t s, of user ev] by blast
  moreover have "Cb_OnDisconnected \<notin> set cbs" if "event_type ev = ty_Connected"
    using c(2) that by (auto simp: list_all_iff ty_Connected_def ty_Disconnected_def)
  ultimately show ?thesis by blast
qed

theorem net_handler_types_witness:
  "\<exists>cbs. calls (snd (EventBus_Publish (net_call no_users) ty_Connected (Ev_Connected ''10.0.0.9'' 5000 0)
       demo_listening)) = calls demo_listening @ cbs \<and> Cb_OnDisconnected \<notin> set cbs"
  using net_handler_types [OF demo_reaches(1), of no_users "Ev_Connected ''10.0.0.9'' 5000 0"] by auto

end
