(* ===== verification/Spec2Isabelle.thy ===== *)
theory Spec2Isabelle
  imports Queue_Spec Firmware_App Thread_Manager Event_Typing Event_Concurrent Timer_Spec Timer_Clock Config_Store Watchdog
    Timed_Calls Network_Typing
begin

text \<open>
  \<^bold>\<open>A verification of the IP camera firmware.\<close>

  \<^bold>\<open>The program.\<close> The firmware (C++, \<open>src/\<close>) is a set of framework components, two services and an
  application. \<open>FirmwareApp\<close> (\<open>src/app\<close>) brings up the process-wide \<open>Logger\<close> and the \<open>SignalHandler\<close> and
  polls until a shutdown is requested. The framework (\<open>src/framework\<close>) provides a bounded blocking
  queue, an owner of one worker thread with a stop token, a synchronous event bus, a timer
  scheduler with its own thread, a hardware watchdog with a monitor thread (on a \<open>ThreadManager\<close>,
  logging through the \<open>Logger\<close>) and framed messages over Unix sockets. The services
  (\<open>src/services\<close>) are an INI configuration store (it logs through the \<open>Logger\<close>) and a TCP transport
  whose connections own a \<open>Queue\<close> and a sender thread, and whose server runs its accept loop on a
  \<open>ThreadManager\<close> and tells other services about peers through the \<open>EventBus\<close>.

  \<^bold>\<open>Conventions.\<close> A class is a record with its fields, a method a function on it, named
  \<open>Class_Method\<close>; an enum is a datatype with the source's constructors (prefixed where several
  enums share a name). A method that holds a mutex throughout is one step. A call that may block is
  a function to \<open>option\<close>: \<open>None\<close> means that it is still waiting (or, where the text says so, that the
  process has been terminated). What the operating system answers (descriptors, errors, readiness,
  clock readings, the outcome of creating a thread) is an argument, so every theorem holds for all
  answers. Threads are program counters; where threads interleave, an \<open>inductive\<close> step relation
  picks who moves, and a property holds in every reachable state (\<open>reaches\<close>). Record fields called
  histories are written by the model only, to state properties.

  \<^bold>\<open>The theories.\<close>

  \<^item> \<open>Firmware_Prelude\<close>: machine types, \<open>reaches\<close>, the locale \<open>inductive_invariant\<close> (what every step keeps
    holds in every reachable state), its extension \<open>simulation\<close> (refinement of an abstract machine),
    lists keyed by an id, decimal numerals.
  \<^item> \<open>Bounded_Queue\<close> (\<open>queue.h\<close>, \<open>queue.tpp\<close>): the operations with the notifications they issue, then any
    number of threads with the wait sets of both condition variables. No wake-up is lost, items
    leave in the order they came, draining delivers everything. \<open>Queue_Spec\<close>: an abstract bounded
    buffer with atomic operations; the queue is linearizable with respect to it.
  \<^item> \<open>Logger\<close> (\<open>logger.cpp\<close>), \<open>Signal_Handler\<close> (\<open>signal_handler.cpp\<close>), \<open>Firmware_App\<close> (\<open>firmware_app.cpp\<close>,
    \<open>main.cpp\<close>): what is printed and in which order; the handlers installed, restored and rolled
    back; that \<open>main\<close> runs until a signal or a request and then undoes everything, and what a
    \<open>Shutdown\<close> during \<open>Run\<close> does.
  \<^item> \<open>Thread_Manager\<close> (\<open>thread_manager.cpp\<close>, \<open>stop_token.cpp\<close>): several callers of both \<open>Join\<close>s against the
    worker; nobody waits for a thread that has ended, each handle is joined once.
  \<^item> \<open>Event_Bus\<close> (\<open>event_bus.h\<close>): the subscriber table, RAII handles and \<open>Publish\<close> with arbitrary
    callbacks; the locale \<open>bus_client\<close> states what a callback may do and proves what it gets.
    \<open>Event_Typing\<close>: the type erasure; the locale \<open>typed_client\<close> (a \<open>bus_client\<close> as far as its subscribers are
    called with events of their type) shows that the unchecked cast is safe. \<open>Event_Concurrent\<close>:
    several threads, the calls of a dispatch outside the mutex; how often a cancelled
    subscriber can still be called, and that it can.
  \<^item> \<open>Timer_Scheduler\<close> (\<open>timer_scheduler.cpp\<close>): the table, the public operations and the scheduler loop
    with its two waits, interleaved with every client. Due timers are collected, none fires early,
    a cancelled timer never fires again, a one-shot fires at most once, a stop ends the loop.
    \<open>Timer_Spec\<close>: an abstract alarm clock, refined by each timer (an interpretation of \<open>simulation\<close>).
    \<open>Timer_Clock\<close>: the same operations with the checked 64-bit arithmetic of the code; below a bound on
    clock and delays they agree with the unbounded ones in every reachable state, and it is shown
    exactly when a deadline overflows.
  \<^item> \<open>Config_Store\<close> (\<open>config.cpp\<close>): the parser against a declarative reading of the file, the round trip
    with a printer, exact integer parsing.
  \<^item> \<open>Watchdog\<close> (\<open>watchdog.cpp\<close>): both devices behind the locale \<open>watchdog_device\<close>, the lifecycle and the
    monitor loop; the device is kicked exactly when all checkers are healthy.
  \<^item> \<open>Ipc_Socket\<close>, \<open>Ipc_Endpoints\<close> (\<open>ipc_socket.cpp\<close>, \<open>ipc_server.cpp\<close>, \<open>ipc_client.cpp\<close>, \<open>ipc_internal.h\<close>): framing
    and the partial read and write loops with deadlines; one server per path, no leaked
    descriptor, the retry schedule.
  \<^item> \<open>Network_Connection\<close>, \<open>Network_Channel\<close> (\<open>network.cpp\<close>, the connection): every shared access of
    \<open>Send\<close>, \<open>SendLoop\<close>, \<open>Recv\<close>, \<open>Teardown\<close> and the destructor as a step, over a kernel table of
    descriptors. A connection refines an abstract byte channel when descriptors are not reused; a
    run shows that it does not when they are. Teardown happens once; the destructor's \<open>join\<close> waits for
    the sender and returns, and on the sender's own thread the destructor detaches it.
  \<^item> \<open>Network_Server\<close> (\<open>network.cpp\<close>, server and client): accept loop, \<open>Start\<close>, \<open>Stop\<close>, \<open>OnDisconnected\<close> and
    \<open>Connect\<close>, composed with the event bus and the thread manager; the network's callbacks are an
    interpretation of \<open>bus_client\<close>. The server never loses a live connection, \<open>Stop\<close> closes every
    descriptor and takes the subscription off the bus, every subscriber hears of an end once, except when
    a connection is closed inside a handler: then it stays on the list for good.
    \<open>Network_Typing\<close>: the service as a typed client of the bus; its handler only ever sees the event
    type it is written for.
  \<^item> \<open>Timed_Calls\<close> (the timeouts of \<open>ipc_socket.cpp\<close>, \<open>ipc_client.cpp\<close>, \<open>ipc_server.cpp\<close> and \<open>network.cpp\<close>): the 64-bit
    deadlines and retry delays, and the calls that cast a timeout to \<open>int\<close> for \<open>poll\<close>: what
    each count becomes, for which they return in time, and for which they wait for ever.

  \<^bold>\<open>Bounds and fuel.\<close> No definition needs fuel: a loop runs over the list of answers it gets, and
  a list that ends early leaves the call waiting; termination claims (\<open>timer_stop_terminates\<close>,
  \<open>net_destructor_joins\<close>, \<open>ipc_send_recv_complete\<close>) give the number of steps or the answers that
  are enough. In the component theories time points and durations are unbounded integers;
  \<open>Timer_Clock\<close> and \<open>Timed_Calls\<close> redo the sums at 64 bits and state when both agree (the clock alone
  lasts 292 years, so only a caller's huge duration can overflow; the watchdog adds at most
  \<open>2 ^ 31\<close> seconds). The subscription counter (64 bits) does not wrap; this is a guard of the steps
  that use it. Wrap-around is kept where the code can meet it: the frame header, the cast of a
  timeout for \<open>poll\<close>, integer parsing.

  \<^bold>\<open>What is assumed of the outside.\<close> The kernel gives a new descriptor a number that is not open
  and an advisory lock to one holder at a time. \<open>TimerScheduler\<close> is started again only after its
  thread has ended. \<open>Start\<close> and \<open>Stop\<close> of one \<open>NetworkServer\<close> are not called concurrently. Handlers of
  network events are arbitrary programs over the public operations; they have no access to the
  server's own subscription. A \<open>Publish\<close> runs its handlers without operations of other threads on
  the network objects in between (their operations on the bus may come in between).

  \<^bold>\<open>Not modelled.\<close> The weak-memory behaviour of relaxed atomics (atomics are sequentially
  consistent), undefined behaviour of data races (the racy read of \<open>fd_\<close> is a read of one of its
  values), allocation failure, DNS and address parsing (\<open>inet_pton\<close>, \<open>inet_ntop\<close> are inputs), the
  Helgrind annotations (\<open>src/framework/util\<close>, no effect at run time), the tests and the build.
\<close>

end
